theory Spec2Isabelle
  imports Main "HOL-Library.Multiset"
begin

section \<open>Machine integers\<close>

text \<open>
  The engine computes with C++ \<open>int\<close> (32 bits, two's complement).  Values are modelled
  as \<open>int\<close>; every arithmetic operation of the source that can leave the 32-bit range is
  written with the wrap-around made explicit.  The search does evaluate \<open>abs\<close> and unary
  minus at \<open>INT32_MIN\<close> (the initial \<open>bestScore\<close> of a node is stored and read back),
  where both give \<open>INT32_MIN\<close> again on a two's complement machine.
\<close>

definition wrap32 :: "int \<Rightarrow> int" where
  "wrap32 x = (x + 2147483648) mod 4294967296 - 2147483648"

definition INT32_MIN :: int where
  "INT32_MIN = - 2147483648"

definition INT32_MAX :: int where
  "INT32_MAX = 2147483647"

definition add32 :: "int \<Rightarrow> int \<Rightarrow> int" where
  "add32 x y = wrap32 (x + y)"

definition sub32 :: "int \<Rightarrow> int \<Rightarrow> int" where
  "sub32 x y = wrap32 (x - y)"

definition mul32 :: "int \<Rightarrow> int \<Rightarrow> int" where
  "mul32 x y = wrap32 (x * y)"

definition neg32 :: "int \<Rightarrow> int" where
  "neg32 x = wrap32 (- x)"

definition abs32 :: "int \<Rightarrow> int" where
  "abs32 x = wrap32 \<bar>x\<bar>"

definition shl32 :: "int \<Rightarrow> nat \<Rightarrow> int" where
  "shl32 x k = wrap32 (x * 2 ^ k)"

definition wrap64 :: "int \<Rightarrow> int" where
  "wrap64 x = (x + 9223372036854775808) mod 18446744073709551616 - 9223372036854775808"

text \<open>C's \<open>%\<close> truncates towards zero: the sign of the result is the dividend's.\<close>

definition crem :: "int \<Rightarrow> int \<Rightarrow> int" where
  "crem a b = (if 0 \<le> a then a mod \<bar>b\<bar> else - ((- a) mod \<bar>b\<bar>))"

definition MATE_SCORE :: int where
  "MATE_SCORE = 65536"

section \<open>Moves and cache entries\<close>

text \<open>
  \<open>Move\<close> is declared in a header that is not part of the sources at hand; the model has
  the four fields that \<open>Search.cpp\<close> reads.  \<open>Move{}\<close> value-initialises them to zero.
\<close>

record Move =
  start :: int
  end_sq :: int
  flag :: int
  promotionType :: int

definition emptyMove :: Move where
  "emptyMove = \<lparr>start = 0, end_sq = 0, flag = 0, promotionType = 0\<rparr>"

datatype NodeType = EMPTY | EXACT | UPPERBOUND | LOWERBOUND

text \<open>
  The field order is the one of the aggregate initialisers in \<open>Search.cpp\<close>:
  \<open>{hashCode, move, depth, score, nodeType}\<close>.
\<close>

record Entry =
  key :: int
  bestMove :: Move
  depth :: int
  score :: int
  nodeType :: NodeType

section \<open>The transposition table (TranspositionTable.cpp)\<close>

text \<open>
  The table is an array of \<open>TT_SIZE\<close> entries and three counters.  \<open>TT_SIZE\<close> comes from
  the missing header and is a parameter of every operation.  The array is modelled as a
  store from indices to entries.  Hash keys are \<open>long int\<close>, read as signed 64-bit
  values; the counters are modelled without overflow.
\<close>

record TranspositionTable =
  entries :: "int \<Rightarrow> Entry"
  reads :: int
  writes :: int
  collisions :: int

definition emptyEntry :: Entry where
  "emptyEntry = \<lparr>key = 0, bestMove = emptyMove, depth = 0, score = 0, nodeType = EMPTY\<rparr>"

definition emptyTable :: TranspositionTable where
  "emptyTable = \<lparr>entries = (\<lambda>_. emptyEntry), reads = 0, writes = 0, collisions = 0\<rparr>"

text \<open>\<open>int index = abs(key) % TT_SIZE\<close>\<close>

definition slot :: "int \<Rightarrow> int \<Rightarrow> int" where
  "slot TT_SIZE k = crem (wrap64 \<bar>k\<bar>) TT_SIZE"

definition getEntry :: "int \<Rightarrow> TranspositionTable \<Rightarrow> int \<Rightarrow> int \<Rightarrow> Entry \<times> TranspositionTable" where
  "getEntry TT_SIZE t k ply =
     (let index = slot TT_SIZE k;
          entry = entries t index;
          entry = (if abs32 (score entry) = MATE_SCORE
                   then entry\<lparr>score := mul32 (if score entry > 0 then 1 else - 1) (sub32 MATE_SCORE ply)\<rparr>
                   else entry)
      in (entry, t\<lparr>reads := reads t + 1\<rparr>))"

definition contains :: "int \<Rightarrow> TranspositionTable \<Rightarrow> int \<Rightarrow> bool \<times> TranspositionTable" where
  "contains TT_SIZE t k =
     (let index = slot TT_SIZE k;
          exists = (nodeType (entries t index) \<noteq> EMPTY);
          sameKey = (key (entries t index) = k)
      in (exists \<and> sameKey,
          if exists \<and> \<not> sameKey then t\<lparr>collisions := collisions t + 1\<rparr> else t))"

text \<open>\<open>write\<close> of the source (the name is reserved in Isabelle).\<close>

definition writeEntry :: "TranspositionTable \<Rightarrow> int \<Rightarrow> Entry \<Rightarrow> TranspositionTable" where
  "writeEntry t index entry = t\<lparr>entries := (entries t)(index := entry), writes := writes t + 1\<rparr>"

text \<open>The first statement of \<open>setEntry\<close>: scores beyond the mate threshold lose their distance.\<close>

definition normalise :: "Entry \<Rightarrow> int \<Rightarrow> Entry" where
  "normalise entry ply =
     (if abs32 (score entry) \<ge> sub32 MATE_SCORE (add32 (depth entry) ply)
      then entry\<lparr>score := mul32 (if score entry > 0 then 1 else - 1) MATE_SCORE\<rparr>
      else entry)"

definition setEntry :: "int \<Rightarrow> TranspositionTable \<Rightarrow> int \<Rightarrow> Entry \<Rightarrow> int \<Rightarrow> TranspositionTable" where
  "setEntry TT_SIZE t k entry0 ply =
     (let index = slot TT_SIZE k;
          entry = normalise entry0 ply;
          savedType = nodeType (entries t index);
          newType = nodeType entry
      in if savedType \<noteq> EMPTY then
           (if (savedType \<noteq> EXACT \<and> newType \<noteq> EXACT) \<or> (savedType = EXACT \<and> newType = EXACT)
            then (if depth (entries t index) \<le> depth entry then writeEntry t index entry else t)
            else if savedType \<noteq> EXACT then writeEntry t index entry
            else t)
         else writeEntry t index entry)"

definition resetCounters :: "TranspositionTable \<Rightarrow> TranspositionTable" where
  "resetCounters t = t\<lparr>reads := 0, writes := 0, collisions := 0\<rparr>"

text \<open>
  The replacement policy as the specification words it, in priority order: (a) an empty
  slot accepts; (b) an incoming EXACT entry replaces a stored bound; (c) a stored EXACT
  entry is kept against an incoming bound; (d) otherwise the incoming entry replaces the
  stored one when its depth is at least the stored depth.
\<close>

definition spec_replaces :: "Entry \<Rightarrow> Entry \<Rightarrow> bool" where
  "spec_replaces saved incoming =
     (if nodeType saved = EMPTY then True
      else if nodeType incoming = EXACT \<and> nodeType saved \<noteq> EXACT then True
      else if nodeType saved = EXACT \<and> nodeType incoming \<noteq> EXACT then False
      else depth incoming \<ge> depth saved)"

section \<open>The search (Search.cpp)\<close>

subsection \<open>The collaborators of the search\<close>

text \<open>
  The board, the move generator, the evaluator and the piece-value table are not part of
  the sources at hand.  The search touches them through the operations below, which are
  parameters of the model: \<open>'b\<close> is the type of boards, and each field stands for one
  member or function that \<open>Search.cpp\<close> uses.  \<open>hashCode\<close> is the position hash read as
  the signed 64-bit value that the table receives.  \<open>stopFlag\<close> gives the value of the
  cooperative \<open>stop\<close> flag at its n-th read: another thread sets the flag, so the
  search sees it change between two reads.  \<open>beyondPV\<close> is what a read of \<open>lastPV\<close>
  past its end yields.
\<close>

datatype Color = WHITE | BLACK

fun invertColor :: "Color \<Rightarrow> Color" where
  "invertColor WHITE = BLACK"
| "invertColor BLACK = WHITE"

record 'b Env =
  TT_SIZE :: int
  mg_value :: "int \<Rightarrow> int"
  PAWN :: int
  QUEEN :: int
  NULL_MOVE :: Move
  makeMove :: "'b \<Rightarrow> Move \<Rightarrow> 'b"
  unMakeMove :: "'b \<Rightarrow> 'b"
  hashCode :: "'b \<Rightarrow> int"
  sideToMove :: "'b \<Rightarrow> Color"
  halfMoveClock :: "'b \<Rightarrow> int"
  squares :: "'b \<Rightarrow> int \<Rightarrow> int"
  positionHistory :: "'b \<Rightarrow> int list"
  irreversibleIndices :: "'b \<Rightarrow> int list"
  pseudoLegalMoves :: "'b \<Rightarrow> Move list"
  tacticalMoves :: "'b \<Rightarrow> Move list"
  inCheck :: "'b \<Rightarrow> Color \<Rightarrow> bool"
  evaluate :: "'b \<Rightarrow> int"
  stopFlag :: "nat \<Rightarrow> bool"
  beyondPV :: "int \<Rightarrow> Move"

subsection \<open>The state of a search\<close>

text \<open>
  The members of \<open>Search\<close> that the recursion reads and writes, the shared board and the
  static table.  \<open>killerMoves ply\<close> is the pair \<open>killerMoves[ply][0], killerMoves[ply][1]\<close>;
  \<open>stopReads\<close> counts the reads of the stop flag so far.
\<close>

record 'b Search =
  board :: 'b
  tt :: TranspositionTable
  killerMoves :: "int \<Rightarrow> Move \<times> Move"
  killerMoveIndexOne :: bool
  history :: "Color \<Rightarrow> int \<Rightarrow> int \<Rightarrow> int"
  lastPV :: "Move list"
  stopReads :: nat

type_synonym ScoredMove = "Move \<times> int"

definition readStop :: "'b Env \<Rightarrow> 'b Search \<Rightarrow> bool \<times> 'b Search" where
  "readStop E s = (stopFlag E (stopReads s), s\<lparr>stopReads := Suc (stopReads s)\<rparr>)"

subsection \<open>Move ordering\<close>

text \<open>
  \<open>lastPV.size() - 1 <= ply\<close> is a comparison of unsigned 64-bit values: for an empty
  \<open>lastPV\<close> the left side is the largest of them.
\<close>

definition pvGuard :: "Move list \<Rightarrow> int \<Rightarrow> bool" where
  "pvGuard pv ply = ((int (length pv) - 1) mod 18446744073709551616 \<le> ply mod 18446744073709551616)"

definition lastPV_at :: "'b Env \<Rightarrow> Move list \<Rightarrow> int \<Rightarrow> Move" where
  "lastPV_at E pv ply = (if 0 \<le> ply \<and> ply < int (length pv) then pv ! nat ply else beyondPV E ply)"

text \<open>The body of the loop of \<open>scoreMoves\<close>: the priority of one move.\<close>

definition scoreMove :: "'b Env \<Rightarrow> 'b Search \<Rightarrow> int \<Rightarrow> Move \<Rightarrow> Move \<Rightarrow> int" where
  "scoreMove E s ply hashMove move =
     (if pvGuard (lastPV s) ply \<and> lastPV_at E (lastPV s) ply = move then shl32 1 31
      else if move = hashMove then shl32 1 30
      else if promotionType move \<noteq> 0
        then sub32 (mg_value E (promotionType move - 1)) (mg_value E 0)
      else if flag move = 0 \<or> flag move \<ge> 7 then
        (if move = fst (killerMoves s ply) \<or> move = snd (killerMoves s ply) then shl32 1 14
         else history s (sideToMove E (board s)) (start move) (end_sq move))
      else if flag move = 6 then shl32 1 16
      else
        (let agressor = mg_value E (squares E (board s) (start move) - 1);
             victim = mg_value E (flag move - 1);
             captureScore = add32 0 (sub32 victim agressor);
             captureScore = (if captureScore = 0 then 1 else captureScore);
             captureScore = (if captureScore > 0 then shl32 captureScore 16 else captureScore)
         in add32 0 captureScore))"

definition scoreMoves :: "'b Env \<Rightarrow> 'b Search \<Rightarrow> Move list \<Rightarrow> int \<Rightarrow> Move \<Rightarrow> ScoredMove list" where
  "scoreMoves E s moves ply hashMove = map (\<lambda>move. (move, scoreMove E s ply hashMove move)) moves"

definition scoreTacticalMoves :: "'b Env \<Rightarrow> 'b Search \<Rightarrow> Move list \<Rightarrow> Move \<Rightarrow> ScoredMove list" where
  "scoreTacticalMoves E s moves hashMove =
     map (\<lambda>move. (move,
            if move = hashMove then shl32 1 30
            else if promotionType move \<noteq> 0
              then sub32 (mg_value E (promotionType move - 1)) (mg_value E 0)
            else sub32 (mg_value E (flag move - 1)) (mg_value E (squares E (board s) (start move) - 1))))
         moves"

text \<open>
  \<open>selectMove\<close>: the first move of greatest score among \<open>moves[index..]\<close> is swapped
  to position \<open>index\<close> and returned.  It is only called with \<open>index < moves.size()\<close>.
\<close>

definition selectMove :: "ScoredMove list \<Rightarrow> nat \<Rightarrow> Move \<times> ScoredMove list" where
  "selectMove moves index =
     (let selectedIndex =
            fold (\<lambda>i sel. if snd (moves ! i) > snd (moves ! sel) then i else sel)
                 [Suc index ..< length moves] index;
          selected = moves ! selectedIndex;
          moves1 = moves[selectedIndex := moves ! index];
          moves2 = moves1[index := selected]
      in (fst selected, moves2))"

definition storeKillerMove :: "'b Env \<Rightarrow> 'b Search \<Rightarrow> Move \<Rightarrow> int \<Rightarrow> 'b Search" where
  "storeKillerMove E s move ply =
     (if (flag move = 0 \<or> flag move \<ge> 7) \<and> promotionType move = 0 then
        (if fst (killerMoves s ply) = move then s
         else if snd (killerMoves s ply) = move then s
         else if killerMoveIndexOne s \<or> fst (killerMoves s ply) = NULL_MOVE E
           then s\<lparr>killerMoves := (killerMoves s)(ply := (move, snd (killerMoves s ply))),
                  killerMoveIndexOne := False\<rparr>
           else s\<lparr>killerMoves := (killerMoves s)(ply := (fst (killerMoves s ply), move)),
                  killerMoveIndexOne := True\<rparr>)
      else s)"

subsection \<open>Probing the table\<close>

text \<open>
  \<open>getTransposition\<close> returns its result together with the reference parameters
  \<open>score\<close>, \<open>alpha\<close>, \<open>beta\<close> and \<open>hashMove\<close>, and the table with its counters.
\<close>

definition getTransposition ::
  "int \<Rightarrow> TranspositionTable \<Rightarrow> int \<Rightarrow> int \<Rightarrow> int \<Rightarrow> int \<Rightarrow> int \<Rightarrow> int \<Rightarrow> Move
   \<Rightarrow> bool \<times> int \<times> int \<times> int \<times> Move \<times> TranspositionTable" where
  "getTransposition N t hash dep ply sc alpha beta hashMove =
     (case contains N t hash of
        (False, t1) \<Rightarrow> (False, sc, alpha, beta, hashMove, t1)
      | (True, t1) \<Rightarrow>
          (case getEntry N t1 hash ply of (entry, t2) \<Rightarrow>
             if depth entry \<ge> dep then
               (case nodeType entry of
                  EXACT \<Rightarrow> (True, score entry, alpha, beta, hashMove, t2)
                | UPPERBOUND \<Rightarrow>
                    if score entry \<le> alpha then (True, score entry, alpha, beta, hashMove, t2)
                    else (False, sc, alpha, min beta (score entry), bestMove entry, t2)
                | LOWERBOUND \<Rightarrow>
                    if score entry \<ge> beta then (True, score entry, alpha, beta, hashMove, t2)
                    else (False, sc, max alpha (score entry), beta, bestMove entry, t2)
                | EMPTY \<Rightarrow> (False, sc, alpha, beta, hashMove, t2))
             else (False, sc, alpha, beta, hashMove, t2)))"

subsection \<open>Draw detection\<close>

text \<open>
  The loop of the threefold test: \<open>j\<close> runs down in steps of two while it is not negative
  and lies above the last irreversible index; it stops with a draw as soon as one entry
  of the history equals the current hash (\<open>repetitions\<close> starts at 1).
\<close>

function threefoldLoop :: "int list \<Rightarrow> int list \<Rightarrow> int \<Rightarrow> int \<Rightarrow> int \<Rightarrow> bool" where
  "threefoldLoop ph irr h j repetitions =
     (if j \<ge> 0 \<and> (irr = [] \<or> last irr < j) then
        (let repetitions = (if ph ! nat j = h then repetitions + 1 else repetitions)
         in if repetitions = 2 then True else threefoldLoop ph irr h (j - 2) repetitions)
      else False)"
  by pat_completeness auto
termination
  by (relation "measure (\<lambda>(ph, irr, h, j, r). nat (j + 1))") auto

text \<open>Lines 107 to 126: the pair \<open>(draw, threefold)\<close> for the board after the move.\<close>

definition drawCheck :: "'b Env \<Rightarrow> 'b \<Rightarrow> Move \<Rightarrow> bool \<times> bool" where
  "drawCheck E b move =
     (if halfMoveClock E b \<ge> 100
         \<and> \<not> (squares E b (start move) = PAWN E \<or> (flag move \<ge> 1 \<and> flag move \<le> 5))
      then (True, False)
      else if threefoldLoop (positionHistory E b) (irreversibleIndices E b) (hashCode E b)
                (int (length (positionHistory E b)) - 4) 1
        then (True, True)
        else (False, False))"

subsection \<open>The recursion\<close>

text \<open>
  What one pass through the body of a move loop does after the score of the move is
  known: it either returns from the function or goes on with the next move.
\<close>

datatype ('r, 'c) flow = Return 'r | Continue 'c

text \<open>
  The local variables of \<open>alphaBeta\<close> that change in its loop are carried as the tuple
  \<open>(alpha, nodeType, bestMove, bestScore, noStore)\<close>.  \<open>alphaBetaMove\<close> is lines 129 to
  153: undo the move, read the stop flag, handle the cutoff, update the best line.
\<close>

definition alphaBetaMove ::
  "'b Env \<Rightarrow> int \<Rightarrow> int \<Rightarrow> int \<Rightarrow> Move \<Rightarrow> bool \<Rightarrow> int
   \<Rightarrow> int \<times> NodeType \<times> Move \<times> int \<times> bool \<Rightarrow> 'b Search
   \<Rightarrow> (int \<times> 'b Search, (int \<times> NodeType \<times> Move \<times> int \<times> bool) \<times> 'b Search) flow" where
  "alphaBetaMove E dep beta ply move threefold sc locals s0 =
     (case locals of (alpha, nodeTy, bestMv, bestScore, noStore) \<Rightarrow>
      (let s1 = s0\<lparr>board := unMakeMove E (board s0)\<rparr> in
       case readStop E s1 of (stp, s2) \<Rightarrow>
         if stp then Return (0, s2)
         else if sc \<ge> beta then
           (let s3 = (if flag move = 0 \<or> flag move \<ge> 7
                      then (let k = storeKillerMove E s2 move ply;
                                side = sideToMove E (board k)
                            in k\<lparr>history := (history k)(side := (history k side)(start move :=
                                   (history k side (start move))(end_sq move :=
                                      add32 (history k side (start move) (end_sq move)) (mul32 dep dep))))\<rparr>)
                      else s2);
                s4 = (if \<not> threefold
                      then s3\<lparr>tt := setEntry (TT_SIZE E) (tt s3) (hashCode E (board s3))
                                  \<lparr>key = hashCode E (board s3), bestMove = move, depth = dep,
                                   score = sc, nodeType = LOWERBOUND\<rparr> ply\<rparr>
                      else s3)
            in Return (sc, s4))
         else if sc > alpha then Continue ((sc, EXACT, move, sc, noStore), s2)
         else if sc > bestScore then Continue ((alpha, nodeTy, move, sc, threefold), s2)
         else Continue ((alpha, nodeTy, bestMv, bestScore, noStore), s2)))"

text \<open>Lines 155 to 162: after the loop.\<close>

definition alphaBetaExit ::
  "'b Env \<Rightarrow> int \<Rightarrow> int \<Rightarrow> bool \<Rightarrow> int \<times> NodeType \<times> Move \<times> int \<times> bool \<Rightarrow> 'b Search
   \<Rightarrow> int \<times> 'b Search" where
  "alphaBetaExit E dep ply hasLegalMoves locals s =
     (case locals of (alpha, nodeTy, bestMv, bestScore, noStore) \<Rightarrow>
      if \<not> hasLegalMoves then
        (if inCheck E (board s) (sideToMove E (board s)) then (neg32 (sub32 MATE_SCORE ply), s)
         else (0, s))
      else (alpha,
            if \<not> noStore
            then s\<lparr>tt := setEntry (TT_SIZE E) (tt s) (hashCode E (board s))
                       \<lparr>key = hashCode E (board s), bestMove = bestMv, depth = dep,
                        score = bestScore, nodeType = nodeTy\<rparr> ply\<rparr>
            else s))"

text \<open>
  The loop of \<open>quiesce\<close> carries \<open>(alpha, nodeType, bestMove, bestScore)\<close>; \<open>quiesceMove\<close>
  is lines 196 to 212.
\<close>

definition quiesceMove ::
  "'b Env \<Rightarrow> int \<Rightarrow> int \<Rightarrow> int \<Rightarrow> Move \<Rightarrow> int
   \<Rightarrow> int \<times> NodeType \<times> Move \<times> int \<Rightarrow> 'b Search
   \<Rightarrow> (int \<times> 'b Search, (int \<times> NodeType \<times> Move \<times> int) \<times> 'b Search) flow" where
  "quiesceMove E dep beta ply move sc locals s0 =
     (case locals of (alpha, nodeTy, bestMv, bestScore) \<Rightarrow>
      (let s1 = s0\<lparr>board := unMakeMove E (board s0)\<rparr> in
       case readStop E s1 of (stp, s2) \<Rightarrow>
         if stp then Return (0, s2)
         else if sc \<ge> beta then
           Return (sc, s2\<lparr>tt := setEntry (TT_SIZE E) (tt s2) (hashCode E (board s2))
                                \<lparr>key = hashCode E (board s2), bestMove = move, depth = dep,
                                 score = sc, nodeType = LOWERBOUND\<rparr> ply\<rparr>)
         else if sc > alpha then Continue ((sc, EXACT, move, sc), s2)
         else if sc > bestScore then Continue ((alpha, nodeTy, move, sc), s2)
         else Continue ((alpha, nodeTy, bestMv, bestScore), s2)))"

definition quiesceExit ::
  "'b Env \<Rightarrow> int \<Rightarrow> int \<Rightarrow> int \<times> NodeType \<times> Move \<times> int \<Rightarrow> 'b Search \<Rightarrow> int \<times> 'b Search" where
  "quiesceExit E dep ply locals s =
     (case locals of (alpha, nodeTy, bestMv, bestScore) \<Rightarrow>
      (alpha, s\<lparr>tt := setEntry (TT_SIZE E) (tt s) (hashCode E (board s))
                   \<lparr>key = hashCode E (board s), bestMove = bestMv, depth = dep,
                    score = bestScore, nodeType = nodeTy\<rparr> ply\<rparr>))"

text \<open>
  \<open>alphaBeta\<close> and \<open>quiesce\<close> with their move loops.  The first argument after the
  environment is fuel: every call and every pass through a loop takes one unit, and
  \<open>None\<close> means that the fuel did not suffice.  \<open>quiesce\<close> recurses for as long as the
  generator yields tactical moves, so the source itself has no bound to offer.
\<close>

function (sequential) alphaBeta ::
    "'b Env \<Rightarrow> nat \<Rightarrow> int \<Rightarrow> int \<Rightarrow> int \<Rightarrow> int \<Rightarrow> 'b Search \<Rightarrow> (int \<times> 'b Search) option"
  and alphaBetaLoop ::
    "'b Env \<Rightarrow> nat \<Rightarrow> int \<Rightarrow> int \<Rightarrow> int \<Rightarrow> nat \<Rightarrow> ScoredMove list \<Rightarrow> bool
     \<Rightarrow> int \<times> NodeType \<times> Move \<times> int \<times> bool \<Rightarrow> 'b Search \<Rightarrow> (int \<times> 'b Search) option"
  and quiesce ::
    "'b Env \<Rightarrow> nat \<Rightarrow> int \<Rightarrow> int \<Rightarrow> int \<Rightarrow> int \<Rightarrow> 'b Search \<Rightarrow> (int \<times> 'b Search) option"
  and quiesceLoop ::
    "'b Env \<Rightarrow> nat \<Rightarrow> int \<Rightarrow> int \<Rightarrow> int \<Rightarrow> nat \<Rightarrow> ScoredMove list
     \<Rightarrow> int \<times> NodeType \<times> Move \<times> int \<Rightarrow> 'b Search \<Rightarrow> (int \<times> 'b Search) option"
where
  "alphaBeta E 0 dep alpha beta ply s = None"
| "alphaBeta E (Suc n) dep alpha beta ply s =
     (case readStop E s of (stp, s1) \<Rightarrow>
        if stp then Some (0, s1)
        else if dep = 0 then quiesce E n alpha beta ply 0 s1
        else
          (case getTransposition (TT_SIZE E) (tt s1) (hashCode E (board s1)) dep ply 0 alpha beta emptyMove of
             (hit, positionScore, alpha1, beta1, hashMove, t) \<Rightarrow>
               if hit then Some (positionScore, s1\<lparr>tt := t\<rparr>)
               else
                 (let s2 = s1\<lparr>tt := t\<rparr>;
                      alpha2 = max alpha1 (add32 (- MATE_SCORE) ply);
                      beta2 = min beta1 (sub32 MATE_SCORE ply)
                  in if alpha2 \<ge> beta2 then Some (alpha2, s2)
                     else alphaBetaLoop E n dep beta2 ply 0
                            (scoreMoves E s2 (pseudoLegalMoves E (board s2)) ply hashMove) False
                            (alpha2, UPPERBOUND, emptyMove, INT32_MIN, False) s2)))"
| "alphaBetaLoop E 0 dep beta ply i moves hasLegalMoves locals s = None"
| "alphaBetaLoop E (Suc n) dep beta ply i moves hasLegalMoves locals s =
     (if \<not> i < length moves then Some (alphaBetaExit E dep ply hasLegalMoves locals s)
      else
        (case selectMove moves i of (move, moves1) \<Rightarrow>
           (let s1 = s\<lparr>board := makeMove E (board s) move\<rparr> in
            if inCheck E (board s1) (invertColor (sideToMove E (board s1)))
            then alphaBetaLoop E n dep beta ply (Suc i) moves1 hasLegalMoves locals
                   (s1\<lparr>board := unMakeMove E (board s1)\<rparr>)
            else
              (case drawCheck E (board s1) move of (draw, threefold) \<Rightarrow>
                 (case (if draw then Some (0, s1)
                        else (case alphaBeta E n (sub32 dep 1) (neg32 beta) (neg32 (fst locals))
                                     (add32 ply 1) s1 of
                                None \<Rightarrow> None
                              | Some (v, s2) \<Rightarrow> Some (neg32 v, s2))) of
                    None \<Rightarrow> None
                  | Some (sc, s2) \<Rightarrow>
                      (case alphaBetaMove E dep beta ply move threefold sc locals s2 of
                         Return r \<Rightarrow> Some r
                       | Continue (locals1, s3) \<Rightarrow>
                           alphaBetaLoop E n dep beta ply (Suc i) moves1 True locals1 s3))))))"
| "quiesce E 0 alpha beta ply dep s = None"
| "quiesce E (Suc n) alpha beta ply dep s =
     (case readStop E s of (stp, s1) \<Rightarrow>
        if stp then Some (0, s1)
        else
          (let stand_pat = evaluate E (board s1) in
           if stand_pat \<ge> beta then Some (beta, s1)
           else
             (let alpha0 = (if alpha < stand_pat then stand_pat else alpha) in
              if add32 stand_pat (mg_value E (QUEEN E - 1)) < alpha0 then Some (alpha0, s1)
              else
                (case getTransposition (TT_SIZE E) (tt s1) (hashCode E (board s1)) dep ply 0 alpha0 beta emptyMove of
                   (hit, positionScore, alpha1, beta1, hashMove, t) \<Rightarrow>
                     if hit then Some (positionScore, s1\<lparr>tt := t\<rparr>)
                     else quiesceLoop E n dep beta1 ply 0
                            (scoreTacticalMoves E (s1\<lparr>tt := t\<rparr>) (tacticalMoves E (board s1)) hashMove)
                            (alpha1, UPPERBOUND, emptyMove, INT32_MIN) (s1\<lparr>tt := t\<rparr>)))))"
| "quiesceLoop E 0 dep beta ply i moves locals s = None"
| "quiesceLoop E (Suc n) dep beta ply i moves locals s =
     (if \<not> i < length moves then Some (quiesceExit E dep ply locals s)
      else
        (case selectMove moves i of (move, moves1) \<Rightarrow>
           (let s1 = s\<lparr>board := makeMove E (board s) move\<rparr> in
            if inCheck E (board s1) (invertColor (sideToMove E (board s1)))
            then quiesceLoop E n dep beta ply (Suc i) moves1 locals (s1\<lparr>board := unMakeMove E (board s1)\<rparr>)
            else
              (case quiesce E n (neg32 beta) (neg32 (fst locals)) (add32 ply 1) (sub32 dep 1) s1 of
                 None \<Rightarrow> None
               | Some (v, s2) \<Rightarrow>
                   (case quiesceMove E dep beta ply move (neg32 v) locals s2 of
                      Return r \<Rightarrow> Some r
                    | Continue (locals1, s3) \<Rightarrow>
                        quiesceLoop E n dep beta ply (Suc i) moves1 locals1 s3)))))"
  by pat_completeness auto
termination
  by (relation "measure (\<lambda>x. case x of
          Inl (Inl (E, n, r)) \<Rightarrow> n | Inl (Inr (E, n, r)) \<Rightarrow> n
        | Inr (Inl (E, n, r)) \<Rightarrow> n | Inr (Inr (E, n, r)) \<Rightarrow> n)")
     simp_all

subsection \<open>Exhaustive minimax, for comparison\<close>

text \<open>
  The reference that the specification compares the search with: the same game (the same
  legality test, draw rules, mate and stalemate scores, static evaluation below the
  horizon followed by the tactical moves), searched without window, table or move
  ordering.  \<open>minimaxQ\<close> is the exhaustive quiescence value, \<open>minimax\<close> the value and the
  first best move of a node; both take fuel like the search.
\<close>

definition legalMoves :: "'b Env \<Rightarrow> 'b \<Rightarrow> Move list \<Rightarrow> Move list" where
  "legalMoves E b ms =
     filter (\<lambda>m. \<not> inCheck E (makeMove E b m) (invertColor (sideToMove E (makeMove E b m)))) ms"

text \<open>The greatest value of a list of optional values; \<open>None\<close> when one of them is missing.\<close>

fun maxValues :: "int \<Rightarrow> int option list \<Rightarrow> int option" where
  "maxValues best [] = Some best"
| "maxValues best (None # vs) = None"
| "maxValues best (Some v # vs) = maxValues (max best v) vs"

fun minimaxQ :: "'b Env \<Rightarrow> nat \<Rightarrow> 'b \<Rightarrow> int option" where
  "minimaxQ E 0 b = None"
| "minimaxQ E (Suc n) b =
     maxValues (evaluate E b)
       (map (\<lambda>m. map_option uminus (minimaxQ E n (makeMove E b m)))
            (legalMoves E b (tacticalMoves E b)))"

text \<open>The first move of greatest value, with its value.\<close>

fun bestOf :: "(Move \<times> int) option \<Rightarrow> (Move \<times> int option) list \<Rightarrow> (Move \<times> int) option option" where
  "bestOf best [] = Some best"
| "bestOf best ((m, None) # vs) = None"
| "bestOf None ((m, Some v) # vs) = bestOf (Some (m, v)) vs"
| "bestOf (Some (bm, bv)) ((m, Some v) # vs) = bestOf (if v > bv then Some (m, v) else Some (bm, bv)) vs"

fun minimax :: "'b Env \<Rightarrow> nat \<Rightarrow> nat \<Rightarrow> int \<Rightarrow> 'b \<Rightarrow> (int \<times> Move option) option" where
  "minimax E fuel 0 ply b = map_option (\<lambda>v. (v, None)) (minimaxQ E fuel b)"
| "minimax E fuel (Suc d) ply b =
     (case bestOf None
             (map (\<lambda>m. (m, if fst (drawCheck E (makeMove E b m) m) then Some 0
                            else map_option (\<lambda>r. - fst r) (minimax E fuel d (ply + 1) (makeMove E b m))))
                  (legalMoves E b (pseudoLegalMoves E b))) of
        None \<Rightarrow> None
      | Some None \<Rightarrow> Some (if inCheck E b (sideToMove E b) then - (MATE_SCORE - ply) else 0, None)
      | Some (Some (m, v)) \<Rightarrow> Some (v, Some m))"

subsection \<open>Names for parts of the recursion\<close>

text \<open>
  Lines 83 to 162 of \<open>alphaBeta\<close>: what follows the probe of the table, for the window
  and the hint move that the probe leaves behind.
\<close>

definition alphaBetaExpand ::
  "'b Env \<Rightarrow> nat \<Rightarrow> int \<Rightarrow> int \<Rightarrow> int \<Rightarrow> int \<Rightarrow> Move \<Rightarrow> 'b Search \<Rightarrow> (int \<times> 'b Search) option" where
  "alphaBetaExpand E n dep alpha1 beta1 ply hashMove s2 =
     (let alpha2 = max alpha1 (add32 (- MATE_SCORE) ply);
          beta2 = min beta1 (sub32 MATE_SCORE ply)
      in if alpha2 \<ge> beta2 then Some (alpha2, s2)
         else alphaBetaLoop E n dep beta2 ply 0
                (scoreMoves E s2 (pseudoLegalMoves E (board s2)) ply hashMove) False
                (alpha2, UPPERBOUND, emptyMove, INT32_MIN, False) s2)"

text \<open>The read counter of the table of a search state.\<close>

definition rd :: "'b Search \<Rightarrow> int" where
  "rd s = reads (tt s)"

subsection \<open>Notions for the comparison with minimax\<close>

text \<open>
  A move is legal on a board when it does not leave the mover in check: the test of lines 100 and 191.
\<close>

definition legal :: "'b Env \<Rightarrow> 'b \<Rightarrow> Move \<Rightarrow> bool" where
  "legal E b m = (\<not> inCheck E (makeMove E b m) (invertColor (sideToMove E (makeMove E b m))))"

text \<open>
  The exhaustive value of a move at a node of the main search: 0 for a draw, else the negated value of the position after the move.
\<close>

definition mval :: "'b Env \<Rightarrow> nat \<Rightarrow> nat \<Rightarrow> int \<Rightarrow> 'b \<Rightarrow> Move \<Rightarrow> int option" where
  "mval E k d ply b m =
     (if fst (drawCheck E (makeMove E b m) m) then Some 0
      else map_option (\<lambda>r. - fst r) (minimax E k d (ply + 1) (makeMove E b m)))"

text \<open>
  The exhaustive value of a tactical move below the horizon.
\<close>

definition qval :: "'b Env \<Rightarrow> nat \<Rightarrow> 'b \<Rightarrow> Move \<Rightarrow> int option" where
  "qval E k b m = map_option uminus (minimaxQ E k (makeMove E b m))"

text \<open>
  The score of a node without legal moves: mate at this ply, or stalemate.
\<close>

definition terminal :: "'b Env \<Rightarrow> int \<Rightarrow> 'b \<Rightarrow> int" where
  "terminal E ply b = (if inCheck E b (sideToMove E b) then - (MATE_SCORE - ply) else 0)"

text \<open>
  How a returned score \<open>r\<close> relates to the exact value \<open>v\<close> for the window \<open>(a, b)\<close>: equal inside the window, and between the value and the violated bound outside.
\<close>

definition within :: "int \<Rightarrow> int \<Rightarrow> int \<Rightarrow> int \<Rightarrow> bool" where
  "within v a b r = ((v \<le> a \<longrightarrow> v \<le> r \<and> r \<le> a) \<and> (a < v \<and> v < b \<longrightarrow> r = v) \<and> (b \<le> v \<longrightarrow> b \<le> r \<and> r \<le> v))"

text \<open>
  The same for a move loop that has raised its \<open>alpha\<close> to \<open>a\<close>: a value at or below \<open>a\<close> returns \<open>a\<close>.
\<close>

definition loopRes :: "int \<Rightarrow> int \<Rightarrow> int \<Rightarrow> int \<Rightarrow> bool" where
  "loopRes V a b r = ((V \<le> a \<longrightarrow> r = a) \<and> (a < V \<and> V < b \<longrightarrow> r = V) \<and> (b \<le> V \<longrightarrow> b \<le> r \<and> r \<le> V))"

text \<open>
  A proper window whose bounds can be negated in 32 bits.
\<close>

definition okWin :: "int \<Rightarrow> int \<Rightarrow> bool" where
  "okWin a b = (a < b \<and> \<bar>a\<bar> \<le> 2147483647 \<and> \<bar>b\<bar> \<le> 2147483647)"

text \<open>
  The assumptions on the collaborators under which the search is compared with minimax: the stop flag stays clear, \<open>unMakeMove\<close> undoes \<open>makeMove\<close>, evaluations are bounded by \<open>K\<close> below the mate scores, and the queen value bounds what the exhaustive quiescence search gains over the static evaluation.
\<close>

definition fair :: "'b Env \<Rightarrow> int \<Rightarrow> bool" where
  "fair E K =
     ((\<forall>n. \<not> stopFlag E n)
      \<and> (\<forall>b m. unMakeMove E (makeMove E b m) = b)
      \<and> (\<forall>b. \<bar>evaluate E b\<bar> \<le> K)
      \<and> K < MATE_SCORE
      \<and> 0 \<le> mg_value E (QUEEN E - 1) \<and> mg_value E (QUEEN E - 1) \<le> 1073741824
      \<and> (\<forall>k b w. minimaxQ E k b = Some w \<longrightarrow> w \<le> evaluate E b + mg_value E (QUEEN E - 1)))"

subsection \<open>Searches that the table does not help\<close>

text \<open>
  A probe for the hash \<open>h\<close> with the requested depth \<open>dep\<close> finds a usable entry when
  \<open>contains\<close> succeeds and the stored depth is at least \<open>dep\<close>: the two tests of
  \<open>getTransposition\<close> (lines 338 and 340).  An entry that fails one of them changes
  nothing but the counters.
\<close>

definition usable :: "int \<Rightarrow> TranspositionTable \<Rightarrow> int \<Rightarrow> int \<Rightarrow> bool" where
  "usable N t h dep = (fst (contains N t h) \<and> depth (entries t (slot N h)) \<ge> dep)"

text \<open>
  \<open>alphaBetaUnaided E n \<dots> s\<close> says of the call \<open>alphaBeta E n \<dots> s\<close> that none of its
  probes, nor any probe of the calls below it, finds a usable entry; likewise for the
  other three functions.  The predicates follow the calls of the search: each one looks
  at the probe of its own call, if there is one, and at the calls that the search makes
  from there, in the states in which it makes them.  They say nothing about a call that
  runs out of fuel.
\<close>

function (sequential) alphaBetaUnaided ::
    "'b Env \<Rightarrow> nat \<Rightarrow> int \<Rightarrow> int \<Rightarrow> int \<Rightarrow> int \<Rightarrow> 'b Search \<Rightarrow> bool"
  and alphaBetaLoopUnaided ::
    "'b Env \<Rightarrow> nat \<Rightarrow> int \<Rightarrow> int \<Rightarrow> int \<Rightarrow> nat \<Rightarrow> ScoredMove list \<Rightarrow> bool
     \<Rightarrow> int \<times> NodeType \<times> Move \<times> int \<times> bool \<Rightarrow> 'b Search \<Rightarrow> bool"
  and quiesceUnaided ::
    "'b Env \<Rightarrow> nat \<Rightarrow> int \<Rightarrow> int \<Rightarrow> int \<Rightarrow> int \<Rightarrow> 'b Search \<Rightarrow> bool"
  and quiesceLoopUnaided ::
    "'b Env \<Rightarrow> nat \<Rightarrow> int \<Rightarrow> int \<Rightarrow> int \<Rightarrow> nat \<Rightarrow> ScoredMove list
     \<Rightarrow> int \<times> NodeType \<times> Move \<times> int \<Rightarrow> 'b Search \<Rightarrow> bool"
where
  "alphaBetaUnaided E 0 dep alpha beta ply s = True"
| "alphaBetaUnaided E (Suc n) dep alpha beta ply s =
     (case readStop E s of (stp, s1) \<Rightarrow>
        if stp then True
        else if dep = 0 then quiesceUnaided E n alpha beta ply 0 s1
        else
          \<not> usable (TT_SIZE E) (tt s1) (hashCode E (board s1)) dep
          \<and> (case getTransposition (TT_SIZE E) (tt s1) (hashCode E (board s1)) dep ply 0 alpha beta emptyMove of
               (hit, positionScore, alpha1, beta1, hashMove, t) \<Rightarrow>
                 (let s2 = s1\<lparr>tt := t\<rparr>;
                      alpha2 = max alpha1 (add32 (- MATE_SCORE) ply);
                      beta2 = min beta1 (sub32 MATE_SCORE ply)
                  in hit \<or> alpha2 \<ge> beta2
                     \<or> alphaBetaLoopUnaided E n dep beta2 ply 0
                          (scoreMoves E s2 (pseudoLegalMoves E (board s2)) ply hashMove) False
                          (alpha2, UPPERBOUND, emptyMove, INT32_MIN, False) s2)))"
| "alphaBetaLoopUnaided E 0 dep beta ply i moves hasLegalMoves locals s = True"
| "alphaBetaLoopUnaided E (Suc n) dep beta ply i moves hasLegalMoves locals s =
     (if \<not> i < length moves then True
      else
        (case selectMove moves i of (move, moves1) \<Rightarrow>
           (let s1 = s\<lparr>board := makeMove E (board s) move\<rparr> in
            if inCheck E (board s1) (invertColor (sideToMove E (board s1)))
            then alphaBetaLoopUnaided E n dep beta ply (Suc i) moves1 hasLegalMoves locals
                   (s1\<lparr>board := unMakeMove E (board s1)\<rparr>)
            else
              (case drawCheck E (board s1) move of (draw, threefold) \<Rightarrow>
                 (draw \<or> alphaBetaUnaided E n (sub32 dep 1) (neg32 beta) (neg32 (fst locals))
                            (add32 ply 1) s1)
                 \<and> (case (if draw then Some (0, s1)
                           else (case alphaBeta E n (sub32 dep 1) (neg32 beta) (neg32 (fst locals))
                                        (add32 ply 1) s1 of
                                   None \<Rightarrow> None
                                 | Some (v, s2) \<Rightarrow> Some (neg32 v, s2))) of
                       None \<Rightarrow> True
                     | Some (sc, s2) \<Rightarrow>
                         (case alphaBetaMove E dep beta ply move threefold sc locals s2 of
                            Return r \<Rightarrow> True
                          | Continue (locals1, s3) \<Rightarrow>
                              alphaBetaLoopUnaided E n dep beta ply (Suc i) moves1 True locals1 s3))))))"
| "quiesceUnaided E 0 alpha beta ply dep s = True"
| "quiesceUnaided E (Suc n) alpha beta ply dep s =
     (case readStop E s of (stp, s1) \<Rightarrow>
        if stp then True
        else
          (let stand_pat = evaluate E (board s1) in
           if stand_pat \<ge> beta then True
           else
             (let alpha0 = (if alpha < stand_pat then stand_pat else alpha) in
              if add32 stand_pat (mg_value E (QUEEN E - 1)) < alpha0 then True
              else
                \<not> usable (TT_SIZE E) (tt s1) (hashCode E (board s1)) dep
                \<and> (case getTransposition (TT_SIZE E) (tt s1) (hashCode E (board s1)) dep ply 0 alpha0 beta emptyMove of
                     (hit, positionScore, alpha1, beta1, hashMove, t) \<Rightarrow>
                       hit \<or> quiesceLoopUnaided E n dep beta1 ply 0
                               (scoreTacticalMoves E (s1\<lparr>tt := t\<rparr>) (tacticalMoves E (board s1)) hashMove)
                               (alpha1, UPPERBOUND, emptyMove, INT32_MIN) (s1\<lparr>tt := t\<rparr>)))))"
| "quiesceLoopUnaided E 0 dep beta ply i moves locals s = True"
| "quiesceLoopUnaided E (Suc n) dep beta ply i moves locals s =
     (if \<not> i < length moves then True
      else
        (case selectMove moves i of (move, moves1) \<Rightarrow>
           (let s1 = s\<lparr>board := makeMove E (board s) move\<rparr> in
            if inCheck E (board s1) (invertColor (sideToMove E (board s1)))
            then quiesceLoopUnaided E n dep beta ply (Suc i) moves1 locals (s1\<lparr>board := unMakeMove E (board s1)\<rparr>)
            else
              quiesceUnaided E n (neg32 beta) (neg32 (fst locals)) (add32 ply 1) (sub32 dep 1) s1
              \<and> (case quiesce E n (neg32 beta) (neg32 (fst locals)) (add32 ply 1) (sub32 dep 1) s1 of
                    None \<Rightarrow> True
                  | Some (v, s2) \<Rightarrow>
                      (case quiesceMove E dep beta ply move (neg32 v) locals s2 of
                         Return r \<Rightarrow> True
                       | Continue (locals1, s3) \<Rightarrow>
                           quiesceLoopUnaided E n dep beta ply (Suc i) moves1 locals1 s3)))))"
  by pat_completeness auto
termination
  by (relation "measure (\<lambda>x. case x of
          Inl (Inl (E, n, r)) \<Rightarrow> n | Inl (Inr (E, n, r)) \<Rightarrow> n
        | Inr (Inl (E, n, r)) \<Rightarrow> n | Inr (Inr (E, n, r)) \<Rightarrow> n)")
     simp_all

subsection \<open>What is proved by induction on the fuel\<close>

text \<open>
  The statements about \<open>quiesce\<close>, \<open>alphaBeta\<close> and their loops that are proved together
  by induction on the fuel, for calls that the table does not help.
\<close>

definition Qprop :: "'b Env \<Rightarrow> int \<Rightarrow> nat \<Rightarrow> bool" where
  "Qprop E K n =
     (\<forall>alpha beta ply dep s r s' k v.
        quiesce E n alpha beta ply dep s = Some (r, s') \<longrightarrow> quiesceUnaided E n alpha beta ply dep s
        \<longrightarrow> okWin alpha beta
        \<longrightarrow> minimaxQ E k (board s) = Some v \<longrightarrow> within v alpha beta r)"

definition QLprop :: "'b Env \<Rightarrow> int \<Rightarrow> nat \<Rightarrow> bool" where
  "QLprop E K n =
     (\<forall>dep beta ply i moves locals s r s' k val R.
        quiesceLoop E n dep beta ply i moves locals s = Some (r, s')
        \<longrightarrow> quiesceLoopUnaided E n dep beta ply i moves locals s
        \<longrightarrow> okWin (fst locals) beta
        \<longrightarrow> (\<forall>m \<in> fst ` set (drop i moves). legal E (board s) m \<longrightarrow> qval E k (board s) m = Some (val m))
        \<longrightarrow> R = {m \<in> fst ` set (drop i moves). legal E (board s) m}
        \<longrightarrow> (R = {} \<longrightarrow> r = fst locals) \<and> (R \<noteq> {} \<longrightarrow> loopRes (Max (val ` R)) (fst locals) beta r))"

definition ABprop :: "'b Env \<Rightarrow> int \<Rightarrow> nat \<Rightarrow> bool" where
  "ABprop E K n =
     (\<forall>dep alpha beta ply s r s' k v mv.
        alphaBeta E n dep alpha beta ply s = Some (r, s') \<longrightarrow> alphaBetaUnaided E n dep alpha beta ply s
        \<longrightarrow> okWin alpha beta
        \<longrightarrow> 0 \<le> dep \<longrightarrow> 0 \<le> ply \<longrightarrow> K + ply + dep < MATE_SCORE
        \<longrightarrow> minimax E k (nat dep) ply (board s) = Some (v, mv) \<longrightarrow> within v alpha beta r)"

definition ABLprop :: "'b Env \<Rightarrow> int \<Rightarrow> nat \<Rightarrow> bool" where
  "ABLprop E K n =
     (\<forall>dep beta ply i moves hl locals s r s' k val R.
        alphaBetaLoop E n dep beta ply i moves hl locals s = Some (r, s')
        \<longrightarrow> alphaBetaLoopUnaided E n dep beta ply i moves hl locals s
        \<longrightarrow> okWin (fst locals) beta
        \<longrightarrow> 0 < dep \<longrightarrow> 0 \<le> ply \<longrightarrow> K + ply + dep < MATE_SCORE
        \<longrightarrow> (\<forall>m \<in> fst ` set (drop i moves). legal E (board s) m
               \<longrightarrow> mval E k (nat (dep - 1)) ply (board s) m = Some (val m))
        \<longrightarrow> R = {m \<in> fst ` set (drop i moves). legal E (board s) m}
        \<longrightarrow> (R = {} \<longrightarrow> r = (if hl then fst locals else terminal E ply (board s)))
            \<and> (R \<noteq> {} \<longrightarrow> loopRes (Max (val ` R)) (fst locals) beta r))"

subsection \<open>Notions for the move that the search records\<close>

text \<open>
  Every entry of the table \<open>t'\<close> is the entry of \<open>t\<close> or has depth at most \<open>D\<close>: what a
  search of depth \<open>D\<close> does to the table.
\<close>

definition later :: "int \<Rightarrow> TranspositionTable \<Rightarrow> TranspositionTable \<Rightarrow> bool" where
  "later D t t' = (\<forall>i. entries t' i = entries t i \<or> depth (entries t' i) \<le> D)"

text \<open>
  The slot of the position \<open>b\<close> holds no EXACT entry deeper than \<open>dep\<close>, so that an EXACT
  entry of depth \<open>dep\<close> for \<open>b\<close> will be written.
\<close>

definition slotFree :: "'b Env \<Rightarrow> int \<Rightarrow> 'b \<Rightarrow> TranspositionTable \<Rightarrow> bool" where
  "slotFree E dep b t =
     (nodeType (entries t (slot (TT_SIZE E) (hashCode E b))) = EXACT
        \<longrightarrow> depth (entries t (slot (TT_SIZE E) (hashCode E b))) \<le> dep)"

text \<open>
  The legal moves among \<open>ms\<close> have the exhaustive values \<open>val\<close>, all below \<open>beta\<close>, and
  all above \<open>alpha\<close> as long as no legal move has been searched.
\<close>

definition rootVals ::
  "'b Env \<Rightarrow> nat \<Rightarrow> int \<Rightarrow> int \<Rightarrow> 'b \<Rightarrow> int \<Rightarrow> Move set \<Rightarrow> (Move \<Rightarrow> int) \<Rightarrow> bool \<Rightarrow> int \<Rightarrow> bool" where
  "rootVals E k dep ply b beta ms val hl alpha =
     (\<forall>m \<in> ms. legal E b m \<longrightarrow> mval E k (nat (dep - 1)) ply b m = Some (val m) \<and> val m < beta
                   \<and> (\<not> hl \<longrightarrow> alpha < val m))"

text \<open>
  The best line that the loop of \<open>alphaBeta\<close> carries once a legal move has been searched:
  an EXACT node whose move is a legal move of \<open>M\<close> with the exhaustive value \<open>alpha\<close>.
\<close>

definition tracked ::
  "'b Env \<Rightarrow> nat \<Rightarrow> int \<Rightarrow> int \<Rightarrow> 'b \<Rightarrow> Move set \<Rightarrow> bool \<Rightarrow> int \<times> NodeType \<times> Move \<times> int \<times> bool \<Rightarrow> bool" where
  "tracked E k dep ply b M hl locals =
     (case locals of (alpha, nodeTy, bestMv, bestScore, noStore) \<Rightarrow>
        \<not> noStore \<and> (hl \<longrightarrow> nodeTy = EXACT \<and> bestScore = alpha \<and> bestMv \<in> M \<and> legal E b bestMv
                            \<and> mval E k (nat (dep - 1)) ply b bestMv = Some alpha))"

text \<open>
  The table holds for the position \<open>b\<close> an EXACT entry of depth \<open>dep\<close> whose best move is a
  legal move of \<open>M\<close> with the exhaustive value \<open>r\<close>.
\<close>

definition recorded :: "'b Env \<Rightarrow> nat \<Rightarrow> int \<Rightarrow> int \<Rightarrow> 'b \<Rightarrow> Move set \<Rightarrow> int \<Rightarrow> TranspositionTable \<Rightarrow> bool" where
  "recorded E k dep ply b M r t =
     (let e = entries t (slot (TT_SIZE E) (hashCode E b))
      in key e = hashCode E b \<and> nodeType e = EXACT \<and> depth e = dep \<and> bestMove e \<in> M
         \<and> legal E b (bestMove e) \<and> mval E k (nat (dep - 1)) ply b (bestMove e) = Some r)"
section \<open>Concrete inputs\<close>

text \<open>An EXACT entry for key 7 with the given depth and score.\<close>

definition mateEntry :: "int \<Rightarrow> int \<Rightarrow> Entry" where
  "mateEntry d s = \<lparr>key = 7, bestMove = emptyMove, depth = d, score = s, nodeType = EXACT\<rparr>"


text \<open>
  Toy games.  A board is the stack of the positions visited, the current one on top;
  a move names its target position in \<open>end_sq\<close>; \<open>makeMove\<close> pushes and \<open>unMakeMove\<close>
  pops.  The piece values are the usual middle-game table, pawn to king.
\<close>

definition cur :: "nat list \<Rightarrow> nat" where
  "cur b = (case b of [] \<Rightarrow> 0 | p # _ \<Rightarrow> p)"

definition toyValues :: "int \<Rightarrow> int" where
  "toyValues i = (if i = 0 then 82 else if i = 1 then 337 else if i = 2 then 365
                  else if i = 3 then 477 else if i = 4 then 1025 else 0)"

definition toyGame :: "(nat \<Rightarrow> (nat \<times> int) list) \<Rightarrow> (nat \<Rightarrow> int) \<Rightarrow> nat list Env" where
  "toyGame succs ev =
     \<lparr>TT_SIZE = 1024, mg_value = toyValues, PAWN = 1, QUEEN = 5, NULL_MOVE = emptyMove,
      makeMove = (\<lambda>b m. nat (end_sq m) # b),
      unMakeMove = tl,
      hashCode = (\<lambda>b. int (cur b)),
      sideToMove = (\<lambda>b. if even (length b) then BLACK else WHITE),
      halfMoveClock = (\<lambda>b. 0),
      squares = (\<lambda>b sq. 2),
      positionHistory = (\<lambda>b. map int (rev (tl b))),
      irreversibleIndices = (\<lambda>b. []),
      pseudoLegalMoves = (\<lambda>b. map (\<lambda>(t, f). \<lparr>start = int (cur b), end_sq = int t, flag = f, promotionType = 0\<rparr>)
                                   (succs (cur b))),
      tacticalMoves = (\<lambda>b. []),
      inCheck = (\<lambda>b c. False),
      evaluate = (\<lambda>b. ev (cur b)),
      stopFlag = (\<lambda>n. False),
      beyondPV = (\<lambda>p. emptyMove)\<rparr>"

definition freshSearch :: "'b \<Rightarrow> 'b Search" where
  "freshSearch b =
     \<lparr>board = b, tt = emptyTable, killerMoves = (\<lambda>ply. (emptyMove, emptyMove)),
      killerMoveIndexOne = False, history = (\<lambda>side from to. 0), lastPV = [], stopReads = 0\<rparr>"

text \<open>
  Two move orders lead to the same quiet position 3: from the root 0 over 1 or over 2.
  Position 3 is worth 10 to the side to move there.
\<close>

definition transpositionGame :: "nat list Env" where
  "transpositionGame =
     toyGame (\<lambda>p. if p = 0 then [(1, 0), (2, 0)] else if p = 1 then [(3, 0)] else if p = 2 then [(3, 0)] else [])
             (\<lambda>p. if p = 3 then 10 else 0)"


text \<open>The same game with the half-move clock at 100 on every board.\<close>

definition fiftyGame :: "nat list Env" where
  "fiftyGame = transpositionGame\<lparr>halfMoveClock := (\<lambda>b. 100)\<rparr>"

text \<open>
  Four positions in a cycle, 0 to 1 to 2 to 3 and back to 0, all worth 0.  On the board
  \<open>[3, 2, 1, 0]\<close> the only move leads back to position 0, which the line has seen four
  plies earlier.
\<close>

definition repetitionGame :: "nat list Env" where
  "repetitionGame = toyGame (\<lambda>p. [((p + 1) mod 4, 0)]) (\<lambda>p. 0)"

text \<open>A table that holds an EXACT entry of depth 5 and score 42 for the position 0.\<close>

definition probeTable :: TranspositionTable where
  "probeTable = setEntry 1024 emptyTable 0
      \<lparr>key = 0, bestMove = emptyMove, depth = 5, score = 42, nodeType = EXACT\<rparr> 0"

text \<open>A knight takes a pawn (\<open>flag = 1\<close>), and a quiet move.\<close>

definition knightTakesPawn :: Move where
  "knightTakesPawn = \<lparr>start = 3, end_sq = 4, flag = 1, promotionType = 0\<rparr>"

definition quietMove :: Move where
  "quietMove = \<lparr>start = 1, end_sq = 2, flag = 0, promotionType = 0\<rparr>"

text \<open>The two moves of the root position 0 of the transposition game, both with priority 0.\<close>

definition rootMoves :: "ScoredMove list" where
  "rootMoves = [(\<lparr>start = 0, end_sq = 1, flag = 0, promotionType = 0\<rparr>, 0),
                (\<lparr>start = 0, end_sq = 2, flag = 0, promotionType = 0\<rparr>, 0)]"

text \<open>The transposition game with the stop flag set from its fourth read on.\<close>

definition cancelGame :: "nat list Env" where
  "cancelGame = transpositionGame\<lparr>stopFlag := (\<lambda>n. 3 \<le> n)\<rparr>"

text \<open>
  The transposition game with a capture on the root: the pawn on position 3 can be taken
  at once.  No other position has a tactical move.
\<close>

definition captureGame :: "nat list Env" where
  "captureGame = transpositionGame\<lparr>tacticalMoves :=
     (\<lambda>b. if cur b = 0 then [\<lparr>start = 0, end_sq = 3, flag = 1, promotionType = 0\<rparr>] else [])\<rparr>"

text \<open>
  A tree without transpositions: the root 0 leads to 1 and 2, position 1 to the leaves 3
  and 4, position 2 to the leaves 5 and 6.  On leaf 3 a pawn can be taken, which leads
  to position 7.  Leaf 5 is bad for the side to move, by more than a queen.
\<close>

definition treeGame :: "nat list Env" where
  "treeGame =
     (toyGame (\<lambda>p. if p = 0 then [(1, 0), (2, 0)] else if p = 1 then [(3, 0), (4, 0)]
                   else if p = 2 then [(5, 0), (6, 0)] else if p = 3 then [(7, 1)] else [])
              (\<lambda>p. if p = 3 then 10 else if p = 4 then 50 else if p = 5 then - 1100
                   else if p = 7 then - 30 else 0))
     \<lparr>tacticalMoves :=
        (\<lambda>b. if cur b = 3 then [\<lparr>start = 3, end_sq = 7, flag = 1, promotionType = 0\<rparr>] else [])\<rparr>"

text \<open>The state that a search of depth 1 of the tree game leaves behind, table included.\<close>

definition deepened :: "nat list Search" where
  "deepened = (case alphaBeta treeGame 50 1 (INT32_MIN + 1) INT32_MAX 0 (freshSearch [0]) of
                 Some (v, s) \<Rightarrow> s | None \<Rightarrow> freshSearch [0])"

text \<open>
  The root 0 leads to 1 and 2, position 1 to the leaf 3 and position 2 to the leaf 5.
  Leaf 3 is worth 100 and leaf 5 is worth \<open>- 1000\<close> to the side to move, but on leaf 5 a
  capture leads to position 6, which wins 1200: more than the value of a queen.
\<close>

definition deltaGame :: "nat list Env" where
  "deltaGame =
     (toyGame (\<lambda>p. if p = 0 then [(1, 0), (2, 0)] else if p = 1 then [(3, 0)]
                   else if p = 2 then [(5, 0)] else if p = 5 then [(6, 1)] else [])
              (\<lambda>p. if p = 3 then 100 else if p = 5 then - 1000 else if p = 6 then - 200 else 0))
     \<lparr>tacticalMoves :=
        (\<lambda>b. if cur b = 5 then [\<lparr>start = 5, end_sq = 6, flag = 1, promotionType = 0\<rparr>] else [])\<rparr>"

text \<open>
  Position 1 is reached from the root 0 directly and again over 4 and 5, two plies deeper.
  Below position 1 lie 2 and 3.  Position 1 is worth \<open>- 40\<close> statically and position 3 is
  worth 30, each to the side to move there.
\<close>

definition depthGame :: "nat list Env" where
  "depthGame =
     toyGame (\<lambda>p. if p = 0 then [(1, 0), (4, 0)] else if p = 1 then [(2, 0)]
                  else if p = 2 then [(3, 0)] else if p = 4 then [(5, 0)]
                  else if p = 5 then [(1, 0)] else [])
             (\<lambda>p. if p = 1 then - 40 else if p = 3 then 30 else 0)"

text \<open>
  The root 0 has a quiet move to position 1 and the capture of a rook (\<open>flag = 4\<close>) that
  leads to position 2; every position is worth 0.
\<close>

definition tieGame :: "nat list Env" where
  "tieGame = toyGame (\<lambda>p. if p = 0 then [(1, 0), (2, 4)] else []) (\<lambda>p. 0)"
section \<open>Arithmetic facts\<close>

lemma wrap32_id: "- 2147483648 \<le> x \<Longrightarrow> x < 2147483648 \<Longrightarrow> wrap32 x = x"
  by (simp add: wrap32_def)

lemma wrap32_range: "- 2147483648 \<le> wrap32 x \<and> wrap32 x < 2147483648"
proof -
  have "0 \<le> (x + 2147483648) mod 4294967296" "(x + 2147483648) mod 4294967296 < 4294967296"
    by simp_all
  then show ?thesis unfolding wrap32_def by linarith
qed

lemma wrap32_sub_wrap32: "wrap32 (a - wrap32 b) = wrap32 (a - b)"
proof -
  have "(a - ((b + 2147483648) mod 4294967296 - 2147483648) + 2147483648) mod 4294967296
        = (a + 4294967296 - (b + 2147483648) mod 4294967296) mod 4294967296"
    by (simp add: algebra_simps)
  also have "\<dots> = (a + 4294967296 - (b + 2147483648)) mod 4294967296"
    by (rule mod_diff_right_eq)
  also have "\<dots> = (a - b + 2147483648) mod 4294967296"
    by (simp add: algebra_simps)
  finally show ?thesis by (simp add: wrap32_def)
qed

lemma wrap64_id: "- 9223372036854775808 \<le> x \<Longrightarrow> x < 9223372036854775808 \<Longrightarrow> wrap64 x = x"
  by (simp add: wrap64_def)

section \<open>Properties of the transposition table\<close>

lemma slot_abs_mod: "0 < N \<Longrightarrow> \<bar>k\<bar> < 9223372036854775808 \<Longrightarrow> slot N k = \<bar>k\<bar> mod N"
  by (simp add: slot_def crem_def wrap64_id)

lemma sub32_mate: "0 \<le> p \<Longrightarrow> p < 2147483648 \<Longrightarrow> sub32 MATE_SCORE p = MATE_SCORE - p"
  by (simp add: sub32_def MATE_SCORE_def wrap32_id)

lemma normalise_mate:
  assumes "0 \<le> p1" "p1 < MATE_SCORE" "0 \<le> depth e" "depth e < 2147483648"
    and "sg = 1 \<or> sg = - 1" "score e = sg * (MATE_SCORE - p1)"
  shows "score (normalise e p1) = sg * MATE_SCORE"
proof -
  have abs: "abs32 (score e) = MATE_SCORE - p1"
    using assms by (auto simp: abs32_def MATE_SCORE_def wrap32_id)
  have "sub32 MATE_SCORE (add32 (depth e) p1) = wrap32 (MATE_SCORE - (depth e + p1))"
    by (simp add: sub32_def add32_def wrap32_sub_wrap32)
  also have "\<dots> = MATE_SCORE - (depth e + p1)"
    using assms by (intro wrap32_id) (simp_all add: MATE_SCORE_def)
  finally have thr: "sub32 MATE_SCORE (add32 (depth e) p1) \<le> abs32 (score e)"
    using abs assms by simp
  have sgn: "(if score e > 0 then 1 else - 1) = sg"
    using assms by (auto simp: MATE_SCORE_def)
  show ?thesis
    using thr sgn assms(5) by (auto simp: normalise_def mul32_def MATE_SCORE_def wrap32_id)
qed

text \<open>
  Claim C2, as the code has it.  An entry whose score is a mate score at root distance
  \<open>p1\<close> (sign \<open>sg\<close>, magnitude \<open>MATE_SCORE - p1\<close>, with \<open>0 \<le> p1 < MATE_SCORE\<close>) and
  whose depth is not negative is normalised by \<open>setEntry\<close>; when the slot takes the
  entry (the write counter advances), \<open>getEntry\<close> at ply \<open>p2\<close> with
  \<open>0 \<le> p2 < MATE_SCORE\<close> returns the score \<open>sg * (MATE_SCORE - p2)\<close>: magnitude
  \<open>MATE_SCORE - p2\<close>, original sign.
\<close>

theorem mate_distance_round_trip:
  assumes "0 \<le> p1" "p1 < MATE_SCORE" "0 \<le> depth e" "depth e < 2147483648"
    and "sg = 1 \<or> sg = - 1" "score e = sg * (MATE_SCORE - p1)"
    and "0 \<le> p2" "p2 < MATE_SCORE"
    and "writes (setEntry N t k e p1) = writes t + 1"
  shows "score (fst (getEntry N (setEntry N t k e p1) k p2)) = sg * (MATE_SCORE - p2)
       \<and> \<bar>score (fst (getEntry N (setEntry N t k e p1) k p2))\<bar> = MATE_SCORE - p2
       \<and> (score (fst (getEntry N (setEntry N t k e p1) k p2)) > 0 \<longleftrightarrow> score e > 0)"
proof -
  have stored: "entries (setEntry N t k e p1) (slot N k) = normalise e p1"
    using assms(9) by (auto simp: setEntry_def writeEntry_def Let_def split: if_splits)
  have sc: "score (normalise e p1) = sg * MATE_SCORE"
    using assms(1-6) by (rule normalise_mate)
  have a: "abs32 (sg * MATE_SCORE) = MATE_SCORE"
    using assms(5) by (auto simp: abs32_def MATE_SCORE_def wrap32_id)
  have b: "(if sg * MATE_SCORE > 0 then 1 else - 1) = sg"
    using assms(5) by (auto simp: MATE_SCORE_def)
  have c: "mul32 sg (sub32 MATE_SCORE p2) = sg * (MATE_SCORE - p2)"
    using assms(5,7,8) by (auto simp: mul32_def sub32_def MATE_SCORE_def wrap32_id)
  have "score (fst (getEntry N (setEntry N t k e p1) k p2)) = sg * (MATE_SCORE - p2)"
    by (simp add: getEntry_def Let_def stored sc a b c)
  then show ?thesis
    using assms(1,2,5,6,7,8) by (auto simp: MATE_SCORE_def)
qed

text \<open>The round trip at a concrete input: stored at ply 3 with depth 2, read at ply 5.\<close>

theorem mate_distance_round_trip_witness:
  "score (fst (getEntry 1024 (setEntry 1024 emptyTable 7 (mateEntry 2 (- 65533)) 3) 7 5)) = - 65531"
proof -
  have w: "writes (setEntry 1024 emptyTable 7 (mateEntry 2 (- 65533)) 3) = writes emptyTable + 1"
    by (simp add: setEntry_def writeEntry_def emptyTable_def emptyEntry_def Let_def)
  show ?thesis
    using mate_distance_round_trip [of 3 "mateEntry 2 (- 65533)" "- 1" 5 1024 emptyTable 7] w
    by (simp add: mateEntry_def MATE_SCORE_def)
qed

text \<open>
  Claim C2 as stated fails for the entries that the quiescence search stores: their
  depth is negative, the threshold \<open>MATE_SCORE - (depth + ply)\<close> then lies above the
  score, and the score keeps the distance of the storing ply.
\<close>

theorem mate_distance_round_trip_counterexample:
  "\<bar>score (fst (getEntry 1024 (setEntry 1024 emptyTable 7 (mateEntry (- 1) (MATE_SCORE - 3)) 3) 7 5))\<bar>
     \<noteq> MATE_SCORE - 5"
  by (simp add: getEntry_def setEntry_def normalise_def writeEntry_def emptyTable_def emptyEntry_def
      mateEntry_def Let_def slot_def crem_def wrap64_def abs32_def sub32_def add32_def wrap32_def MATE_SCORE_def)

text \<open>
  Claim C10.  For a table of \<open>N > 0\<close> slots and a key whose absolute value is
  representable, the index that \<open>getEntry\<close>, \<open>contains\<close> and \<open>setEntry\<close> compute is
  \<open>\<bar>key\<bar> mod N\<close>.  \<open>getEntry\<close> returns the entry of that slot whatever key the entry
  carries (only a mate score is rewritten for the reader's ply) and always adds one to
  the read counter.  The key comparison and the collision counter belong to \<open>contains\<close>
  alone, which leaves the read counter as it is.  So when an entry has been stored under
  another key \<open>k'\<close> with \<open>\<bar>k'\<bar> mod N = \<bar>k\<bar> mod N\<close>, \<open>getEntry\<close> for \<open>k\<close> hands out that
  other position's entry, although \<open>contains\<close> answers no.
\<close>

theorem getEntry_ignores_key:
  assumes "0 < N" and "\<bar>k\<bar> < 9223372036854775808"
  shows "slot N k = \<bar>k\<bar> mod N
   \<and> fst (getEntry N t k ply)
       = (if abs32 (score (entries t (\<bar>k\<bar> mod N))) = MATE_SCORE
          then (entries t (\<bar>k\<bar> mod N))
                 \<lparr>score := mul32 (if score (entries t (\<bar>k\<bar> mod N)) > 0 then 1 else - 1)
                                 (sub32 MATE_SCORE ply)\<rparr>
          else entries t (\<bar>k\<bar> mod N))
   \<and> key (fst (getEntry N t k ply)) = key (entries t (\<bar>k\<bar> mod N))
   \<and> nodeType (fst (getEntry N t k ply)) = nodeType (entries t (\<bar>k\<bar> mod N))
   \<and> depth (fst (getEntry N t k ply)) = depth (entries t (\<bar>k\<bar> mod N))
   \<and> bestMove (fst (getEntry N t k ply)) = bestMove (entries t (\<bar>k\<bar> mod N))
   \<and> snd (getEntry N t k ply) = t\<lparr>reads := reads t + 1\<rparr>
   \<and> fst (contains N t k)
       = (nodeType (entries t (\<bar>k\<bar> mod N)) \<noteq> EMPTY \<and> key (entries t (\<bar>k\<bar> mod N)) = k)
   \<and> snd (contains N t k)
       = (if nodeType (entries t (\<bar>k\<bar> mod N)) \<noteq> EMPTY \<and> key (entries t (\<bar>k\<bar> mod N)) \<noteq> k
          then t\<lparr>collisions := collisions t + 1\<rparr> else t)
   \<and> (\<bar>k'\<bar> < 9223372036854775808 \<and> \<bar>k'\<bar> mod N = \<bar>k\<bar> mod N \<and> k' \<noteq> k
        \<and> nodeType (entries t (\<bar>k\<bar> mod N)) = EMPTY \<and> nodeType e \<noteq> EMPTY \<and> key e = k'
      \<longrightarrow> entries (setEntry N t k' e p) (\<bar>k\<bar> mod N) = normalise e p
          \<and> key (fst (getEntry N (setEntry N t k' e p) k ply)) = k'
          \<and> \<not> fst (contains N (setEntry N t k' e p) k))"
proof -
  have sl: "slot N k = \<bar>k\<bar> mod N"
    by (rule slot_abs_mod [OF assms])
  have other: "entries (setEntry N t k' e p) (\<bar>k\<bar> mod N) = normalise e p
          \<and> key (fst (getEntry N (setEntry N t k' e p) k ply)) = k'
          \<and> \<not> fst (contains N (setEntry N t k' e p) k)"
    if h: "\<bar>k'\<bar> < 9223372036854775808" "\<bar>k'\<bar> mod N = \<bar>k\<bar> mod N" "k' \<noteq> k"
      "nodeType (entries t (\<bar>k\<bar> mod N)) = EMPTY" "nodeType e \<noteq> EMPTY" "key e = k'"
  proof -
    have s': "slot N k' = \<bar>k\<bar> mod N"
      using slot_abs_mod [OF assms(1) h(1)] h(2) by simp
    have w: "entries (setEntry N t k' e p) (\<bar>k\<bar> mod N) = normalise e p"
      using h(4) by (simp add: setEntry_def s' writeEntry_def Let_def)
    have kn: "key (normalise e p) = k'" "nodeType (normalise e p) \<noteq> EMPTY"
      using h(5,6) by (simp_all add: normalise_def)
    show ?thesis
      using w kn h(3) by (simp add: getEntry_def contains_def Let_def sl)
  qed
  then have oth: "\<bar>k'\<bar> < 9223372036854775808 \<and> \<bar>k'\<bar> mod N = \<bar>k\<bar> mod N \<and> k' \<noteq> k
        \<and> nodeType (entries t (\<bar>k\<bar> mod N)) = EMPTY \<and> nodeType e \<noteq> EMPTY \<and> key e = k'
      \<longrightarrow> entries (setEntry N t k' e p) (\<bar>k\<bar> mod N) = normalise e p
          \<and> key (fst (getEntry N (setEntry N t k' e p) k ply)) = k'
          \<and> \<not> fst (contains N (setEntry N t k' e p) k)"
    by blast
  show ?thesis
    by (intro conjI oth) (simp_all add: getEntry_def contains_def Let_def sl)
qed

text \<open>
  Keys 5 and 1029 share slot 5 of a table with 1024 slots: after an entry has been stored
  under 1029, \<open>getEntry\<close> for key 5 returns it and counts a read, and \<open>contains\<close> for key
  5 answers no and counts a collision.
\<close>

theorem getEntry_ignores_key_witness:
  "slot 1024 5 = 5
   \<and> fst (getEntry 1024 (setEntry 1024 emptyTable 1029 (mateEntry 2 40\<lparr>key := 1029\<rparr>) 0) 5 0)
       = mateEntry 2 40\<lparr>key := 1029\<rparr>
   \<and> reads (snd (getEntry 1024 (setEntry 1024 emptyTable 1029 (mateEntry 2 40\<lparr>key := 1029\<rparr>) 0) 5 0)) = 1
   \<and> \<not> fst (contains 1024 (setEntry 1024 emptyTable 1029 (mateEntry 2 40\<lparr>key := 1029\<rparr>) 0) 5)
   \<and> collisions (snd (contains 1024 (setEntry 1024 emptyTable 1029 (mateEntry 2 40\<lparr>key := 1029\<rparr>) 0) 5)) = 1"
proof -
  let ?e = "mateEntry 2 40\<lparr>key := 1029\<rparr>"
  let ?t = "setEntry 1024 emptyTable 1029 ?e 0"
  have a: "(0::int) < 1024" "\<bar>5::int\<bar> < 9223372036854775808"
    by simp_all
  have b: "\<bar>1029::int\<bar> < 9223372036854775808 \<and> \<bar>1029::int\<bar> mod 1024 = \<bar>5\<bar> mod 1024 \<and> (1029::int) \<noteq> 5
        \<and> nodeType (entries emptyTable (\<bar>5\<bar> mod 1024)) = EMPTY \<and> nodeType ?e \<noteq> EMPTY \<and> key ?e = 1029"
    by (simp add: emptyTable_def emptyEntry_def mateEntry_def)
  have n: "normalise ?e 0 = ?e"
    by (simp add: normalise_def mateEntry_def abs32_def sub32_def add32_def wrap32_def MATE_SCORE_def)
  have sc: "abs32 (score ?e) \<noteq> MATE_SCORE"
    by (simp add: mateEntry_def abs32_def wrap32_def MATE_SCORE_def)
  have st: "entries ?t 5 = ?e"
    using getEntry_ignores_key [OF a, where k' = 1029 and t = emptyTable and e = ?e and p = 0 and ply = 0] b n
    by simp
  have rest: "reads ?t = 0" "collisions ?t = 0"
    by (simp_all add: setEntry_def writeEntry_def Let_def emptyTable_def)
  show ?thesis
    using getEntry_ignores_key [OF a, where t = ?t and ply = 0] st sc rest
    by (simp add: mateEntry_def)
qed


text \<open>
  Claim C3.  \<open>setEntry\<close> follows the replacement policy of the specification.  When the
  policy lets the incoming entry in, the slot of the key holds the incoming entry
  afterwards (key, move, depth and node type as given, the score normalised), the write
  counter has gone up by one and nothing else has changed; otherwise the table is left
  as it was.  The slot of a key is \<open>\<bar>key\<bar> mod N\<close>.  The policy is \<open>spec_replaces\<close>, spelled out case by case in the second
  half: an empty slot accepts; EXACT replaces a bound; a bound never replaces EXACT;
  among two EXACT entries or two bounds the incoming one wins exactly when its depth is
  at least the stored depth.
\<close>

theorem setEntry_replacement_policy:
  "setEntry N t k entry ply =
     (if spec_replaces (entries t (slot N k)) entry
      then t\<lparr>entries := (entries t)(slot N k := normalise entry ply), writes := writes t + 1\<rparr>
      else t)
   \<and> key (normalise entry ply) = key entry \<and> bestMove (normalise entry ply) = bestMove entry
   \<and> depth (normalise entry ply) = depth entry \<and> nodeType (normalise entry ply) = nodeType entry
   \<and> (spec_replaces (entries t (slot N k)) entry
        \<longrightarrow> entries (setEntry N t k entry ply) (slot N k) = normalise entry ply
          \<and> writes (setEntry N t k entry ply) = writes t + 1)
   \<and> (i \<noteq> slot N k \<longrightarrow> entries (setEntry N t k entry ply) i = entries t i)
   \<and> (nodeType (entries t (slot N k)) = EMPTY \<longrightarrow> spec_replaces (entries t (slot N k)) entry)
   \<and> (nodeType (entries t (slot N k)) \<notin> {EMPTY, EXACT} \<and> nodeType entry = EXACT
        \<longrightarrow> spec_replaces (entries t (slot N k)) entry)
   \<and> (nodeType (entries t (slot N k)) = EXACT \<and> nodeType entry \<noteq> EXACT
        \<longrightarrow> \<not> spec_replaces (entries t (slot N k)) entry)
   \<and> (nodeType (entries t (slot N k)) \<noteq> EMPTY
        \<and> (nodeType (entries t (slot N k)) = EXACT) = (nodeType entry = EXACT)
        \<longrightarrow> spec_replaces (entries t (slot N k)) entry
            = (depth (entries t (slot N k)) \<le> depth entry))
   \<and> (0 < N \<and> \<bar>k\<bar> < 9223372036854775808 \<longrightarrow> slot N k = \<bar>k\<bar> mod N)"
proof -
  have nt: "nodeType (normalise entry ply) = nodeType entry"
    and dp: "depth (normalise entry ply) = depth entry"
    and kb: "key (normalise entry ply) = key entry" "bestMove (normalise entry ply) = bestMove entry"
    by (simp_all add: normalise_def)
  have eq: "setEntry N t k entry ply =
     (if spec_replaces (entries t (slot N k)) entry
      then t\<lparr>entries := (entries t)(slot N k := normalise entry ply), writes := writes t + 1\<rparr>
      else t)"
    unfolding setEntry_def spec_replaces_def writeEntry_def Let_def nt dp
    by (cases "nodeType (entries t (slot N k))"; cases "nodeType entry"; simp)
  have pol: "(nodeType (entries t (slot N k)) = EMPTY \<longrightarrow> spec_replaces (entries t (slot N k)) entry)
   \<and> (nodeType (entries t (slot N k)) \<notin> {EMPTY, EXACT} \<and> nodeType entry = EXACT
        \<longrightarrow> spec_replaces (entries t (slot N k)) entry)
   \<and> (nodeType (entries t (slot N k)) = EXACT \<and> nodeType entry \<noteq> EXACT
        \<longrightarrow> \<not> spec_replaces (entries t (slot N k)) entry)
   \<and> (nodeType (entries t (slot N k)) \<noteq> EMPTY
        \<and> (nodeType (entries t (slot N k)) = EXACT) = (nodeType entry = EXACT)
        \<longrightarrow> spec_replaces (entries t (slot N k)) entry
            = (depth (entries t (slot N k)) \<le> depth entry))"
    by (auto simp: spec_replaces_def)
  have sl: "0 < N \<and> \<bar>k\<bar> < 9223372036854775808 \<longrightarrow> slot N k = \<bar>k\<bar> mod N"
    using slot_abs_mod by blast
  show ?thesis
    unfolding eq using nt dp kb pol sl by simp
qed

text \<open>
  An EXACT entry of depth 3 goes into the empty slot 7 and is what the slot holds
  afterwards; a deeper bound does not displace it; an EXACT entry of the same depth does.
\<close>

theorem setEntry_replacement_policy_witness:
  "slot 1024 7 = 7
   \<and> entries (setEntry 1024 emptyTable 7 (mateEntry 3 10) 0) 7 = mateEntry 3 10
   \<and> writes (setEntry 1024 emptyTable 7 (mateEntry 3 10) 0) = 1
   \<and> setEntry 1024 (setEntry 1024 emptyTable 7 (mateEntry 3 10) 0) 7 (mateEntry 9 20\<lparr>nodeType := LOWERBOUND\<rparr>) 0
     = setEntry 1024 emptyTable 7 (mateEntry 3 10) 0
   \<and> entries (setEntry 1024 (setEntry 1024 emptyTable 7 (mateEntry 3 10) 0) 7 (mateEntry 3 25) 0) 7
     = mateEntry 3 25"
proof -
  let ?t1 = "setEntry 1024 emptyTable 7 (mateEntry 3 10) 0"
  have sl: "slot 1024 7 = 7"
    by (simp add: slot_def crem_def wrap64_def)
  have n: "normalise (mateEntry 3 10) 0 = mateEntry 3 10" "normalise (mateEntry 3 25) 0 = mateEntry 3 25"
    by (simp_all add: normalise_def mateEntry_def abs32_def sub32_def add32_def wrap32_def MATE_SCORE_def)
  have r1: "spec_replaces (entries emptyTable (slot 1024 7)) (mateEntry 3 10)"
    by (simp add: spec_replaces_def emptyTable_def emptyEntry_def)
  have w1: "entries ?t1 7 = mateEntry 3 10" "writes ?t1 = 1"
    using setEntry_replacement_policy [of 1024 emptyTable 7 "mateEntry 3 10" 0] r1 n sl
    by (simp_all add: emptyTable_def)
  have r2: "\<not> spec_replaces (entries ?t1 (slot 1024 7)) (mateEntry 9 20\<lparr>nodeType := LOWERBOUND\<rparr>)"
    using w1(1) by (simp add: spec_replaces_def sl mateEntry_def)
  have k2: "setEntry 1024 ?t1 7 (mateEntry 9 20\<lparr>nodeType := LOWERBOUND\<rparr>) 0 = ?t1"
    using setEntry_replacement_policy [of 1024 ?t1 7 "mateEntry 9 20\<lparr>nodeType := LOWERBOUND\<rparr>" 0] r2
    by simp
  have r3: "spec_replaces (entries ?t1 (slot 1024 7)) (mateEntry 3 25)"
    using w1(1) by (simp add: spec_replaces_def sl mateEntry_def)
  have w3: "entries (setEntry 1024 ?t1 7 (mateEntry 3 25) 0) 7 = mateEntry 3 25"
    using setEntry_replacement_policy [of 1024 ?t1 7 "mateEntry 3 25" 0] r3 n sl
    by simp
  show ?thesis
    using sl w1 k2 w3 by simp
qed
section \<open>Properties of the search\<close>

text \<open>
  Claim C8.  A call of \<open>quiesce\<close> that finds the stop flag clear evaluates the position
  first.  If the stand-pat score reaches \<open>beta\<close>, the call returns \<open>beta\<close>; otherwise,
  if the stand-pat score plus the value of a queen (\<open>mg_value[QUEEN - 1]\<close>, the most
  valuable piece that can be captured) is below the raised \<open>alpha\<close>, it returns that
  \<open>alpha\<close>.  In both cases one unit of fuel suffices and the state is the one received
  but for the read of the stop flag: no move is generated or searched.  In the remaining
  case the call goes on as if it had been entered with \<open>alpha\<close> raised to the stand-pat
  score.
\<close>

theorem quiesce_stand_pat:
  assumes "\<not> stopFlag E (stopReads s)"
  shows "quiesce E (Suc n) alpha beta ply dep s =
     (let stand_pat = evaluate E (board s);
          s1 = s\<lparr>stopReads := Suc (stopReads s)\<rparr>
      in if stand_pat \<ge> beta then Some (beta, s1)
         else if add32 stand_pat (mg_value E (QUEEN E - 1)) < max alpha stand_pat
           then Some (max alpha stand_pat, s1)
         else quiesce E (Suc n) (max alpha stand_pat) beta ply dep s)"
  using assms by (simp add: readStop_def Let_def max_def)

text \<open>
  At position 3 of the transposition game (stand-pat 10): with \<open>beta = 5\<close> the call
  returns 5, and with the window \<open>(2000, 3000)\<close> the delta test returns 2000.
\<close>

theorem quiesce_stand_pat_witness:
  "quiesce transpositionGame (Suc 0) (- 20) 5 2 0 (freshSearch [3, 1, 0])
     = Some (5, (freshSearch [3, 1, 0])\<lparr>stopReads := Suc 0\<rparr>)
   \<and> quiesce transpositionGame (Suc 0) 2000 3000 2 0 (freshSearch [3, 1, 0])
     = Some (2000, (freshSearch [3, 1, 0])\<lparr>stopReads := Suc 0\<rparr>)"
proof -
  have a: "\<not> stopFlag transpositionGame (stopReads (freshSearch [3, 1, 0]))"
    by (simp add: transpositionGame_def toyGame_def)
  show ?thesis
    using quiesce_stand_pat [OF a, of 0 "- 20" 5 2 0] quiesce_stand_pat [OF a, of 0 2000 3000 2 0]
    by (simp add: transpositionGame_def toyGame_def freshSearch_def cur_def toyValues_def
        add32_def wrap32_def Let_def del: quiesce.simps)
qed

text \<open>
  Claim C4.  A call of \<open>alphaBeta\<close> that is not cancelled and has \<open>depth \<noteq> 0\<close> probes the
  table.  The entry is used only if \<open>contains\<close> finds it and its depth is at least the
  requested depth.  Then an EXACT entry ends the call with its score; an UPPERBOUND entry
  with score at most \<open>alpha\<close> and a LOWERBOUND entry with score at least \<open>beta\<close> do so
  as well; otherwise the search goes on (\<open>alphaBetaExpand\<close>) with the entry's best move as
  hint and with \<open>beta\<close>, respectively \<open>alpha\<close>, tightened to the stored score.  An entry
  that is absent or too shallow leaves window and hint as they were.
\<close>

theorem alphaBeta_cache_probe:
  assumes "\<not> stopFlag E (stopReads s)" and "dep \<noteq> 0"
  shows "alphaBeta E (Suc n) dep alpha beta ply s =
     (let s1 = s\<lparr>stopReads := Suc (stopReads s)\<rparr>;
          h = hashCode E (board s);
          present = fst (contains (TT_SIZE E) (tt s) h);
          t1 = snd (contains (TT_SIZE E) (tt s) h);
          entry = fst (getEntry (TT_SIZE E) t1 h ply);
          t2 = snd (getEntry (TT_SIZE E) t1 h ply)
      in if present \<and> depth entry \<ge> dep then
           (if nodeType entry = EXACT then Some (score entry, s1\<lparr>tt := t2\<rparr>)
            else if nodeType entry = UPPERBOUND then
              (if score entry \<le> alpha then Some (score entry, s1\<lparr>tt := t2\<rparr>)
               else alphaBetaExpand E n dep alpha (min beta (score entry)) ply (bestMove entry) (s1\<lparr>tt := t2\<rparr>))
            else if nodeType entry = LOWERBOUND then
              (if score entry \<ge> beta then Some (score entry, s1\<lparr>tt := t2\<rparr>)
               else alphaBetaExpand E n dep (max alpha (score entry)) beta ply (bestMove entry) (s1\<lparr>tt := t2\<rparr>))
            else alphaBetaExpand E n dep alpha beta ply emptyMove (s1\<lparr>tt := t2\<rparr>))
         else alphaBetaExpand E n dep alpha beta ply emptyMove (s1\<lparr>tt := (if present then t2 else t1)\<rparr>))"
  using assms
  by (cases "contains (TT_SIZE E) (tt s) (hashCode E (board s))";
      cases "getEntry (TT_SIZE E) (snd (contains (TT_SIZE E) (tt s) (hashCode E (board s)))) (hashCode E (board s)) ply";
      cases "nodeType (fst (getEntry (TT_SIZE E) (snd (contains (TT_SIZE E) (tt s) (hashCode E (board s)))) (hashCode E (board s)) ply))")
     (auto simp add: readStop_def getTransposition_def alphaBetaExpand_def Let_def)

text \<open>
  With an EXACT entry of depth 5 and score 42 for the root, a search of depth 2 returns 42
  at once.
\<close>

theorem alphaBeta_cache_probe_witness:
  "map_option fst (alphaBeta transpositionGame (Suc 0) 2 (INT32_MIN + 1) INT32_MAX 0
      ((freshSearch [0])\<lparr>tt := probeTable\<rparr>)) = Some 42"
proof -
  have a: "\<not> stopFlag transpositionGame (stopReads ((freshSearch [0::nat])\<lparr>tt := probeTable\<rparr>))"
    by (simp add: transpositionGame_def toyGame_def)
  have b: "(2::int) \<noteq> 0"
    by simp
  have c: "x = y \<Longrightarrow> map_option fst y = Some 42 \<Longrightarrow> map_option fst x = Some (42::int)"
    for x y :: "(int \<times> nat list Search) option"
    by simp
  show ?thesis
    by (rule c [OF alphaBeta_cache_probe [OF a b, of 0 "INT32_MIN + 1" INT32_MAX 0]]) code_simp
qed

text \<open>
  Claim C6.  In the loop of \<open>alphaBeta\<close>, take the move selected at index \<open>i\<close> and let
  \<open>b1\<close> be the board after \<open>makeMove\<close>, where the code runs its tests.  If the move is
  legal, the half-move clock of \<open>b1\<close> is at least 100, the move is not a capture (its
  flag is not between 1 and 5) and the square it started from does not hold a pawn, then
  the move is a draw that is not a repetition, its score is 0, and the loop carries on
  with \<open>alphaBetaMove\<close> at score 0 on the board \<open>b1\<close>: there is no recursive call of
  \<open>alphaBeta\<close> for this move.
\<close>

theorem alphaBeta_fifty_move_rule:
  assumes "i < length moves"
    and "selectMove moves i = (move, moves1)"
    and "b1 = makeMove E (board s) move"
    and "\<not> inCheck E b1 (invertColor (sideToMove E b1))"
    and "halfMoveClock E b1 \<ge> 100"
    and "squares E b1 (start move) \<noteq> PAWN E"
    and "\<not> (1 \<le> flag move \<and> flag move \<le> 5)"
  shows "drawCheck E b1 move = (True, False)
       \<and> alphaBetaLoop E (Suc n) dep beta ply i moves hasLegalMoves locals s =
          (case alphaBetaMove E dep beta ply move False 0 locals (s\<lparr>board := b1\<rparr>) of
             Return r \<Rightarrow> Some r
           | Continue (locals1, s3) \<Rightarrow> alphaBetaLoop E n dep beta ply (Suc i) moves1 True locals1 s3)"
  using assms by (simp add: drawCheck_def Let_def)

text \<open>
  In the game with the clock at 100 the first root move scores 0, which is a cutoff for
  \<open>beta = 0\<close>; one unit of fuel suffices.
\<close>

theorem alphaBeta_fifty_move_rule_witness:
  "map_option fst (alphaBetaLoop fiftyGame (Suc 0) 1 0 0 0 rootMoves False
      (- 5, UPPERBOUND, emptyMove, INT32_MIN, False) (freshSearch [0])) = Some 0"
proof -
  have 1: "0 < length rootMoves"
    by (simp add: rootMoves_def)
  have 2: "selectMove rootMoves 0 = (\<lparr>start = 0, end_sq = 1, flag = 0, promotionType = 0\<rparr>, rootMoves)"
    by (simp add: selectMove_def rootMoves_def Let_def)
  have 4: "\<not> inCheck fiftyGame (makeMove fiftyGame (board (freshSearch [0])) \<lparr>start = 0, end_sq = 1, flag = 0, promotionType = 0\<rparr>)
             (invertColor (sideToMove fiftyGame (makeMove fiftyGame (board (freshSearch [0])) \<lparr>start = 0, end_sq = 1, flag = 0, promotionType = 0\<rparr>)))"
    by (simp add: fiftyGame_def transpositionGame_def toyGame_def)
  have 5: "halfMoveClock fiftyGame (makeMove fiftyGame (board (freshSearch [0])) \<lparr>start = 0, end_sq = 1, flag = 0, promotionType = 0\<rparr>) \<ge> 100"
    by (simp add: fiftyGame_def)
  have 6: "squares fiftyGame (makeMove fiftyGame (board (freshSearch [0])) \<lparr>start = 0, end_sq = 1, flag = 0, promotionType = 0\<rparr>)
             (start \<lparr>start = 0, end_sq = 1, flag = 0, promotionType = 0\<rparr>) \<noteq> PAWN fiftyGame"
    by (simp add: fiftyGame_def transpositionGame_def toyGame_def)
  have 7: "\<not> (1 \<le> flag \<lparr>start = 0, end_sq = 1, flag = 0, promotionType = 0\<rparr>
              \<and> flag \<lparr>start = 0, end_sq = 1, flag = 0, promotionType = 0\<rparr> \<le> 5)"
    by simp
  have c: "x = y \<Longrightarrow> map_option fst y = Some 0 \<Longrightarrow> map_option fst x = Some (0::int)"
    for x y :: "(int \<times> nat list Search) option"
    by simp
  show ?thesis
    by (rule c [OF alphaBeta_fifty_move_rule [THEN conjunct2, OF 1 2 refl 4 5 6 7, of 0 1 0 0 False
        "(- 5, UPPERBOUND, emptyMove, INT32_MIN, False)"]]) code_simp
qed

text \<open>
  Claim C5 at a concrete input.  On the board \<open>[3, 2, 1, 0]\<close> of the repetition game the
  only move leads back to position 0, and \<open>drawCheck\<close> reports a repetition.  The move
  scores 0, which lies above \<open>alpha\<close>: it becomes the best line of the node, and the
  node is stored in the table as an EXACT entry with score 0.  The flag \<open>noStore\<close> is
  only set in the branch \<open>score > bestScore\<close>, not in the branch \<open>score > alpha\<close>.
\<close>

theorem repetition_draw_is_stored:
  "drawCheck repetitionGame [0, 3, 2, 1, 0] \<lparr>start = 3, end_sq = 0, flag = 0, promotionType = 0\<rparr> = (True, True)
   \<and> map_option (\<lambda>(v, s). (v, entries (tt s) 3, writes (tt s)))
        (alphaBeta repetitionGame 3 1 (INT32_MIN + 1) INT32_MAX 0 (freshSearch [3, 2, 1, 0]))
     = Some (0, \<lparr>key = 3, bestMove = \<lparr>start = 3, end_sq = 0, flag = 0, promotionType = 0\<rparr>,
                 depth = 1, score = 0, nodeType = EXACT\<rparr>, 1)"
  by code_simp

text \<open>
  Claim C7 as stated fails: a capture that loses material keeps its negative score
  (only a score of exactly 0 is raised to 1), so a knight taking a pawn scores \<open>- 255\<close>
  and ranks below a quiet move with history 0.
\<close>

theorem scoreMoves_priorities_counterexample:
  "snd (scoreMoves transpositionGame (freshSearch [0]) [knightTakesPawn, quietMove] 0 emptyMove ! 0)
   < snd (scoreMoves transpositionGame (freshSearch [0]) [knightTakesPawn, quietMove] 0 emptyMove ! 1)"
  by code_simp

text \<open>
  Claim C7, as the code has it.  Let the piece values lie between 0 and 16383, and take a
  move \<open>m\<close> of the list that does not take the branch of the principal variation.  Then
  \<open>scoreMoves\<close> pairs \<open>m\<close> with the first that applies of: \<open>2^30\<close> for the hint move of
  the cache; the value of the promoted piece minus the value of a pawn for a promotion; for
  a quiet move \<open>2^14\<close> if it is a killer move of this ply and its history score otherwise;
  \<open>2^16\<close> for castling; for a capture the victim's value minus the aggressor's, where 0
  becomes 1 and a positive difference is multiplied by \<open>2^16\<close>, while a negative
  difference stays as it is.  So the hint move ranks above every capture that does not
  lose material, these rank at or above castling, castling above the killer moves, the
  killer moves above the promotions; captures that lose material rank below 0.
\<close>

theorem scoreMoves_priorities:
  assumes "\<forall>i. 0 \<le> mg_value E i \<and> mg_value E i < 16384"
    and "i < length ms" and "m = ms ! i" and "sc = snd (scoreMoves E s ms ply hm ! i)"
    and "victim = mg_value E (flag m - 1)"
    and "agressor = mg_value E (squares E (board s) (start m) - 1)"
    and "\<not> (pvGuard (lastPV s) ply \<and> lastPV_at E (lastPV s) ply = m)"
  shows "fst (scoreMoves E s ms ply hm ! i) = m
    \<and> (m = hm \<longrightarrow> sc = 1073741824)
    \<and> (m \<noteq> hm \<and> promotionType m \<noteq> 0
         \<longrightarrow> sc = mg_value E (promotionType m - 1) - mg_value E 0 \<and> sc < 16384)
    \<and> (m \<noteq> hm \<and> promotionType m = 0 \<and> (flag m = 0 \<or> flag m \<ge> 7)
         \<and> (m = fst (killerMoves s ply) \<or> m = snd (killerMoves s ply))
         \<longrightarrow> sc = 16384)
    \<and> (m \<noteq> hm \<and> promotionType m = 0 \<and> (flag m = 0 \<or> flag m \<ge> 7)
         \<and> m \<noteq> fst (killerMoves s ply) \<and> m \<noteq> snd (killerMoves s ply)
         \<longrightarrow> sc = history s (sideToMove E (board s)) (start m) (end_sq m))
    \<and> (m \<noteq> hm \<and> promotionType m = 0 \<and> flag m = 6 \<longrightarrow> sc = 65536)
    \<and> (m \<noteq> hm \<and> promotionType m = 0 \<and> 1 \<le> flag m \<and> flag m \<le> 5 \<and> victim \<ge> agressor
         \<longrightarrow> sc = max 1 (victim - agressor) * 65536 \<and> 65536 \<le> sc \<and> sc < 1073741824)
    \<and> (m \<noteq> hm \<and> promotionType m = 0 \<and> 1 \<le> flag m \<and> flag m \<le> 5 \<and> victim < agressor
         \<longrightarrow> sc = victim - agressor \<and> sc < 0)"
proof -
  have sc: "sc = scoreMove E s ply hm m" and f: "fst (scoreMoves E s ms ply hm ! i) = m"
    using assms(2,3,4) by (simp_all add: scoreMoves_def)
  have lo: "0 \<le> mg_value E j" and hi: "mg_value E j < 16384" for j
    using assms(1) by simp_all
  have w: "wrap32 (mg_value E a - mg_value E b) = mg_value E a - mg_value E b" for a b
    using lo [of a] hi [of a] lo [of b] hi [of b] by (intro wrap32_id) linarith+
  have dv: "victim - agressor < 16384" "- 16384 < victim - agressor"
    using lo [of "flag m - 1"] hi [of "flag m - 1"]
      lo [of "squares E (board s) (start m) - 1"] hi [of "squares E (board s) (start m) - 1"]
      assms(5,6) by linarith+
  note nopv = assms(7)
  have pv: "(pvGuard (lastPV s) ply \<and> lastPV_at E (lastPV s) ply = m) = False"
    using assms(7) by simp
  have w0: "wrap32 0 = 0"
    by (simp add: wrap32_def)
  have c1: "m = hm \<longrightarrow> sc = 1073741824"
    using nopv by (auto simp add: sc scoreMove_def shl32_def wrap32_def)
  have c2: "m \<noteq> hm \<and> promotionType m \<noteq> 0
      \<longrightarrow> sc = mg_value E (promotionType m - 1) - mg_value E 0 \<and> sc < 16384"
    using nopv lo [of 0] hi [of "promotionType m - 1"]
    by (auto simp add: sc scoreMove_def sub32_def w)
  have c3: "m \<noteq> hm \<and> promotionType m = 0 \<and> (flag m = 0 \<or> flag m \<ge> 7)
         \<and> (m = fst (killerMoves s ply) \<or> m = snd (killerMoves s ply))
         \<longrightarrow> sc = 16384"
    using nopv by (auto simp add: sc scoreMove_def shl32_def wrap32_def)
  have c4: "m \<noteq> hm \<and> promotionType m = 0 \<and> (flag m = 0 \<or> flag m \<ge> 7)
         \<and> m \<noteq> fst (killerMoves s ply) \<and> m \<noteq> snd (killerMoves s ply)
         \<longrightarrow> sc = history s (sideToMove E (board s)) (start m) (end_sq m)"
    using nopv by (auto simp add: sc scoreMove_def)
  have c5: "m \<noteq> hm \<and> promotionType m = 0 \<and> flag m = 6 \<longrightarrow> sc = 65536"
    using nopv by (auto simp add: sc scoreMove_def shl32_def wrap32_def)
  have cap: "sc = (let c = victim - agressor; c = (if c = 0 then 1 else c);
                       c = (if c > 0 then shl32 c 16 else c) in wrap32 c)"
    if "m \<noteq> hm" "promotionType m = 0" "1 \<le> flag m" "flag m \<le> 5"
    using that assms(5,6) by (simp add: sc scoreMove_def pv add32_def sub32_def w w0 Let_def)
  have sh: "shl32 c 16 = c * 65536" if "0 < c" "c < 16384" for c
    using that by (simp add: shl32_def) (intro wrap32_id; linarith)
  have c6: "m \<noteq> hm \<and> promotionType m = 0 \<and> 1 \<le> flag m \<and> flag m \<le> 5 \<and> victim \<ge> agressor
         \<longrightarrow> sc = max 1 (victim - agressor) * 65536 \<and> 65536 \<le> sc \<and> sc < 1073741824"
  proof (intro impI, elim conjE)
    assume h: "m \<noteq> hm" "promotionType m = 0" "1 \<le> flag m" "flag m \<le> 5" "victim \<ge> agressor"
    define c where "c = max 1 (victim - agressor)"
    have cb: "0 < c" "c < 16384" using dv h(5) by (simp_all add: c_def)
    have "(if victim - agressor = 0 then 1 else victim - agressor) = c"
      using h(5) by (simp add: c_def max_def)
    then have "sc = wrap32 (c * 65536)"
      using cap [OF h(1-4)] cb by (simp add: Let_def sh)
    moreover have "wrap32 (c * 65536) = c * 65536"
      using cb by (intro wrap32_id) linarith+
    ultimately show "sc = max 1 (victim - agressor) * 65536 \<and> 65536 \<le> sc \<and> sc < 1073741824"
      using cb by (simp add: c_def [symmetric])
  qed
  have c7: "m \<noteq> hm \<and> promotionType m = 0 \<and> 1 \<le> flag m \<and> flag m \<le> 5 \<and> victim < agressor
         \<longrightarrow> sc = victim - agressor \<and> sc < 0"
  proof (intro impI, elim conjE)
    assume h: "m \<noteq> hm" "promotionType m = 0" "1 \<le> flag m" "flag m \<le> 5" "victim < agressor"
    have "sc = wrap32 (victim - agressor)"
      using cap [OF h(1-4)] h(5) by (simp add: Let_def)
    moreover have "wrap32 (victim - agressor) = victim - agressor"
      using dv by (intro wrap32_id) linarith+
    ultimately show "sc = victim - agressor \<and> sc < 0" using h(5) by simp
  qed
  show ?thesis
    using f c1 c2 c3 c4 c5 c6 c7 by blast
qed

lemma toyValues_bounds: "0 \<le> toyValues i \<and> toyValues i < 16384"
  by (simp add: toyValues_def)

text \<open>
  The knight that takes a pawn: victim 82, aggressor 337.
\<close>

theorem scoreMoves_priorities_witness:
  "snd (scoreMoves transpositionGame (freshSearch [0]) [knightTakesPawn, quietMove] 0 emptyMove ! 0) = 82 - 337
   \<and> snd (scoreMoves transpositionGame (freshSearch [0]) [knightTakesPawn, quietMove] 0 emptyMove ! 0) < 0"
proof -
  have tbl: "\<forall>i. 0 \<le> mg_value transpositionGame i \<and> mg_value transpositionGame i < 16384"
    by (simp add: transpositionGame_def toyGame_def toyValues_bounds)
  have len: "0 < length [knightTakesPawn, quietMove]"
    by simp
  have nopv: "\<not> (pvGuard (lastPV (freshSearch [0::nat])) 0
                  \<and> lastPV_at transpositionGame (lastPV (freshSearch [0])) 0 = [knightTakesPawn, quietMove] ! 0)"
    by (simp add: pvGuard_def freshSearch_def)
  show ?thesis
    using scoreMoves_priorities [OF tbl len refl refl refl refl nopv, of emptyMove]
    by (simp add: knightTakesPawn_def emptyMove_def transpositionGame_def toyGame_def toyValues_def
        freshSearch_def)
qed
subsection \<open>What a call leaves behind\<close>

text \<open>
  Two facts about every returning call, proved together by induction on the fuel: the
  board is the one received, and the read counter of the table has not gone down.
\<close>

lemma reads_setEntry: "reads (setEntry N t k e p) = reads t"
  by (simp add: setEntry_def writeEntry_def Let_def)

lemma getTransposition_reads:
  assumes "getTransposition N t h dep ply sc alpha beta hm = (hit, ps, a1, b1, hm1, t1)"
  shows "reads t \<le> reads t1"
    and "reads t1 = reads t \<Longrightarrow> \<not> hit \<and> ps = sc \<and> a1 = alpha \<and> b1 = beta \<and> hm1 = hm"
  using assms
  by (auto simp: getTransposition_def getEntry_def contains_def Let_def
      split: prod.splits bool.splits if_splits NodeType.splits)

lemma getTransposition_unusable:
  assumes "getTransposition N t h dep ply sc alpha beta hm = (hit, ps, a1, b1, hm1, t1)"
    and "\<not> usable N t h dep"
  shows "\<not> hit" and "a1 = alpha" and "b1 = beta" and "hm1 = hm" and "ps = sc"
  using assms
  by (auto simp: getTransposition_def usable_def getEntry_def contains_def Let_def
      split: prod.splits bool.splits if_splits NodeType.splits)

lemma unusable_if_not_read:
  assumes "getTransposition N t h dep ply sc alpha beta hm = (hit, ps, a1, b1, hm1, t1)"
    and "reads t1 = reads t"
  shows "\<not> usable N t h dep"
  using assms
  by (auto simp: getTransposition_def usable_def getEntry_def contains_def Let_def
      split: prod.splits bool.splits if_splits NodeType.splits)

lemma neg32_id: "\<bar>x\<bar> \<le> 2147483647 \<Longrightarrow> neg32 x = - x"
  unfolding neg32_def by (intro wrap32_id) linarith+

lemma add32_id: "- 2147483648 \<le> x + y \<Longrightarrow> x + y < 2147483648 \<Longrightarrow> add32 x y = x + y"
  unfolding add32_def by (rule wrap32_id)

lemma sub32_id: "- 2147483648 \<le> x - y \<Longrightarrow> x - y < 2147483648 \<Longrightarrow> sub32 x y = x - y"
  unfolding sub32_def by (rule wrap32_id)

lemma storeKillerMove_tt: "tt (storeKillerMove E s m p) = tt s"
  by (simp add: storeKillerMove_def)

lemma readStop_frame: "readStop E s = (stp, s1) \<Longrightarrow> board s1 = board s \<and> rd s1 = rd s"
  by (auto simp: readStop_def rd_def)

lemma alphaBetaMove_frame:
  "alphaBetaMove E dep beta ply move tf sc locals s0 = Return (r, s')
    \<Longrightarrow> board s' = unMakeMove E (board s0) \<and> rd s' = rd s0"
  "alphaBetaMove E dep beta ply move tf sc locals s0 = Continue (l, s')
    \<Longrightarrow> board s' = unMakeMove E (board s0) \<and> rd s' = rd s0"
  by (cases locals; auto simp: alphaBetaMove_def readStop_def Let_def rd_def reads_setEntry
      storeKillerMove_tt storeKillerMove_def split: if_splits)+

lemma quiesceMove_frame:
  "quiesceMove E dep beta ply move sc locals s0 = Return (r, s')
    \<Longrightarrow> board s' = unMakeMove E (board s0) \<and> rd s' = rd s0"
  "quiesceMove E dep beta ply move sc locals s0 = Continue (l, s')
    \<Longrightarrow> board s' = unMakeMove E (board s0) \<and> rd s' = rd s0"
  by (cases locals; auto simp: quiesceMove_def readStop_def Let_def rd_def reads_setEntry split: if_splits)+

lemma alphaBetaExit_frame: "alphaBetaExit E dep ply h locals s = (r, s') \<Longrightarrow> board s' = board s \<and> rd s' = rd s"
  by (cases locals) (auto simp: alphaBetaExit_def rd_def reads_setEntry split: if_splits)

lemma quiesceExit_frame: "quiesceExit E dep ply locals s = (r, s') \<Longrightarrow> board s' = board s \<and> rd s' = rd s"
  by (cases locals) (auto simp: quiesceExit_def rd_def reads_setEntry)

lemma search_frame:
  assumes inv: "\<And>b m. unMakeMove E (makeMove E b m) = b"
  shows "(\<forall>dep alpha beta ply s r s'. alphaBeta E n dep alpha beta ply s = Some (r, s')
            \<longrightarrow> board s' = board s \<and> rd s \<le> rd s')
       \<and> (\<forall>dep beta ply i moves h locals s r s'.
            alphaBetaLoop E n dep beta ply i moves h locals s = Some (r, s')
            \<longrightarrow> board s' = board s \<and> rd s \<le> rd s')
       \<and> (\<forall>alpha beta ply dep s r s'. quiesce E n alpha beta ply dep s = Some (r, s')
            \<longrightarrow> board s' = board s \<and> rd s \<le> rd s')
       \<and> (\<forall>dep beta ply i moves locals s r s'.
            quiesceLoop E n dep beta ply i moves locals s = Some (r, s')
            \<longrightarrow> board s' = board s \<and> rd s \<le> rd s')"
proof (induction n)
  case 0
  show ?case by simp
next
  case (Suc n)
  note IH = Suc.IH
  have ab: "\<And>dep alpha beta ply s r s'. alphaBeta E n dep alpha beta ply s = Some (r, s')
              \<Longrightarrow> board s' = board s \<and> rd s \<le> rd s'"
    and abl: "\<And>dep beta ply i moves h locals s r s'.
            alphaBetaLoop E n dep beta ply i moves h locals s = Some (r, s')
              \<Longrightarrow> board s' = board s \<and> rd s \<le> rd s'"
    and q: "\<And>alpha beta ply dep s r s'. quiesce E n alpha beta ply dep s = Some (r, s')
              \<Longrightarrow> board s' = board s \<and> rd s \<le> rd s'"
    and ql: "\<And>dep beta ply i moves locals s r s'.
            quiesceLoop E n dep beta ply i moves locals s = Some (r, s')
              \<Longrightarrow> board s' = board s \<and> rd s \<le> rd s'"
    using IH by (simp_all del: split_paired_All)
  have 1: "board s' = board s \<and> rd s \<le> rd s'"
    if h: "alphaBeta E (Suc n) dep alpha beta ply s = Some (r, s')"
    for dep alpha beta ply s r s'
  proof -
    obtain stp s1 where rs: "readStop E s = (stp, s1)" by (cases "readStop E s")
    have b1: "board s1 = board s" "rd s1 = rd s" using readStop_frame [OF rs] by simp_all
    obtain hit ps a1 be1 hm t where gt:
      "getTransposition (TT_SIZE E) (tt s1) (hashCode E (board s1)) dep ply 0 alpha beta emptyMove
         = (hit, ps, a1, be1, hm, t)"
      by (metis prod_cases3)
    have rt: "rd s1 \<le> rd (s1\<lparr>tt := t\<rparr>)" "board (s1\<lparr>tt := t\<rparr>) = board s1"
      using getTransposition_reads(1) [OF gt] by (simp_all add: rd_def)
    show ?thesis
    proof (cases "stp")
      case True
      then show ?thesis using h rs b1 by simp
    next
      case ns: False
      show ?thesis
      proof (cases "dep = 0")
        case True
        then show ?thesis using h rs ns b1 q [of alpha beta ply 0 s1 r s'] by simp
      next
        case nz: False
        show ?thesis
        proof (cases hit)
          case True
          then show ?thesis using h rs ns nz gt b1 rt by auto
        next
          case False
          then consider (clamp) "s' = s1\<lparr>tt := t\<rparr>"
            | (loop) b m l where "alphaBetaLoop E n dep b ply 0 m False l (s1\<lparr>tt := t\<rparr>) = Some (r, s')"
            using h rs ns nz gt by (auto simp: Let_def split: if_splits)
          then show ?thesis
          proof cases
            case clamp
            then show ?thesis using b1 rt by simp
          next
            case loop
            from abl [OF loop] show ?thesis using b1 rt by simp
          qed
        qed
      qed
    qed
  qed
  have 2: "board s' = board s \<and> rd s \<le> rd s'"
    if h: "alphaBetaLoop E (Suc n) dep beta ply i moves hl locals s = Some (r, s')"
    for dep beta ply i moves hl locals s r s'
  proof (cases "i < length moves")
    case False
    then show ?thesis using h alphaBetaExit_frame [of E dep ply hl locals s r s'] by simp
  next
    case il: True
    obtain move moves1 where sm: "selectMove moves i = (move, moves1)" by (cases "selectMove moves i")
    define s1 where "s1 = s\<lparr>board := makeMove E (board s) move\<rparr>"
    have bs1: "board s1 = makeMove E (board s) move" "rd s1 = rd s" by (simp_all add: s1_def rd_def)
    show ?thesis
    proof (cases "inCheck E (board s1) (invertColor (sideToMove E (board s1)))")
      case True
      then have "alphaBetaLoop E n dep beta ply (Suc i) moves1 hl locals (s1\<lparr>board := unMakeMove E (board s1)\<rparr>) = Some (r, s')"
        using h il sm by (simp add: s1_def Let_def)
      from abl [OF this] show ?thesis by (simp add: bs1 inv rd_def s1_def)
    next
      case legal: False
      obtain draw tf where dc: "drawCheck E (board s1) move = (draw, tf)" by (cases "drawCheck E (board s1) move")
      define child where "child = (if draw then Some (0, s1)
                        else (case alphaBeta E n (sub32 dep 1) (neg32 beta) (neg32 (fst locals)) (add32 ply 1) s1 of
                                None \<Rightarrow> None | Some (v, s2) \<Rightarrow> Some (neg32 v, s2)))"
      have step: "(case child of None \<Rightarrow> None
                   | Some (sc, s2) \<Rightarrow>
                      (case alphaBetaMove E dep beta ply move tf sc locals s2 of
                         Return r \<Rightarrow> Some r
                       | Continue (locals1, s3) \<Rightarrow> alphaBetaLoop E n dep beta ply (Suc i) moves1 True locals1 s3))
                  = Some (r, s')"
        using h il sm legal dc by (cases draw) (simp_all add: s1_def Let_def child_def)
      then obtain sc s2 where ch: "child = Some (sc, s2)"
        by (cases child) auto
      have bs2: "board s2 = board s1 \<and> rd s1 \<le> rd s2"
        using ch ab [of "sub32 dep 1" "neg32 beta" "neg32 (fst locals)" "add32 ply 1" s1 _ s2]
        by (auto simp: child_def split: if_splits option.splits)
      have un: "unMakeMove E (board s2) = board s" using bs2 by (simp add: bs1 inv)
      show ?thesis
      proof (cases "alphaBetaMove E dep beta ply move tf sc locals s2")
        case (Return x)
        then have "x = (r, s')" using step ch by simp
        then show ?thesis
          using alphaBetaMove_frame(1) [of E dep beta ply move tf sc locals s2 r s'] Return un bs2 bs1 by simp
      next
        case (Continue x)
        obtain l1 s3 where x: "x = (l1, s3)" by (cases x)
        have "board s3 = board s \<and> rd s3 = rd s2"
          using alphaBetaMove_frame(2) [of E dep beta ply move tf sc locals s2 l1 s3] Continue x un by simp
        moreover have "alphaBetaLoop E n dep beta ply (Suc i) moves1 True l1 s3 = Some (r, s')"
          using step ch Continue x by simp
        ultimately show ?thesis using abl [of dep beta ply "Suc i" moves1 True l1 s3 r s'] bs2 bs1 by simp
      qed
    qed
  qed
  have 3: "board s' = board s \<and> rd s \<le> rd s'"
    if h: "quiesce E (Suc n) alpha beta ply dep s = Some (r, s')"
    for alpha beta ply dep s r s'
  proof -
    obtain stp s1 where rs: "readStop E s = (stp, s1)" by (cases "readStop E s")
    have b1: "board s1 = board s" "rd s1 = rd s" using readStop_frame [OF rs] by simp_all
    define a0 where "a0 = (if alpha < evaluate E (board s1) then evaluate E (board s1) else alpha)"
    obtain hit ps a1 be1 hm t where gt:
      "getTransposition (TT_SIZE E) (tt s1) (hashCode E (board s1)) dep ply 0 a0 beta emptyMove
         = (hit, ps, a1, be1, hm, t)"
      by (metis prod_cases3)
    have rt: "rd s1 \<le> rd (s1\<lparr>tt := t\<rparr>)" "board (s1\<lparr>tt := t\<rparr>) = board s1"
      using getTransposition_reads(1) [OF gt] by (simp_all add: rd_def)
    consider (early) "s' = s1" | (hit) "s' = s1\<lparr>tt := t\<rparr>"
      | (loop) b m l where "quiesceLoop E n dep b ply 0 m l (s1\<lparr>tt := t\<rparr>) = Some (r, s')"
      using h rs gt by (auto simp: Let_def a0_def split: if_splits)
    then show ?thesis
    proof cases
      case early
      then show ?thesis using b1 by simp
    next
      case hit
      then show ?thesis using b1 rt by simp
    next
      case loop
      from ql [OF loop] show ?thesis using b1 rt by simp
    qed
  qed
  have 4: "board s' = board s \<and> rd s \<le> rd s'"
    if h: "quiesceLoop E (Suc n) dep beta ply i moves locals s = Some (r, s')"
    for dep beta ply i moves locals s r s'
  proof (cases "i < length moves")
    case False
    then show ?thesis using h quiesceExit_frame [of E dep ply locals s r s'] by simp
  next
    case il: True
    obtain move moves1 where sm: "selectMove moves i = (move, moves1)" by (cases "selectMove moves i")
    define s1 where "s1 = s\<lparr>board := makeMove E (board s) move\<rparr>"
    have bs1: "board s1 = makeMove E (board s) move" "rd s1 = rd s" by (simp_all add: s1_def rd_def)
    show ?thesis
    proof (cases "inCheck E (board s1) (invertColor (sideToMove E (board s1)))")
      case True
      then have "quiesceLoop E n dep beta ply (Suc i) moves1 locals (s1\<lparr>board := unMakeMove E (board s1)\<rparr>) = Some (r, s')"
        using h il sm by (simp add: s1_def Let_def)
      from ql [OF this] show ?thesis by (simp add: bs1 inv rd_def s1_def)
    next
      case legal: False
      have step: "(case quiesce E n (neg32 beta) (neg32 (fst locals)) (add32 ply 1) (sub32 dep 1) s1 of
                     None \<Rightarrow> None
                   | Some (v, s2) \<Rightarrow>
                      (case quiesceMove E dep beta ply move (neg32 v) locals s2 of
                         Return r \<Rightarrow> Some r
                       | Continue (locals1, s3) \<Rightarrow> quiesceLoop E n dep beta ply (Suc i) moves1 locals1 s3))
                  = Some (r, s')"
        using h il sm legal by (simp add: s1_def Let_def)
      then obtain v s2 where ch: "quiesce E n (neg32 beta) (neg32 (fst locals)) (add32 ply 1) (sub32 dep 1) s1 = Some (v, s2)"
        by (cases "quiesce E n (neg32 beta) (neg32 (fst locals)) (add32 ply 1) (sub32 dep 1) s1") auto
      have bs2: "board s2 = board s1 \<and> rd s1 \<le> rd s2" using q [OF ch] .
      have un: "unMakeMove E (board s2) = board s" using bs2 by (simp add: bs1 inv)
      show ?thesis
      proof (cases "quiesceMove E dep beta ply move (neg32 v) locals s2")
        case (Return x)
        then have "x = (r, s')" using step ch by simp
        then show ?thesis
          using quiesceMove_frame(1) [of E dep beta ply move "neg32 v" locals s2 r s'] Return un bs2 bs1 by simp
      next
        case (Continue x)
        obtain l1 s3 where x: "x = (l1, s3)" by (cases x)
        have "board s3 = board s \<and> rd s3 = rd s2"
          using quiesceMove_frame(2) [of E dep beta ply move "neg32 v" locals s2 l1 s3] Continue x un by simp
        moreover have "quiesceLoop E n dep beta ply (Suc i) moves1 l1 s3 = Some (r, s')"
          using step ch Continue x by simp
        ultimately show ?thesis using ql [of dep beta ply "Suc i" moves1 l1 s3 r s'] bs2 bs1 by simp
      qed
    qed
  qed
  show ?case using 1 2 3 4 by blast
qed

lemma frame_ab:
  assumes "\<And>b m. unMakeMove E (makeMove E b m) = b" "alphaBeta E n dep alpha beta ply s = Some (r, s')"
  shows "board s' = board s" "rd s \<le> rd s'"
  using search_frame [OF assms(1), of n, THEN conjunct1, rule_format, OF assms(2)] by simp_all

lemma frame_abl:
  assumes "\<And>b m. unMakeMove E (makeMove E b m) = b"
    "alphaBetaLoop E n dep beta ply i moves h locals s = Some (r, s')"
  shows "board s' = board s" "rd s \<le> rd s'"
  using search_frame [OF assms(1), of n, THEN conjunct2, THEN conjunct1, rule_format, OF assms(2)] by simp_all

lemma frame_q:
  assumes "\<And>b m. unMakeMove E (makeMove E b m) = b" "quiesce E n alpha beta ply dep s = Some (r, s')"
  shows "board s' = board s" "rd s \<le> rd s'"
  using search_frame [OF assms(1), of n, THEN conjunct2, THEN conjunct2, THEN conjunct1, rule_format, OF assms(2)]
  by simp_all

lemma frame_ql:
  assumes "\<And>b m. unMakeMove E (makeMove E b m) = b"
    "quiesceLoop E n dep beta ply i moves locals s = Some (r, s')"
  shows "board s' = board s" "rd s \<le> rd s'"
  using search_frame [OF assms(1), of n, THEN conjunct2, THEN conjunct2, THEN conjunct2, rule_format, OF assms(2)]
  by simp_all

subsection \<open>More fuel changes no result\<close>

text \<open>
  A call that returns with \<open>n\<close> units of fuel returns the same with any greater amount.
  The four lemmas are the steps of the induction on \<open>n\<close>, one for each function.
\<close>

lemma mono_ab:
  assumes ab: "\<And>m dep alpha beta ply s x. n \<le> m \<Longrightarrow> alphaBeta E n dep alpha beta ply s = Some x
              \<Longrightarrow> alphaBeta E m dep alpha beta ply s = Some x"
    and abl: "\<And>m dep beta ply i moves h locals s x. n \<le> m
              \<Longrightarrow> alphaBetaLoop E n dep beta ply i moves h locals s = Some x
              \<Longrightarrow> alphaBetaLoop E m dep beta ply i moves h locals s = Some x"
    and q: "\<And>m alpha beta ply dep s x. n \<le> m \<Longrightarrow> quiesce E n alpha beta ply dep s = Some x
              \<Longrightarrow> quiesce E m alpha beta ply dep s = Some x"
    and ql: "\<And>m dep beta ply i moves locals s x. n \<le> m
              \<Longrightarrow> quiesceLoop E n dep beta ply i moves locals s = Some x
              \<Longrightarrow> quiesceLoop E m dep beta ply i moves locals s = Some x"
    and le: "Suc n \<le> m" and h: "alphaBeta E (Suc n) dep alpha beta ply s = Some x"
  shows "alphaBeta E m dep alpha beta ply s = Some x"
proof -
  obtain m1 where m: "m = Suc m1" "n \<le> m1" using le by (cases m) auto
  obtain stp s1 where rs: "readStop E s = (stp, s1)" by (cases "readStop E s")
  obtain hit ps a1 be1 hm t where gt:
    "getTransposition (TT_SIZE E) (tt s1) (hashCode E (board s1)) dep ply 0 alpha beta emptyMove
       = (hit, ps, a1, be1, hm, t)"
    by (metis prod_cases3)
  show ?thesis
  proof (cases "stp")
    case True
    then show ?thesis using h rs unfolding m(1) by simp
  next
    case ns: False
    show ?thesis
    proof (cases "dep = 0")
      case True
      then have "quiesce E n alpha beta ply 0 s1 = Some x" using h rs ns by simp
      from q [OF m(2) this] show ?thesis using rs ns True unfolding m(1) by simp
    next
      case nz: False
      show ?thesis
      proof (cases "hit \<or> min be1 (sub32 MATE_SCORE ply) \<le> max a1 (add32 (- MATE_SCORE) ply)")
        case True
        then show ?thesis using h rs ns nz gt unfolding m(1) by (auto simp: Let_def)
      next
        case False
        then have "alphaBetaLoop E n dep (min be1 (sub32 MATE_SCORE ply)) ply 0
                     (scoreMoves E (s1\<lparr>tt := t\<rparr>) (pseudoLegalMoves E (board (s1\<lparr>tt := t\<rparr>))) ply hm) False
                     (max a1 (add32 (- MATE_SCORE) ply), UPPERBOUND, emptyMove, INT32_MIN, False)
                     (s1\<lparr>tt := t\<rparr>) = Some x"
          using h rs ns nz gt by (simp add: Let_def)
        from abl [OF m(2) this] show ?thesis
          using rs ns nz gt False unfolding m(1) by (simp add: Let_def)
      qed
    qed
  qed
qed

lemma mono_abl:
  assumes ab: "\<And>m dep alpha beta ply s x. n \<le> m \<Longrightarrow> alphaBeta E n dep alpha beta ply s = Some x
              \<Longrightarrow> alphaBeta E m dep alpha beta ply s = Some x"
    and abl: "\<And>m dep beta ply i moves h locals s x. n \<le> m
              \<Longrightarrow> alphaBetaLoop E n dep beta ply i moves h locals s = Some x
              \<Longrightarrow> alphaBetaLoop E m dep beta ply i moves h locals s = Some x"
    and q: "\<And>m alpha beta ply dep s x. n \<le> m \<Longrightarrow> quiesce E n alpha beta ply dep s = Some x
              \<Longrightarrow> quiesce E m alpha beta ply dep s = Some x"
    and ql: "\<And>m dep beta ply i moves locals s x. n \<le> m
              \<Longrightarrow> quiesceLoop E n dep beta ply i moves locals s = Some x
              \<Longrightarrow> quiesceLoop E m dep beta ply i moves locals s = Some x"
    and le: "Suc n \<le> m" and h: "alphaBetaLoop E (Suc n) dep beta ply i moves hl locals s = Some x"
  shows "alphaBetaLoop E m dep beta ply i moves hl locals s = Some x"
proof -
  obtain m1 where m: "m = Suc m1" "n \<le> m1" using le by (cases m) auto
  show ?thesis
  proof (cases "i < length moves")
    case False
    then show ?thesis using h unfolding m(1) by simp
  next
    case il: True
    obtain move moves1 where sm: "selectMove moves i = (move, moves1)" by (cases "selectMove moves i")
    define s1 where "s1 = s\<lparr>board := makeMove E (board s) move\<rparr>"
    show ?thesis
    proof (cases "inCheck E (board s1) (invertColor (sideToMove E (board s1)))")
      case True
      then have "alphaBetaLoop E n dep beta ply (Suc i) moves1 hl locals (s1\<lparr>board := unMakeMove E (board s1)\<rparr>) = Some x"
        using h il sm by (simp add: s1_def Let_def)
      from abl [OF m(2) this] show ?thesis
        using il sm True unfolding m(1) by (simp add: s1_def Let_def)
    next
      case legal: False
      obtain draw tf where dc: "drawCheck E (board s1) move = (draw, tf)" by (cases "drawCheck E (board s1) move")
      define child where "child = (\<lambda>k. if draw then Some (0, s1)
                      else (case alphaBeta E k (sub32 dep 1) (neg32 beta) (neg32 (fst locals)) (add32 ply 1) s1 of
                              None \<Rightarrow> None | Some (v, s2) \<Rightarrow> Some (neg32 v, s2)))"
      have unf: "alphaBetaLoop E (Suc k) dep beta ply i moves hl locals s =
                (case child k of None \<Rightarrow> None
                 | Some (sc, s2) \<Rightarrow>
                    (case alphaBetaMove E dep beta ply move tf sc locals s2 of
                       Return r \<Rightarrow> Some r
                     | Continue (locals1, s3) \<Rightarrow> alphaBetaLoop E k dep beta ply (Suc i) moves1 True locals1 s3))"
        for k
        using il sm legal dc by (cases draw) (simp_all add: s1_def Let_def child_def)
      obtain sc s2 where ch: "child n = Some (sc, s2)"
        using h unfolding unf by (cases "child n") auto
      have ch1: "child m1 = Some (sc, s2)"
        using ch ab [OF m(2), of "sub32 dep 1" "neg32 beta" "neg32 (fst locals)" "add32 ply 1" s1]
        by (auto simp: child_def split: if_splits option.splits)
      show ?thesis
      proof (cases "alphaBetaMove E dep beta ply move tf sc locals s2")
        case (Return y)
        then show ?thesis using h ch ch1 unfolding m(1) unf by simp
      next
        case (Continue y)
        obtain l1 s3 where y: "y = (l1, s3)" by (cases y)
        have "alphaBetaLoop E n dep beta ply (Suc i) moves1 True l1 s3 = Some x"
          using h ch Continue y unfolding unf by simp
        from abl [OF m(2) this] show ?thesis
          using ch1 Continue y unfolding m(1) unf by simp
      qed
    qed
  qed
qed

lemma mono_q:
  assumes ab: "\<And>m dep alpha beta ply s x. n \<le> m \<Longrightarrow> alphaBeta E n dep alpha beta ply s = Some x
              \<Longrightarrow> alphaBeta E m dep alpha beta ply s = Some x"
    and abl: "\<And>m dep beta ply i moves h locals s x. n \<le> m
              \<Longrightarrow> alphaBetaLoop E n dep beta ply i moves h locals s = Some x
              \<Longrightarrow> alphaBetaLoop E m dep beta ply i moves h locals s = Some x"
    and q: "\<And>m alpha beta ply dep s x. n \<le> m \<Longrightarrow> quiesce E n alpha beta ply dep s = Some x
              \<Longrightarrow> quiesce E m alpha beta ply dep s = Some x"
    and ql: "\<And>m dep beta ply i moves locals s x. n \<le> m
              \<Longrightarrow> quiesceLoop E n dep beta ply i moves locals s = Some x
              \<Longrightarrow> quiesceLoop E m dep beta ply i moves locals s = Some x"
    and le: "Suc n \<le> m" and h: "quiesce E (Suc n) alpha beta ply dep s = Some x"
  shows "quiesce E m alpha beta ply dep s = Some x"
proof -
  obtain m1 where m: "m = Suc m1" "n \<le> m1" using le by (cases m) auto
  obtain stp s1 where rs: "readStop E s = (stp, s1)" by (cases "readStop E s")
  obtain hit ps a1 be1 hm t where gt:
    "getTransposition (TT_SIZE E) (tt s1) (hashCode E (board s1)) dep ply 0
       (if alpha < evaluate E (board s1) then evaluate E (board s1) else alpha) beta emptyMove
       = (hit, ps, a1, be1, hm, t)"
    by (metis prod_cases3)
  show ?thesis
  proof (cases "stp \<or> evaluate E (board s1) \<ge> beta
      \<or> add32 (evaluate E (board s1)) (mg_value E (QUEEN E - 1))
          < (if alpha < evaluate E (board s1) then evaluate E (board s1) else alpha) \<or> hit")
    case True
    then show ?thesis
      using h rs gt unfolding m(1) by (auto simp: Let_def)
  next
    case False
    then have "quiesceLoop E n dep be1 ply 0
                 (scoreTacticalMoves E (s1\<lparr>tt := t\<rparr>) (tacticalMoves E (board s1)) hm)
                 (a1, UPPERBOUND, emptyMove, INT32_MIN) (s1\<lparr>tt := t\<rparr>) = Some x"
      using h rs gt by (auto simp: Let_def)
    from ql [OF m(2) this] show ?thesis
      using rs gt False unfolding m(1) by (auto simp: Let_def)
  qed
qed

lemma mono_ql:
  assumes ab: "\<And>m dep alpha beta ply s x. n \<le> m \<Longrightarrow> alphaBeta E n dep alpha beta ply s = Some x
              \<Longrightarrow> alphaBeta E m dep alpha beta ply s = Some x"
    and abl: "\<And>m dep beta ply i moves h locals s x. n \<le> m
              \<Longrightarrow> alphaBetaLoop E n dep beta ply i moves h locals s = Some x
              \<Longrightarrow> alphaBetaLoop E m dep beta ply i moves h locals s = Some x"
    and q: "\<And>m alpha beta ply dep s x. n \<le> m \<Longrightarrow> quiesce E n alpha beta ply dep s = Some x
              \<Longrightarrow> quiesce E m alpha beta ply dep s = Some x"
    and ql: "\<And>m dep beta ply i moves locals s x. n \<le> m
              \<Longrightarrow> quiesceLoop E n dep beta ply i moves locals s = Some x
              \<Longrightarrow> quiesceLoop E m dep beta ply i moves locals s = Some x"
    and le: "Suc n \<le> m" and h: "quiesceLoop E (Suc n) dep beta ply i moves locals s = Some x"
  shows "quiesceLoop E m dep beta ply i moves locals s = Some x"
proof -
  obtain m1 where m: "m = Suc m1" "n \<le> m1" using le by (cases m) auto
  show ?thesis
  proof (cases "i < length moves")
    case False
    then show ?thesis using h unfolding m(1) by simp
  next
    case il: True
    obtain move moves1 where sm: "selectMove moves i = (move, moves1)" by (cases "selectMove moves i")
    define s1 where "s1 = s\<lparr>board := makeMove E (board s) move\<rparr>"
    show ?thesis
    proof (cases "inCheck E (board s1) (invertColor (sideToMove E (board s1)))")
      case True
      then have "quiesceLoop E n dep beta ply (Suc i) moves1 locals (s1\<lparr>board := unMakeMove E (board s1)\<rparr>) = Some x"
        using h il sm by (simp add: s1_def Let_def)
      from ql [OF m(2) this] show ?thesis
        using il sm True unfolding m(1) by (simp add: s1_def Let_def)
    next
      case legal: False
      have unf: "quiesceLoop E (Suc k) dep beta ply i moves locals s =
                (case quiesce E k (neg32 beta) (neg32 (fst locals)) (add32 ply 1) (sub32 dep 1) s1 of
                   None \<Rightarrow> None
                 | Some (v, s2) \<Rightarrow>
                    (case quiesceMove E dep beta ply move (neg32 v) locals s2 of
                       Return r \<Rightarrow> Some r
                     | Continue (locals1, s3) \<Rightarrow> quiesceLoop E k dep beta ply (Suc i) moves1 locals1 s3))"
        for k
        using il sm legal by (simp add: s1_def Let_def)
      obtain vc s2 where ch: "quiesce E n (neg32 beta) (neg32 (fst locals)) (add32 ply 1) (sub32 dep 1) s1 = Some (vc, s2)"
        using h unfolding unf
        by (cases "quiesce E n (neg32 beta) (neg32 (fst locals)) (add32 ply 1) (sub32 dep 1) s1") auto
      note ch1 = q [OF m(2) ch]
      show ?thesis
      proof (cases "quiesceMove E dep beta ply move (neg32 vc) locals s2")
        case (Return y)
        then show ?thesis using h ch ch1 unfolding m(1) unf by simp
      next
        case (Continue y)
        obtain l1 s3 where y: "y = (l1, s3)" by (cases y)
        have "quiesceLoop E n dep beta ply (Suc i) moves1 l1 s3 = Some x"
          using h ch Continue y unfolding unf by simp
        from ql [OF m(2) this] show ?thesis
          using ch1 Continue y unfolding m(1) unf by simp
      qed
    qed
  qed
qed

lemma fuel_mono:
  "(\<forall>m dep alpha beta ply s x. n \<le> m \<longrightarrow> alphaBeta E n dep alpha beta ply s = Some x
        \<longrightarrow> alphaBeta E m dep alpha beta ply s = Some x)
   \<and> (\<forall>m dep beta ply i moves h locals s x. n \<le> m
        \<longrightarrow> alphaBetaLoop E n dep beta ply i moves h locals s = Some x
        \<longrightarrow> alphaBetaLoop E m dep beta ply i moves h locals s = Some x)
   \<and> (\<forall>m alpha beta ply dep s x. n \<le> m \<longrightarrow> quiesce E n alpha beta ply dep s = Some x
        \<longrightarrow> quiesce E m alpha beta ply dep s = Some x)
   \<and> (\<forall>m dep beta ply i moves locals s x. n \<le> m
        \<longrightarrow> quiesceLoop E n dep beta ply i moves locals s = Some x
        \<longrightarrow> quiesceLoop E m dep beta ply i moves locals s = Some x)"
proof (induction n)
  case 0
  show ?case by simp
next
  case (Suc n)
  have ab: "\<And>m dep alpha beta ply s x. n \<le> m \<Longrightarrow> alphaBeta E n dep alpha beta ply s = Some x
              \<Longrightarrow> alphaBeta E m dep alpha beta ply s = Some x"
    by (rule Suc.IH [THEN conjunct1, rule_format])
  have abl: "\<And>m dep beta ply i moves h locals s x. n \<le> m
              \<Longrightarrow> alphaBetaLoop E n dep beta ply i moves h locals s = Some x
              \<Longrightarrow> alphaBetaLoop E m dep beta ply i moves h locals s = Some x"
    by (rule Suc.IH [THEN conjunct2, THEN conjunct1, rule_format])
  have q: "\<And>m alpha beta ply dep s x. n \<le> m \<Longrightarrow> quiesce E n alpha beta ply dep s = Some x
              \<Longrightarrow> quiesce E m alpha beta ply dep s = Some x"
    by (rule Suc.IH [THEN conjunct2, THEN conjunct2, THEN conjunct1, rule_format])
  have ql: "\<And>m dep beta ply i moves locals s x. n \<le> m
              \<Longrightarrow> quiesceLoop E n dep beta ply i moves locals s = Some x
              \<Longrightarrow> quiesceLoop E m dep beta ply i moves locals s = Some x"
    by (rule Suc.IH [THEN conjunct2, THEN conjunct2, THEN conjunct2, rule_format])
  show ?case
  proof (intro conjI allI impI)
    fix m dep alpha beta ply s x
    assume le: "Suc n \<le> m" and h: "alphaBeta E (Suc n) dep alpha beta ply s = Some x"
    show "alphaBeta E m dep alpha beta ply s = Some x"
      by (rule mono_ab [where n = n, OF _ _ _ _ le h]) (rule ab abl q ql, assumption, assumption)+
  next
    fix m dep beta ply i moves h locals s x
    assume le: "Suc n \<le> m" and h: "alphaBetaLoop E (Suc n) dep beta ply i moves h locals s = Some x"
    show "alphaBetaLoop E m dep beta ply i moves h locals s = Some x"
      by (rule mono_abl [where n = n, OF _ _ _ _ le h]) (rule ab abl q ql, assumption, assumption)+
  next
    fix m alpha beta ply dep s x
    assume le: "Suc n \<le> m" and h: "quiesce E (Suc n) alpha beta ply dep s = Some x"
    show "quiesce E m alpha beta ply dep s = Some x"
      by (rule mono_q [where n = n, OF _ _ _ _ le h]) (rule ab abl q ql, assumption, assumption)+
  next
    fix m dep beta ply i moves locals s x
    assume le: "Suc n \<le> m" and h: "quiesceLoop E (Suc n) dep beta ply i moves locals s = Some x"
    show "quiesceLoop E m dep beta ply i moves locals s = Some x"
      by (rule mono_ql [where n = n, OF _ _ _ _ le h]) (rule ab abl q ql, assumption, assumption)+
  qed
qed

lemmas mono_alphaBeta = fuel_mono [THEN conjunct1, rule_format]
  and mono_alphaBetaLoop = fuel_mono [THEN conjunct2, THEN conjunct1, rule_format]
  and mono_quiesce = fuel_mono [THEN conjunct2, THEN conjunct2, THEN conjunct1, rule_format]
  and mono_quiesceLoop = fuel_mono [THEN conjunct2, THEN conjunct2, THEN conjunct2, rule_format]

subsection \<open>Enough fuel gives a result\<close>

text \<open>
  The loops run over a finite list of moves, \<open>alphaBeta\<close> counts its depth down to 0, and
  \<open>quiesce\<close> returns when the tactical moves cannot be continued for ever: when some
  measure of the board decreases with every tactical move.
\<close>

lemma fold_select_in:
  "fold (\<lambda>i sel. if P i sel then i else sel) xs s \<in> insert s (set xs)"
  by (induction xs arbitrary: s) auto

lemma fst_set_scoreTacticalMoves: "fst ` set (scoreTacticalMoves E s ms hm) = set ms"
  by (simp add: scoreTacticalMoves_def image_image)

lemma selectMove_set:
  assumes "i < length moves" and "selectMove moves i = (move, moves1)"
  shows "length moves1 = length moves" and "set moves1 = set moves" and "move \<in> fst ` set moves"
proof -
  define sel where "sel = fold (\<lambda>j sel. if snd (moves ! j) > snd (moves ! sel) then j else sel)
                            [Suc i ..< length moves] i"
  have "sel \<in> insert i (set [Suc i ..< length moves])"
    unfolding sel_def by (rule fold_select_in)
  then have sr: "sel < length moves"
    using assms(1) by auto
  have m1: "moves1 = moves[sel := moves ! i, i := moves ! sel]" and mv: "move = fst (moves ! sel)"
    using assms(2) by (simp_all add: selectMove_def Let_def sel_def [symmetric])
  show "length moves1 = length moves"
    by (simp add: m1)
  have "mset moves1 = mset moves"
    unfolding m1 using assms(1) sr by (rule mset_swap)
  then show "set moves1 = set moves"
    by (rule mset_eq_setD)
  show "move \<in> fst ` set moves"
    unfolding mv using sr by simp
qed

lemma quiesceLoop_returns:
  assumes inv: "\<And>b m. unMakeMove E (makeMove E b m) = b"
    and child: "\<And>m alpha beta ply dep s1. m \<in> M \<Longrightarrow> board s1 = makeMove E b m
                  \<Longrightarrow> \<exists>n x. quiesce E n alpha beta ply dep s1 = Some x"
  shows "fst ` set moves \<subseteq> M \<Longrightarrow> board s = b
          \<Longrightarrow> \<exists>n x. quiesceLoop E n dep beta ply i moves locals s = Some x"
proof (induction "length moves - i" arbitrary: i moves locals s rule: less_induct)
  case less
  show ?case
  proof (cases "i < length moves")
    case False
    then have "quiesceLoop E (Suc 0) dep beta ply i moves locals s = Some (quiesceExit E dep ply locals s)"
      by simp
    then show ?thesis by blast
  next
    case il: True
    obtain move moves1 where sm: "selectMove moves i = (move, moves1)" by (cases "selectMove moves i")
    note sp = selectMove_set [OF il sm]
    have mM: "move \<in> M" using sp(3) less.prems(1) by auto
    have sub1: "fst ` set moves1 \<subseteq> M" using sp(2) less.prems(1) by simp
    have dec: "length moves1 - Suc i < length moves - i" using il sp(1) by simp
    define s1 where "s1 = s\<lparr>board := makeMove E (board s) move\<rparr>"
    have b1: "board s1 = makeMove E b move" by (simp add: s1_def less.prems(2))
    show ?thesis
    proof (cases "inCheck E (board s1) (invertColor (sideToMove E (board s1)))")
      case True
      have "board (s1\<lparr>board := unMakeMove E (board s1)\<rparr>) = b" using b1 inv by simp
      from less.hyps [OF dec sub1 this] obtain n x where
        "quiesceLoop E n dep beta ply (Suc i) moves1 locals (s1\<lparr>board := unMakeMove E (board s1)\<rparr>) = Some x"
        by blast
      then have "quiesceLoop E (Suc n) dep beta ply i moves locals s = Some x"
        using il sm True by (simp add: s1_def Let_def)
      then show ?thesis by blast
    next
      case legal: False
      have unf: "quiesceLoop E (Suc k) dep beta ply i moves locals s =
                (case quiesce E k (neg32 beta) (neg32 (fst locals)) (add32 ply 1) (sub32 dep 1) s1 of
                   None \<Rightarrow> None
                 | Some (v, s2) \<Rightarrow>
                    (case quiesceMove E dep beta ply move (neg32 v) locals s2 of
                       Return r \<Rightarrow> Some r
                     | Continue (locals1, s3) \<Rightarrow> quiesceLoop E k dep beta ply (Suc i) moves1 locals1 s3))"
        for k
        using il sm legal by (simp add: s1_def Let_def)
      from child [OF mM b1] obtain n1 v s2 where
        c: "quiesce E n1 (neg32 beta) (neg32 (fst locals)) (add32 ply 1) (sub32 dep 1) s1 = Some (v, s2)"
        by fastforce
      have b2: "board s2 = board s1" by (rule frame_q(1) [OF inv c])
      show ?thesis
      proof (cases "quiesceMove E dep beta ply move (neg32 v) locals s2")
        case (Return r)
        then have "quiesceLoop E (Suc n1) dep beta ply i moves locals s = Some r"
          using c unfolding unf by simp
        then show ?thesis by blast
      next
        case (Continue p)
        obtain l1 s3 where p: "p = (l1, s3)" by (cases p)
        have "board s3 = b"
          using quiesceMove_frame(2) [OF Continue [unfolded p]] b2 b1 inv by simp
        from less.hyps [OF dec sub1 this] obtain n2 x where
          l: "quiesceLoop E n2 dep beta ply (Suc i) moves1 l1 s3 = Some x"
          by blast
        have c': "quiesce E (max n1 n2) (neg32 beta) (neg32 (fst locals)) (add32 ply 1) (sub32 dep 1) s1
                    = Some (v, s2)"
          by (rule mono_quiesce [OF _ c]) simp
        have l': "quiesceLoop E (max n1 n2) dep beta ply (Suc i) moves1 l1 s3 = Some x"
          by (rule mono_quiesceLoop [OF _ l]) simp
        have "quiesceLoop E (Suc (max n1 n2)) dep beta ply i moves locals s = Some x"
          using c' l' Continue p unfolding unf by simp
        then show ?thesis by blast
      qed
    qed
  qed
qed

lemma quiesce_returns:
  assumes inv: "\<And>b m. unMakeMove E (makeMove E b m) = b"
    and rank: "\<And>b m. m \<in> set (tacticalMoves E b) \<Longrightarrow> (rank :: 'b \<Rightarrow> nat) (makeMove E b m) < rank b"
  shows "\<exists>n x. quiesce E n alpha beta ply dep s = Some x"
proof (induction "rank (board s)" arbitrary: s alpha beta ply dep rule: less_induct)
  case less
  obtain stp s1 where rs: "readStop E s = (stp, s1)" by (cases "readStop E s")
  have bs: "board s1 = board s" using readStop_frame [OF rs] by simp
  obtain hit ps a1 be1 hm t where gt:
    "getTransposition (TT_SIZE E) (tt s1) (hashCode E (board s1)) dep ply 0
       (if alpha < evaluate E (board s1) then evaluate E (board s1) else alpha) beta emptyMove
       = (hit, ps, a1, be1, hm, t)"
    by (metis prod_cases3)
  show ?case
  proof (cases "stp \<or> evaluate E (board s1) \<ge> beta
      \<or> add32 (evaluate E (board s1)) (mg_value E (QUEEN E - 1))
          < (if alpha < evaluate E (board s1) then evaluate E (board s1) else alpha) \<or> hit")
    case True
    then have "\<exists>x. quiesce E (Suc 0) alpha beta ply dep s = Some x"
      using rs gt by (auto simp: Let_def)
    then show ?thesis by blast
  next
    case False
    have "\<exists>n x. quiesceLoop E n dep be1 ply 0
                 (scoreTacticalMoves E (s1\<lparr>tt := t\<rparr>) (tacticalMoves E (board s1)) hm)
                 (a1, UPPERBOUND, emptyMove, INT32_MIN) (s1\<lparr>tt := t\<rparr>) = Some x"
    proof (rule quiesceLoop_returns [OF inv, where M = "set (tacticalMoves E (board s))" and b = "board s"])
      fix m al be pl de and s' :: "'b Search"
      assume "m \<in> set (tacticalMoves E (board s))" and b': "board s' = makeMove E (board s) m"
      then have "rank (board s') < rank (board s)" using rank by simp
      then show "\<exists>n x. quiesce E n al be pl de s' = Some x" by (rule less.hyps)
    next
      show "fst ` set (scoreTacticalMoves E (s1\<lparr>tt := t\<rparr>) (tacticalMoves E (board s1)) hm)
              \<subseteq> set (tacticalMoves E (board s))"
        by (simp add: fst_set_scoreTacticalMoves bs)
    next
      show "board (s1\<lparr>tt := t\<rparr>) = board s" using bs by simp
    qed
    then obtain n x where "quiesceLoop E n dep be1 ply 0
                 (scoreTacticalMoves E (s1\<lparr>tt := t\<rparr>) (tacticalMoves E (board s1)) hm)
                 (a1, UPPERBOUND, emptyMove, INT32_MIN) (s1\<lparr>tt := t\<rparr>) = Some x" by blast
    then have "quiesce E (Suc n) alpha beta ply dep s = Some x"
      using rs gt False by (auto simp: Let_def)
    then show ?thesis by blast
  qed
qed

lemma alphaBetaLoop_returns:
  assumes child: "\<And>alpha beta ply s1. \<exists>n x. alphaBeta E n (sub32 dep 1) alpha beta ply s1 = Some x"
  shows "\<exists>n x. alphaBetaLoop E n dep beta ply i moves hl locals s = Some x"
proof (induction "length moves - i" arbitrary: i moves hl locals s rule: less_induct)
  case less
  show ?case
  proof (cases "i < length moves")
    case False
    then have "alphaBetaLoop E (Suc 0) dep beta ply i moves hl locals s
                 = Some (alphaBetaExit E dep ply hl locals s)"
      by simp
    then show ?thesis by blast
  next
    case il: True
    obtain move moves1 where sm: "selectMove moves i = (move, moves1)" by (cases "selectMove moves i")
    note sp = selectMove_set [OF il sm]
    have dec: "length moves1 - Suc i < length moves - i" using il sp(1) by simp
    define s1 where "s1 = s\<lparr>board := makeMove E (board s) move\<rparr>"
    show ?thesis
    proof (cases "inCheck E (board s1) (invertColor (sideToMove E (board s1)))")
      case True
      from less.hyps [OF dec] obtain n x where
        "alphaBetaLoop E n dep beta ply (Suc i) moves1 hl locals (s1\<lparr>board := unMakeMove E (board s1)\<rparr>) = Some x"
        by blast
      then have "alphaBetaLoop E (Suc n) dep beta ply i moves hl locals s = Some x"
        using il sm True by (simp add: s1_def Let_def)
      then show ?thesis by blast
    next
      case legal: False
      obtain draw tf where dc: "drawCheck E (board s1) move = (draw, tf)" by (cases "drawCheck E (board s1) move")
      define ch where "ch = (\<lambda>k. if draw then Some (0, s1)
                      else (case alphaBeta E k (sub32 dep 1) (neg32 beta) (neg32 (fst locals)) (add32 ply 1) s1 of
                              None \<Rightarrow> None | Some (v, s2) \<Rightarrow> Some (neg32 v, s2)))"
      have unf: "alphaBetaLoop E (Suc k) dep beta ply i moves hl locals s =
                (case ch k of None \<Rightarrow> None
                 | Some (sc, s2) \<Rightarrow>
                    (case alphaBetaMove E dep beta ply move tf sc locals s2 of
                       Return r \<Rightarrow> Some r
                     | Continue (locals1, s3) \<Rightarrow> alphaBetaLoop E k dep beta ply (Suc i) moves1 True locals1 s3))"
        for k
        using il sm legal dc by (cases draw) (simp_all add: s1_def Let_def ch_def)
      obtain n0 v0 s0 where a0: "alphaBeta E n0 (sub32 dep 1) (neg32 beta) (neg32 (fst locals)) (add32 ply 1) s1
                                  = Some (v0, s0)"
        using child [of "neg32 beta" "neg32 (fst locals)" "add32 ply 1" s1] by fastforce
      have chm: "\<exists>sc s2. \<forall>k \<ge> n0. ch k = Some (sc, s2)"
      proof (cases draw)
        case True
        then show ?thesis by (simp add: ch_def)
      next
        case False
        have "\<forall>k \<ge> n0. ch k = Some (neg32 v0, s0)"
          using mono_alphaBeta [OF _ a0] False by (simp add: ch_def)
        then show ?thesis by blast
      qed
      then obtain sc s2 where c: "\<And>k. n0 \<le> k \<Longrightarrow> ch k = Some (sc, s2)" by blast
      show ?thesis
      proof (cases "alphaBetaMove E dep beta ply move tf sc locals s2")
        case (Return r)
        then have "alphaBetaLoop E (Suc n0) dep beta ply i moves hl locals s = Some r"
          using c [of n0] unfolding unf by simp
        then show ?thesis by blast
      next
        case (Continue p)
        obtain l1 s3 where p: "p = (l1, s3)" by (cases p)
        from less.hyps [OF dec] obtain n2 x where
          l: "alphaBetaLoop E n2 dep beta ply (Suc i) moves1 True l1 s3 = Some x"
          by blast
        have l': "alphaBetaLoop E (max n0 n2) dep beta ply (Suc i) moves1 True l1 s3 = Some x"
          by (rule mono_alphaBetaLoop [OF _ l]) simp
        have "alphaBetaLoop E (Suc (max n0 n2)) dep beta ply i moves hl locals s = Some x"
          using c [of "max n0 n2"] l' Continue p unfolding unf by simp
        then show ?thesis by blast
      qed
    qed
  qed
qed

lemma alphaBeta_returns:
  assumes inv: "\<And>b m. unMakeMove E (makeMove E b m) = b"
    and rank: "\<And>b m. m \<in> set (tacticalMoves E b) \<Longrightarrow> (rank :: 'b \<Rightarrow> nat) (makeMove E b m) < rank b"
  shows "0 \<le> dep \<Longrightarrow> dep < 2147483648 \<Longrightarrow> \<exists>n x. alphaBeta E n dep alpha beta ply s = Some x"
proof (induction "nat dep" arbitrary: dep alpha beta ply s)
  case 0
  then have d: "dep = 0" by simp
  obtain stp s1 where rs: "readStop E s = (stp, s1)" by (cases "readStop E s")
  from quiesce_returns [OF inv rank] obtain n x where q: "quiesce E n alpha beta ply 0 s1 = Some x"
    by blast
  show ?case
  proof (cases stp)
    case True
    then have "alphaBeta E (Suc 0) dep alpha beta ply s = Some (0, s1)" using rs by simp
    then show ?thesis by blast
  next
    case False
    then have "alphaBeta E (Suc n) dep alpha beta ply s = Some x" using rs d q by simp
    then show ?thesis by blast
  qed
next
  case (Suc d)
  have gt0: "0 < dep" using Suc.hyps(2) by simp
  then have pos: "dep \<noteq> 0" and sb: "sub32 dep 1 = dep - 1" and d1: "d = nat (dep - 1)"
    using Suc.hyps(2) Suc.prems by (simp_all add: sub32_id)
  have child: "\<exists>n x. alphaBeta E n (sub32 dep 1) al be pl s1 = Some x" for al be pl s1
    unfolding sb using Suc.prems gt0 by (intro Suc.hyps(1) d1) simp_all
  obtain stp s1 where rs: "readStop E s = (stp, s1)" by (cases "readStop E s")
  obtain hit ps a1 be1 hm t where gt:
    "getTransposition (TT_SIZE E) (tt s1) (hashCode E (board s1)) dep ply 0 alpha beta emptyMove
       = (hit, ps, a1, be1, hm, t)"
    by (metis prod_cases3)
  show ?case
  proof (cases "stp \<or> hit \<or> min be1 (sub32 MATE_SCORE ply) \<le> max a1 (add32 (- MATE_SCORE) ply)")
    case True
    then have "\<exists>x. alphaBeta E (Suc 0) dep alpha beta ply s = Some x"
      using rs gt pos by (auto simp: Let_def)
    then show ?thesis by blast
  next
    case False
    from alphaBetaLoop_returns [OF child] obtain n x where
      "alphaBetaLoop E n dep (min be1 (sub32 MATE_SCORE ply)) ply 0
         (scoreMoves E (s1\<lparr>tt := t\<rparr>) (pseudoLegalMoves E (board s1)) ply hm) False
         (max a1 (add32 (- MATE_SCORE) ply), UPPERBOUND, emptyMove, INT32_MIN, False) (s1\<lparr>tt := t\<rparr>) = Some x"
      by blast
    then have "alphaBeta E (Suc n) dep alpha beta ply s = Some x"
      using rs gt pos False by (auto simp: Let_def)
    then show ?thesis by blast
  qed
qed

text \<open>
  Claim C9.  Provided \<open>unMakeMove\<close> undoes \<open>makeMove\<close>, every call of \<open>alphaBeta\<close> and of
  \<open>quiesce\<close> that returns leaves the board as it received it, whatever the moves, the
  table, the window and the values of the stop flag at its reads: moves that leave the
  king in check, moves scored as draws, beta cutoffs and cancelled searches included.
  And the calls do return: when some measure \<open>rank\<close> of the board decreases with every
  tactical move, \<open>quiesce\<close> and, for a depth from 0 on, \<open>alphaBeta\<close> return with enough
  fuel, the board restored.
\<close>

theorem search_restores_board:
  assumes "\<forall>b m. unMakeMove E (makeMove E b m) = b"
  shows "(alphaBeta E n dep alpha beta ply s = Some (r, s') \<longrightarrow> board s' = board s)
       \<and> (quiesce E n alpha beta ply dep s = Some (r, s') \<longrightarrow> board s' = board s)
       \<and> ((\<forall>b m. m \<in> set (tacticalMoves E b) \<longrightarrow> (rank :: 'b \<Rightarrow> nat) (makeMove E b m) < rank b)
            \<longrightarrow> (\<exists>k v t. quiesce E k alpha beta ply dep s = Some (v, t) \<and> board t = board s)
              \<and> (0 \<le> dep \<and> dep < 2147483648
                    \<longrightarrow> (\<exists>k v t. alphaBeta E k dep alpha beta ply s = Some (v, t) \<and> board t = board s)))"
proof -
  have inv: "unMakeMove E (makeMove E b m) = b" for b m
    using assms by simp
  have part: "(alphaBeta E n dep alpha beta ply s = Some (r, s') \<longrightarrow> board s' = board s)
       \<and> (quiesce E n alpha beta ply dep s = Some (r, s') \<longrightarrow> board s' = board s)"
    using frame_ab(1) [OF inv] frame_q(1) [OF inv] by blast
  have total: "(\<exists>k v t. quiesce E k alpha beta ply dep s = Some (v, t) \<and> board t = board s)
              \<and> (0 \<le> dep \<and> dep < 2147483648
                    \<longrightarrow> (\<exists>k v t. alphaBeta E k dep alpha beta ply s = Some (v, t) \<and> board t = board s))"
    if rk: "\<forall>b m. m \<in> set (tacticalMoves E b) \<longrightarrow> rank (makeMove E b m) < rank b"
  proof (intro conjI impI)
    have dec: "rank (makeMove E b m) < rank b" if "m \<in> set (tacticalMoves E b)" for b m
      using rk that by simp
    obtain k v t where q: "quiesce E k alpha beta ply dep s = Some (v, t)"
      using quiesce_returns [OF inv dec, of alpha beta ply dep s] by fastforce
    have "board t = board s" by (rule frame_q(1) [OF inv q])
    then show "\<exists>k v t. quiesce E k alpha beta ply dep s = Some (v, t) \<and> board t = board s"
      using q by blast
    assume "0 \<le> dep \<and> dep < 2147483648"
    then obtain k' v' t' where a: "alphaBeta E k' dep alpha beta ply s = Some (v', t')"
      using alphaBeta_returns [OF inv dec, of dep alpha beta ply s] by fastforce
    have "board t' = board s" by (rule frame_ab(1) [OF inv a])
    then show "\<exists>k v t. alphaBeta E k dep alpha beta ply s = Some (v, t) \<and> board t = board s"
      using a by blast
  qed
  show ?thesis
    using part total by blast
qed

text \<open>
  A search of depth 2 that is cancelled at the fourth read of the stop flag, with a move
  made on the board: it returns 0 and the board is the root again.  And a search of
  depth 1 of the game with a capture returns, the board restored, the measure being 1
  on the root and 0 elsewhere.
\<close>

theorem search_restores_board_witness:
  "map_option (\<lambda>(v, s). (v, board s))
     (alphaBeta cancelGame 50 2 (INT32_MIN + 1) INT32_MAX 0 (freshSearch [0])) = Some (0, [0])
   \<and> (\<exists>k v t. alphaBeta captureGame k 1 (INT32_MIN + 1) INT32_MAX 0 (freshSearch [0]) = Some (v, t)
               \<and> board t = [0])"
proof
  have inv: "\<forall>b m. unMakeMove cancelGame (makeMove cancelGame b m) = b"
    by (simp add: cancelGame_def transpositionGame_def toyGame_def)
  have "map_option fst (alphaBeta cancelGame 50 2 (INT32_MIN + 1) INT32_MAX 0 (freshSearch [0])) = Some 0"
    by code_simp
  then obtain s' where run: "alphaBeta cancelGame 50 2 (INT32_MIN + 1) INT32_MAX 0 (freshSearch [0]) = Some (0, s')"
    by auto
  have "board s' = board (freshSearch [0::nat])"
    using search_restores_board [OF inv, of 50 2 "INT32_MIN + 1" INT32_MAX 0 "freshSearch [0]" 0 s'] run
    by blast
  then show "map_option (\<lambda>(v, s). (v, board s))
     (alphaBeta cancelGame 50 2 (INT32_MIN + 1) INT32_MAX 0 (freshSearch [0])) = Some (0, [0])"
    using run by (simp add: freshSearch_def)
next
  have inv: "\<forall>b m. unMakeMove captureGame (makeMove captureGame b m) = b"
    by (simp add: captureGame_def transpositionGame_def toyGame_def)
  have rk: "\<forall>b m. m \<in> set (tacticalMoves captureGame b)
              \<longrightarrow> (\<lambda>b. if cur b = 0 then 1 else 0 :: nat) (makeMove captureGame b m)
                    < (\<lambda>b. if cur b = 0 then 1 else 0) b"
    by (simp add: captureGame_def transpositionGame_def toyGame_def cur_def)
  have "\<exists>k v t. alphaBeta captureGame k 1 (INT32_MIN + 1) INT32_MAX 0 (freshSearch [0]) = Some (v, t)
               \<and> board t = board (freshSearch [0::nat])"
    using search_restores_board [OF inv, where rank = "\<lambda>b. if cur b = 0 then 1 else 0" and dep = 1
        and alpha = "INT32_MIN + 1" and beta = INT32_MAX and ply = 0 and s = "freshSearch [0]"] rk
    by simp
  then show "\<exists>k v t. alphaBeta captureGame k 1 (INT32_MIN + 1) INT32_MAX 0 (freshSearch [0]) = Some (v, t)
               \<and> board t = [0]"
    by (simp add: freshSearch_def)
qed
subsection \<open>Comparison with exhaustive minimax\<close>

lemma selectMove_props:
  assumes "i < length moves" and "selectMove moves i = (move, moves1)"
  shows "length moves1 = length moves"
    and "fst ` set (drop i moves) = insert move (fst ` set (drop (Suc i) moves1))"
proof -
  define sel where "sel = fold (\<lambda>j sel. if snd (moves ! j) > snd (moves ! sel) then j else sel)
                            [Suc i ..< length moves] i"
  have "sel \<in> insert i (set [Suc i ..< length moves])"
    unfolding sel_def by (rule fold_select_in)
  then have sr: "i \<le> sel" "sel < length moves"
    using assms(1) by auto
  have m1: "moves1 = moves[sel := moves ! i, i := moves ! sel]" and mv: "move = fst (moves ! sel)"
    using assms(2) by (simp_all add: selectMove_def Let_def sel_def [symmetric])
  show len: "length moves1 = length moves"
    by (simp add: m1)
  have ms: "mset moves1 = mset moves"
    unfolding m1 using assms(1) sr(2) by (rule mset_swap)
  have tk: "take i moves1 = take i moves"
    using sr(1) by (simp add: m1)
  have "mset (take i moves1) + mset (drop i moves1) = mset (take i moves) + mset (drop i moves)"
    using ms by (metis append_take_drop_id mset_append)
  then have "mset (drop i moves1) = mset (drop i moves)"
    using tk by simp
  then have st: "set (drop i moves1) = set (drop i moves)"
    by (rule mset_eq_setD)
  have "drop i moves1 = moves1 ! i # drop (Suc i) moves1"
    using assms(1) len by (simp add: Cons_nth_drop_Suc)
  moreover have "moves1 ! i = moves ! sel"
    using assms(1) by (simp add: m1)
  ultimately have "set (drop i moves1) = insert (moves ! sel) (set (drop (Suc i) moves1))"
    by simp
  then show "fst ` set (drop i moves) = insert move (fst ` set (drop (Suc i) moves1))"
    using st mv by simp
qed

lemma maxValues_Some:
  "maxValues best vs = Some v \<Longrightarrow> (\<forall>w \<in> set vs. w \<noteq> None) \<and> v = Max (insert best (the ` set vs))"
proof (induction best vs rule: maxValues.induct)
  case (1 best)
  then show ?case by simp
next
  case (2 best vs)
  then show ?case by simp
next
  case (3 best w vs)
  then have ih: "(\<forall>w \<in> set vs. w \<noteq> None)" "v = Max (insert (max best w) (the ` set vs))"
    by simp_all
  have "Max (insert (max best w) (the ` set vs)) = Max (insert best (insert w (the ` set vs)))"
    by (cases "the ` set vs = {}") (simp_all add: max.assoc)
  then show ?case using ih by simp
qed

lemma bestOf_Some:
  "bestOf acc xs = Some res \<Longrightarrow>
     (\<forall>x \<in> set xs. snd x \<noteq> None)
     \<and> (case acc of
          None \<Rightarrow> (xs = [] \<and> res = None)
                   \<or> (xs \<noteq> [] \<and> (\<exists>m. res = Some (m, Max ((\<lambda>x. the (snd x)) ` set xs))))
        | Some (bm, bv) \<Rightarrow> (\<exists>m. res = Some (m, Max (insert bv ((\<lambda>x. the (snd x)) ` set xs)))))"
proof (induction acc xs rule: bestOf.induct)
  case (1 best)
  then show ?case by (auto split: option.splits)
next
  case (2 best m vs)
  then show ?case by simp
next
  case (3 m v vs)
  then show ?case by (auto split: option.splits)
next
  case (4 bm bv m v vs)
  let ?S = "(\<lambda>x. the (snd x)) ` set vs"
  have eq: "Max (insert (if v > bv then v else bv) ?S) = Max (insert bv (insert v ?S))"
    by (cases "?S = {}") (auto simp: max_def)
  show ?case
  proof (cases "v > bv")
    case True
    then show ?thesis using 4 eq by (auto simp: insert_commute)
  next
    case False
    then show ?thesis using 4 eq by (auto simp: insert_commute)
  qed
qed

lemma within_neg: "within v a b r \<Longrightarrow> within (- v) (- b) (- a) (- r)"
  by (auto simp: within_def)

lemma within_bound: "within v a b r \<Longrightarrow> \<bar>v\<bar> \<le> c \<Longrightarrow> \<bar>a\<bar> \<le> c \<Longrightarrow> \<bar>b\<bar> \<le> c \<Longrightarrow> a < b \<Longrightarrow> \<bar>r\<bar> \<le> c"
  unfolding within_def by linarith

lemma loop_cutoff:
  assumes "within (val m) a b sc" "b \<le> sc" "a < b" "finite R"
  shows "loopRes (Max (val ` insert m R)) a b sc"
proof -
  have "b \<le> val m" "sc \<le> val m"
    using assms(1-3) unfolding within_def by linarith+
  moreover have "val m \<le> Max (val ` insert m R)"
    using assms(4) by simp
  ultimately show ?thesis
    using assms(2,3) unfolding loopRes_def by linarith
qed

lemma loop_continue:
  assumes "within (val m) a b sc" "sc < b" "a < b" "finite R"
    and "a1 = (if sc > a then sc else a)"
    and "R = {} \<longrightarrow> r = a1"
    and "R \<noteq> {} \<longrightarrow> loopRes (Max (val ` R)) a1 b r"
  shows "loopRes (Max (val ` insert m R)) a b r"
proof (cases "R = {}")
  case True
  then have "Max (val ` insert m R) = val m" by simp
  moreover have "r = a1" using True assms(6) by simp
  ultimately show ?thesis
    using assms(1,2,3,5) unfolding loopRes_def within_def by (auto split: if_splits)
next
  case False
  then have mx: "Max (val ` insert m R) = max (val m) (Max (val ` R))"
    using assms(4) by simp
  have lr: "loopRes (Max (val ` R)) a1 b r" using False assms(7) by simp
  show ?thesis
    using lr assms(1,2,3,5) unfolding mx loopRes_def within_def max_def by (auto split: if_splits)
qed

lemma set_legalMoves: "set (legalMoves E b ms) = {m \<in> set ms. legal E b m}"
  by (auto simp: legalMoves_def legal_def)

lemma minimaxQ_SomeD:
  assumes "minimaxQ E k b = Some v"
  obtains k1 where "k = Suc k1"
    and "\<forall>m \<in> set (legalMoves E b (tacticalMoves E b)). \<exists>w. qval E k1 b m = Some w"
    and "v = Max (insert (evaluate E b) ((\<lambda>m. the (qval E k1 b m)) ` set (legalMoves E b (tacticalMoves E b))))"
proof (cases k)
  case 0
  then show ?thesis using assms by simp
next
  case (Suc k1)
  let ?ms = "legalMoves E b (tacticalMoves E b)"
  have mv: "maxValues (evaluate E b) (map (qval E k1 b) ?ms) = Some v"
    using assms Suc by (simp add: qval_def [abs_def])
  from maxValues_Some [OF mv]
  have d: "\<forall>w \<in> set (map (qval E k1 b) ?ms). w \<noteq> None"
    and m: "v = Max (insert (evaluate E b) (the ` set (map (qval E k1 b) ?ms)))"
    by simp_all
  have 1: "\<forall>m \<in> set ?ms. \<exists>w. qval E k1 b m = Some w"
    using d by auto
  have 2: "the ` set (map (qval E k1 b) ?ms) = (\<lambda>m. the (qval E k1 b m)) ` set ?ms"
    by (simp add: image_image)
  show ?thesis
    using that [OF Suc 1] m 2 by simp
qed

lemma minimaxQ_range:
  assumes ev: "\<And>b. \<bar>evaluate E b\<bar> \<le> K"
  shows "minimaxQ E k b = Some v \<Longrightarrow> \<bar>v\<bar> \<le> K"
proof (induction k arbitrary: b v)
  case 0
  then show ?case by simp
next
  case (Suc k)
  let ?ms = "legalMoves E b (tacticalMoves E b)"
  let ?S = "insert (evaluate E b) ((\<lambda>m. the (qval E k b m)) ` set ?ms)"
  from minimaxQ_SomeD [OF Suc.prems] 
  have df: "\<forall>m \<in> set ?ms. \<exists>w. qval E k b m = Some w" and v: "v = Max ?S"
    by (metis nat.inject)+
  have "v \<in> ?S" unfolding v by (rule Max_in) simp_all
  then consider "v = evaluate E b" | m where "m \<in> set ?ms" "v = the (qval E k b m)"
    by auto
  then show ?case
  proof cases
    case 1
    then show ?thesis using ev by simp
  next
    case 2
    then obtain w where w: "qval E k b m = Some w" using df by blast
    then obtain u where u: "minimaxQ E k (makeMove E b m) = Some u" "w = - u"
      by (auto simp: qval_def)
    have "\<bar>u\<bar> \<le> K" using Suc.IH [OF u(1)] .
    then show ?thesis using 2 w u by simp
  qed
qed

lemma minimax_SucD:
  assumes "minimax E k (Suc d) ply b = Some (v, mv)"
  shows "\<forall>m \<in> set (legalMoves E b (pseudoLegalMoves E b)). \<exists>w. mval E k d ply b m = Some w"
    and "legalMoves E b (pseudoLegalMoves E b) = [] \<Longrightarrow> v = terminal E ply b"
    and "legalMoves E b (pseudoLegalMoves E b) \<noteq> []
          \<Longrightarrow> v = Max ((\<lambda>m. the (mval E k d ply b m)) ` set (legalMoves E b (pseudoLegalMoves E b)))"
proof -
  let ?ms = "legalMoves E b (pseudoLegalMoves E b)"
  let ?xs = "map (\<lambda>m. (m, mval E k d ply b m)) ?ms"
  obtain res where bo: "bestOf None ?xs = Some res"
    using assms by (auto simp: mval_def [abs_def] split: option.splits)
  have v: "(case res of None \<Rightarrow> (terminal E ply b, None) | Some (m, w) \<Rightarrow> (w, Some m)) = (v, mv)"
    using assms bo by (auto simp: mval_def [abs_def] terminal_def split: option.splits)
  from bestOf_Some [OF bo]
  have d: "\<forall>x \<in> set ?xs. snd x \<noteq> None"
    and c: "(?xs = [] \<and> res = None) \<or> (?xs \<noteq> [] \<and> (\<exists>m. res = Some (m, Max ((\<lambda>x. the (snd x)) ` set ?xs))))"
    by simp_all
  show "\<forall>m \<in> set ?ms. \<exists>w. mval E k d ply b m = Some w"
    using d by auto
  have im: "(\<lambda>x. the (snd x)) ` set ?xs = (\<lambda>m. the (mval E k d ply b m)) ` set ?ms"
    by (simp add: image_image)
  show "v = terminal E ply b" if "?ms = []"
    using that c v by auto
  show "v = Max ((\<lambda>m. the (mval E k d ply b m)) ` set ?ms)" if "?ms \<noteq> []"
    using that c v im by auto
qed

lemma minimax_range:
  assumes ev: "\<And>b. \<bar>evaluate E b\<bar> \<le> K"
  shows "minimax E k d ply b = Some (v, mv) \<Longrightarrow> 0 \<le> ply \<Longrightarrow> K + ply + int d < MATE_SCORE
    \<Longrightarrow> - (MATE_SCORE - ply) \<le> v \<and> v < MATE_SCORE - ply
        \<and> (d = 0 \<or> legalMoves E b (pseudoLegalMoves E b) \<noteq> [] \<longrightarrow> - (MATE_SCORE - ply) < v)"
proof (induction d arbitrary: ply b v mv)
  case 0
  have K0: "0 \<le> K" using ev [of b] by linarith
  from 0 obtain w where "minimaxQ E k b = Some w" "v = w" by auto
  then have "\<bar>v\<bar> \<le> K" using minimaxQ_range [OF ev] by blast
  then show ?case using 0 K0 by auto
next
  case (Suc d)
  have K0: "0 \<le> K" using ev [of b] by linarith
  let ?ms = "legalMoves E b (pseudoLegalMoves E b)"
  note D = minimax_SucD [OF Suc.prems(1)]
  show ?case
  proof (cases "?ms = []")
    case True
    then have "v = terminal E ply b" using D(2) by simp
    then show ?thesis using True Suc.prems K0 by (auto simp: terminal_def)
  next
    case False
    let ?S = "(\<lambda>m. the (mval E k d ply b m)) ` set ?ms"
    have "v = Max ?S" using D(3) False by simp
    moreover have "Max ?S \<in> ?S" using False by (intro Max_in) simp_all
    ultimately obtain m where m: "m \<in> set ?ms" "v = the (mval E k d ply b m)" by auto
    then obtain w where w: "mval E k d ply b m = Some w" using D(1) by blast
    have "- (MATE_SCORE - ply) + 2 \<le> w \<and> w \<le> MATE_SCORE - ply - 1"
    proof (cases "fst (drawCheck E (makeMove E b m) m)")
      case True
      then have "w = 0" using w by (simp add: mval_def)
      then show ?thesis using Suc.prems K0 by simp
    next
      case False
      then obtain u mu where u: "minimax E k d (ply + 1) (makeMove E b m) = Some (u, mu)" "w = - u"
        using w by (auto simp: mval_def)
      have "- (MATE_SCORE - (ply + 1)) \<le> u \<and> u < MATE_SCORE - (ply + 1)"
        using Suc.IH [OF u(1)] Suc.prems by simp
      then show ?thesis using u(2) by simp
    qed
    then show ?thesis using m w False by simp
  qed
qed

lemma QpropD:
  assumes "Qprop E K n" "quiesce E n alpha beta ply dep s = Some (r, s')"
    "quiesceUnaided E n alpha beta ply dep s" "okWin alpha beta"
    "minimaxQ E k (board s) = Some v"
  shows "within v alpha beta r"
  by (rule assms(1) [unfolded Qprop_def, rule_format, OF assms(2-)])

lemma QLpropD:
  assumes "QLprop E K n" "quiesceLoop E n dep beta ply i moves locals s = Some (r, s')"
    "quiesceLoopUnaided E n dep beta ply i moves locals s"
    "okWin (fst locals) beta"
    "\<forall>m \<in> fst ` set (drop i moves). legal E (board s) m \<longrightarrow> qval E k (board s) m = Some (val m)"
    "R = {m \<in> fst ` set (drop i moves). legal E (board s) m}"
  shows "(R = {} \<longrightarrow> r = fst locals) \<and> (R \<noteq> {} \<longrightarrow> loopRes (Max (val ` R)) (fst locals) beta r)"
  by (rule assms(1) [unfolded QLprop_def, rule_format, OF assms(2-4) assms(5) [rule_format] assms(6)])

lemma quiesceMove_cases:
  assumes "\<And>n. \<not> stopFlag E n"
  shows "quiesceMove E dep beta ply move sc locals s2 = Return x \<Longrightarrow> beta \<le> sc \<and> fst x = sc"
    and "quiesceMove E dep beta ply move sc locals s2 = Continue (l, s3)
          \<Longrightarrow> sc < beta \<and> fst l = (if sc > fst locals then sc else fst locals)"
  using assms
  by (cases locals; auto simp: quiesceMove_def readStop_def Let_def split: if_splits)+

lemma QL_step:
  assumes f: "fair E K" and Q: "Qprop E K n" and QL: "QLprop E K n"
  shows "QLprop E K (Suc n)"
  unfolding QLprop_def
proof (intro allI impI)
  fix dep beta ply i moves locals s r s' k val R
  assume run: "quiesceLoop E (Suc n) dep beta ply i moves locals s = Some (r, s')"
    and ua: "quiesceLoopUnaided E (Suc n) dep beta ply i moves locals s"
    and win: "okWin (fst locals) beta"
    and vals: "\<forall>m \<in> fst ` set (drop i moves). legal E (board s) m \<longrightarrow> qval E k (board s) m = Some (val m)"
    and R: "R = {m \<in> fst ` set (drop i moves). legal E (board s) m}"
  have nostop: "\<And>n. \<not> stopFlag E n" and inv: "\<And>b m. unMakeMove E (makeMove E b m) = b"
    and ev: "\<And>b. \<bar>evaluate E b\<bar> \<le> K" and KM: "K < MATE_SCORE"
    using f by (auto simp: fair_def)
  note frame = search_frame [OF inv, of n]
  show "(R = {} \<longrightarrow> r = fst locals) \<and> (R \<noteq> {} \<longrightarrow> loopRes (Max (val ` R)) (fst locals) beta r)"
  proof (cases "i < length moves")
    case False
    then have "R = {}" using R by simp
    moreover have "r = fst locals"
      using run False by (cases locals) (simp add: quiesceExit_def)
    ultimately show ?thesis by simp
  next
    case il: True
    obtain move moves1 where sm: "selectMove moves i = (move, moves1)" by (cases "selectMove moves i")
    note sp = selectMove_props [OF il sm]
    define R1 where "R1 = {m \<in> fst ` set (drop (Suc i) moves1). legal E (board s) m}"
    have fin: "finite R1" by (simp add: R1_def)
    have vals1: "\<forall>m \<in> fst ` set (drop (Suc i) moves1). legal E (board s) m \<longrightarrow> qval E k (board s) m = Some (val m)"
      using vals sp(2) by blast
    define s1 where "s1 = s\<lparr>board := makeMove E (board s) move\<rparr>"
    have bs1: "board s1 = makeMove E (board s) move" "rd s1 = rd s" by (simp_all add: s1_def rd_def)
    show ?thesis
    proof (cases "legal E (board s) move")
      case False
      then have ic: "inCheck E (board s1) (invertColor (sideToMove E (board s1)))"
        by (simp add: legal_def bs1)
      have bk: "s1\<lparr>board := unMakeMove E (board s1)\<rparr> = s"
        by (simp add: s1_def inv)
      then have run1: "quiesceLoop E n dep beta ply (Suc i) moves1 locals s = Some (r, s')"
        using run il sm ic by (simp add: s1_def Let_def)
      have ua1: "quiesceLoopUnaided E n dep beta ply (Suc i) moves1 locals s"
        using ua il sm ic bk by (simp add: s1_def Let_def)
      have Req: "R = R1" using R sp(2) False by (auto simp: R1_def)
      from QLpropD [OF QL run1 ua1 win vals1 R1_def]
      show ?thesis unfolding Req .
    next
      case lg: True
      then have ic: "\<not> inCheck E (board s1) (invertColor (sideToMove E (board s1)))"
        by (simp add: legal_def bs1)
      have Req: "R = insert move R1" using R sp(2) lg by (auto simp: R1_def)
      have step: "(case quiesce E n (neg32 beta) (neg32 (fst locals)) (add32 ply 1) (sub32 dep 1) s1 of
                     None \<Rightarrow> None
                   | Some (v, s2) \<Rightarrow>
                      (case quiesceMove E dep beta ply move (neg32 v) locals s2 of
                         Return r \<Rightarrow> Some r
                       | Continue (locals1, s3) \<Rightarrow> quiesceLoop E n dep beta ply (Suc i) moves1 locals1 s3))
                  = Some (r, s')"
        using run il sm ic by (simp add: s1_def Let_def)
      then obtain vc s2 where ch: "quiesce E n (neg32 beta) (neg32 (fst locals)) (add32 ply 1) (sub32 dep 1) s1 = Some (vc, s2)"
        by (cases "quiesce E n (neg32 beta) (neg32 (fst locals)) (add32 ply 1) (sub32 dep 1) s1") auto
      have uas: "quiesceUnaided E n (neg32 beta) (neg32 (fst locals)) (add32 ply 1) (sub32 dep 1) s1
                 \<and> (case quiesceMove E dep beta ply move (neg32 vc) locals s2 of
                       Return r \<Rightarrow> True
                     | Continue (locals1, s3) \<Rightarrow> quiesceLoopUnaided E n dep beta ply (Suc i) moves1 locals1 s3)"
        using ua il sm ic ch by (simp add: s1_def Let_def)
      then have uac: "quiesceUnaided E n (neg32 beta) (neg32 (fst locals)) (add32 ply 1) (sub32 dep 1) s1"
        by simp
      have fr2: "board s2 = board s1" "rd s1 \<le> rd s2" using frame ch by blast+
      have wc: "within (- val move) (- beta) (- fst locals) vc"
        if "minimaxQ E k (board s1) = Some (- val move)"
        using QpropD [OF Q ch uac _ that] win by (simp add: okWin_def neg32_id)
      have un: "unMakeMove E (board s2) = board s" using fr2 by (simp add: bs1 inv)
      have ng: "neg32 beta = - beta" "neg32 (fst locals) = - fst locals"
        using win by (simp_all add: okWin_def neg32_id)
      have qv: "qval E k (board s) move = Some (val move)"
        using vals sp(2) lg by blast
      then have ref: "minimaxQ E k (board s1) = Some (- val move)"
        by (auto simp: qval_def bs1)
      have vb: "\<bar>val move\<bar> \<le> K" using minimaxQ_range [OF ev ref] by simp
      show ?thesis
      proof (cases "quiesceMove E dep beta ply move (neg32 vc) locals s2")
        case (Return x)
        then have x: "x = (r, s')" using step ch by simp
        note wc = wc [OF ref]
        have "\<bar>vc\<bar> \<le> 2147483647"
          using within_bound [OF wc, of 2147483647] vb KM win by (simp add: okWin_def MATE_SCORE_def)
        then have sc: "neg32 vc = - vc" by (rule neg32_id)
        have w: "within (val move) (fst locals) beta (- vc)"
          using within_neg [OF wc] by simp
        have "beta \<le> - vc \<and> r = - vc"
          using quiesceMove_cases(1) [OF nostop Return] x sc by simp
        then show ?thesis
          using loop_cutoff [where val = val and m = move, OF w _ _ fin] win Req by (simp add: okWin_def)
      next
        case (Continue x)
        obtain l1 s3 where x: "x = (l1, s3)" by (cases x)
        have run1: "quiesceLoop E n dep beta ply (Suc i) moves1 l1 s3 = Some (r, s')"
          using step ch Continue x by simp
        have fr3: "board s3 = board s" "rd s3 = rd s2"
          using quiesceMove_frame(2) Continue x un by (metis)+
        have ua3: "quiesceLoopUnaided E n dep beta ply (Suc i) moves1 l1 s3"
          using uas Continue x by simp
        note wc = wc [OF ref]
        have "\<bar>vc\<bar> \<le> 2147483647"
          using within_bound [OF wc, of 2147483647] vb KM win by (simp add: okWin_def MATE_SCORE_def)
        then have sc: "neg32 vc = - vc" by (rule neg32_id)
        have w: "within (val move) (fst locals) beta (- vc)"
          using within_neg [OF wc] by simp
        have cs: "- vc < beta" "fst l1 = (if - vc > fst locals then - vc else fst locals)"
          using quiesceMove_cases(2) [OF nostop, of dep beta ply move "neg32 vc" locals s2 l1 s3] Continue x sc by simp_all
        have win1: "okWin (fst l1) beta"
          using win cs \<open>\<bar>vc\<bar> \<le> 2147483647\<close> by (auto simp: okWin_def)
        have vals3: "\<forall>m \<in> fst ` set (drop (Suc i) moves1). legal E (board s3) m \<longrightarrow> qval E k (board s3) m = Some (val m)"
          using vals1 fr3 by simp
        have R3: "R1 = {m \<in> fst ` set (drop (Suc i) moves1). legal E (board s3) m}"
          using fr3 by (simp add: R1_def)
        from QLpropD [OF QL run1 ua3 win1 vals3 R3]
        have rest: "R1 = {} \<longrightarrow> r = fst l1" "R1 \<noteq> {} \<longrightarrow> loopRes (Max (val ` R1)) (fst l1) beta r"
          by simp_all
        have "loopRes (Max (val ` insert move R1)) (fst locals) beta r"
          using loop_continue [where val = val and m = move, OF w cs(1) _ fin cs(2) rest] win by (simp add: okWin_def)
        then show ?thesis using Req by simp
      qed
    qed
  qed
qed

lemma within_refl: "within v a b v"
  by (simp add: within_def)

lemma q_combine_empty: "sp < b \<Longrightarrow> a < b \<Longrightarrow> within sp a b (max a sp)"
  by (auto simp: within_def max_def)

lemma q_combine: "sp < b \<Longrightarrow> a < b \<Longrightarrow> loopRes V (max a sp) b r \<Longrightarrow> within (max sp V) a b r"
  by (auto simp: within_def loopRes_def max_def split: if_splits)

lemma ab_combine:
  "L < v \<Longrightarrow> v < U \<Longrightarrow> a < b \<Longrightarrow> loopRes v (max a L) (min b U) r \<Longrightarrow> within v a b r"
  by (auto simp: within_def loopRes_def max_def min_def split: if_splits)

lemma ab_clamp:
  "L \<le> v \<Longrightarrow> v < U \<Longrightarrow> a < b \<Longrightarrow> min b U \<le> max a L \<Longrightarrow> within v a b (max a L)"
  by (auto simp: within_def max_def min_def split: if_splits)

lemma fst_set_scoreMoves: "fst ` set (scoreMoves E s ms ply hm) = set ms"
  by (simp add: scoreMoves_def image_image)

lemma Q_step:
  assumes f: "fair E K" and QL: "QLprop E K n"
  shows "Qprop E K (Suc n)"
  unfolding Qprop_def
proof (intro allI impI)
  fix alpha beta ply dep s r s' k v
  assume run: "quiesce E (Suc n) alpha beta ply dep s = Some (r, s')"
    and ua: "quiesceUnaided E (Suc n) alpha beta ply dep s" and win: "okWin alpha beta"
    and ref: "minimaxQ E k (board s) = Some v"
  have nostop: "\<And>n. \<not> stopFlag E n" and inv: "\<And>b m. unMakeMove E (makeMove E b m) = b"
    and ev: "\<And>b. \<bar>evaluate E b\<bar> \<le> K" and KM: "K < MATE_SCORE"
    and Q0: "0 \<le> mg_value E (QUEEN E - 1)" and Q1: "mg_value E (QUEEN E - 1) \<le> 1073741824"
    and delta: "\<And>k b w. minimaxQ E k b = Some w \<Longrightarrow> w \<le> evaluate E b + mg_value E (QUEEN E - 1)"
    using f by (auto simp: fair_def)
  note frame = search_frame [OF inv, of n]
  define s1 where "s1 = s\<lparr>stopReads := Suc (stopReads s)\<rparr>"
  have rs: "readStop E s = (False, s1)" by (simp add: readStop_def s1_def nostop)
  have b1: "board s1 = board s" "rd s1 = rd s" by (simp_all add: s1_def rd_def)
  define sp where "sp = evaluate E (board s)"
  define qv where "qv = mg_value E (QUEEN E - 1)"
  let ?ms = "legalMoves E (board s) (tacticalMoves E (board s))"
  obtain k1 where k1: "k = Suc k1"
    and df: "\<forall>m \<in> set ?ms. \<exists>w. qval E k1 (board s) m = Some w"
    and vm: "v = Max (insert sp ((\<lambda>m. the (qval E k1 (board s) m)) ` set ?ms))"
    using minimaxQ_SomeD [OF ref] unfolding sp_def by metis
  have vsp: "sp \<le> v" unfolding vm by (rule Max_ge) simp_all
  have vd: "v \<le> sp + qv" using delta [OF ref] by (simp add: sp_def qv_def)
  have spb: "\<bar>sp\<bar> \<le> K" using ev by (simp add: sp_def)
  have ad: "add32 sp qv = sp + qv"
    using spb KM Q0 Q1 by (intro add32_id) (simp_all add: qv_def MATE_SCORE_def)
  have run': "(if sp \<ge> beta then Some (beta, s1)
      else if sp + qv < max alpha sp then Some (max alpha sp, s1)
      else (case getTransposition (TT_SIZE E) (tt s1) (hashCode E (board s1)) dep ply 0 (max alpha sp) beta emptyMove of
                   (hit, positionScore, alpha1, beta1, hashMove, t) \<Rightarrow>
                     if hit then Some (positionScore, s1\<lparr>tt := t\<rparr>)
                     else quiesceLoop E n dep beta1 ply 0
                            (scoreTacticalMoves E (s1\<lparr>tt := t\<rparr>) (tacticalMoves E (board s1)) hashMove)
                            (alpha1, UPPERBOUND, emptyMove, INT32_MIN) (s1\<lparr>tt := t\<rparr>))) = Some (r, s')"
  proof -
    have e1: "evaluate E (board s1) = sp" and q1: "mg_value E (QUEEN E - 1) = qv"
      by (simp_all add: sp_def qv_def b1)
    have a0: "(if alpha < sp then sp else alpha) = max alpha sp"
      by (simp add: max_def)
    have "quiesce E (Suc n) alpha beta ply dep s =
      (if sp \<ge> beta then Some (beta, s1)
      else if sp + qv < max alpha sp then Some (max alpha sp, s1)
      else (case getTransposition (TT_SIZE E) (tt s1) (hashCode E (board s1)) dep ply 0 (max alpha sp) beta emptyMove of
                   (hit, positionScore, alpha1, beta1, hashMove, t) \<Rightarrow>
                     if hit then Some (positionScore, s1\<lparr>tt := t\<rparr>)
                     else quiesceLoop E n dep beta1 ply 0
                            (scoreTacticalMoves E (s1\<lparr>tt := t\<rparr>) (tacticalMoves E (board s1)) hashMove)
                            (alpha1, UPPERBOUND, emptyMove, INT32_MIN) (s1\<lparr>tt := t\<rparr>)))"
      unfolding quiesce.simps rs prod.case Let_def e1 q1 a0 ad by simp
    then show ?thesis using run by simp
  qed
  have ua': "sp \<ge> beta \<or> sp + qv < max alpha sp
      \<or> \<not> usable (TT_SIZE E) (tt s1) (hashCode E (board s1)) dep
        \<and> (case getTransposition (TT_SIZE E) (tt s1) (hashCode E (board s1)) dep ply 0 (max alpha sp) beta emptyMove of
                   (hit, positionScore, alpha1, beta1, hashMove, t) \<Rightarrow>
                     hit \<or> quiesceLoopUnaided E n dep beta1 ply 0
                            (scoreTacticalMoves E (s1\<lparr>tt := t\<rparr>) (tacticalMoves E (board s1)) hashMove)
                            (alpha1, UPPERBOUND, emptyMove, INT32_MIN) (s1\<lparr>tt := t\<rparr>))"
  proof -
    have e1: "evaluate E (board s1) = sp" and q1: "mg_value E (QUEEN E - 1) = qv"
      by (simp_all add: sp_def qv_def b1)
    have a0: "(if alpha < sp then sp else alpha) = max alpha sp"
      by (simp add: max_def)
    have "quiesceUnaided E (Suc n) alpha beta ply dep s =
      (if sp \<ge> beta then True
       else if sp + qv < max alpha sp then True
       else \<not> usable (TT_SIZE E) (tt s1) (hashCode E (board s1)) dep
        \<and> (case getTransposition (TT_SIZE E) (tt s1) (hashCode E (board s1)) dep ply 0 (max alpha sp) beta emptyMove of
                   (hit, positionScore, alpha1, beta1, hashMove, t) \<Rightarrow>
                     hit \<or> quiesceLoopUnaided E n dep beta1 ply 0
                            (scoreTacticalMoves E (s1\<lparr>tt := t\<rparr>) (tacticalMoves E (board s1)) hashMove)
                            (alpha1, UPPERBOUND, emptyMove, INT32_MIN) (s1\<lparr>tt := t\<rparr>)))"
      unfolding quiesceUnaided.simps rs prod.case Let_def e1 q1 a0 ad by simp
    then show ?thesis using ua by (auto split: if_splits)
  qed
  show "within v alpha beta r"
  proof (cases "sp \<ge> beta")
    case True
    then have "r = beta" using run' by simp
    then show ?thesis using True vsp win by (auto simp: within_def okWin_def)
  next
    case lt: False
    show ?thesis
    proof (cases "sp + qv < max alpha sp")
      case True
      then have "r = max alpha sp" using run' lt by simp
      then show ?thesis using True vd vsp Q0 win by (auto simp: within_def okWin_def qv_def max_def split: if_splits)
    next
      case nd: False
      obtain hit ps a1 be1 hm t where gt:
        "getTransposition (TT_SIZE E) (tt s1) (hashCode E (board s1)) dep ply 0 (max alpha sp) beta emptyMove
           = (hit, ps, a1, be1, hm, t)"
        by (metis prod_cases3)
      define s2 where "s2 = s1\<lparr>tt := t\<rparr>"
      have b2: "board s2 = board s" "rd s2 = reads t" by (simp_all add: s2_def b1 rd_def)
      have run2: "(if hit then Some (ps, s2)
                   else quiesceLoop E n dep be1 ply 0
                            (scoreTacticalMoves E s2 (tacticalMoves E (board s1)) hm)
                            (a1, UPPERBOUND, emptyMove, INT32_MIN) s2) = Some (r, s')"
        using run' lt nd gt by (auto simp: s2_def split: if_splits)
      have nu: "\<not> usable (TT_SIZE E) (tt s1) (hashCode E (board s1)) dep"
        and ua2: "hit \<or> quiesceLoopUnaided E n dep be1 ply 0
                            (scoreTacticalMoves E s2 (tacticalMoves E (board s1)) hm)
                            (a1, UPPERBOUND, emptyMove, INT32_MIN) s2"
        using ua' lt nd gt by (simp_all add: s2_def)
      have miss: "\<not> hit" "a1 = max alpha sp" "be1 = beta" "hm = emptyMove"
        using getTransposition_unusable [OF gt nu] by simp_all
      define mvs where "mvs = scoreTacticalMoves E s2 (tacticalMoves E (board s1)) hm"
      have run3: "quiesceLoop E n dep beta ply 0 mvs (max alpha sp, UPPERBOUND, emptyMove, INT32_MIN) s2 = Some (r, s')"
        using run2 miss by (simp add: mvs_def)
      have ua3: "quiesceLoopUnaided E n dep beta ply 0 mvs (max alpha sp, UPPERBOUND, emptyMove, INT32_MIN) s2"
        using ua2 miss by (simp add: mvs_def)
      have fs: "fst ` set (drop 0 mvs) = set (tacticalMoves E (board s))"
        by (simp add: mvs_def fst_set_scoreTacticalMoves b1)
      define val where "val = (\<lambda>m. the (qval E k1 (board s) m))"
      have vals: "\<forall>m \<in> fst ` set (drop 0 mvs). legal E (board s2) m \<longrightarrow> qval E k1 (board s2) m = Some (val m)"
        using df unfolding fs b2 val_def by (auto simp: set_legalMoves)
      have Rr: "set ?ms = {m \<in> fst ` set (drop 0 mvs). legal E (board s2) m}"
        unfolding fs b2 by (simp add: set_legalMoves)
      have win0: "okWin (fst (max alpha sp, UPPERBOUND, emptyMove, INT32_MIN)) beta"
        using win lt spb KM by (auto simp: okWin_def max_def MATE_SCORE_def)
      from QLpropD [OF QL run3 ua3 win0 vals Rr]
      have res: "set ?ms = {} \<longrightarrow> r = max alpha sp"
        "set ?ms \<noteq> {} \<longrightarrow> loopRes (Max (val ` set ?ms)) (max alpha sp) beta r"
        by simp_all
      have ab: "alpha < beta" "sp < beta" using win lt by (simp_all add: okWin_def)
      show ?thesis
      proof (cases "set ?ms = {}")
        case True
        then have "v = sp" using vm by simp
        moreover have "r = max alpha sp" using res True by simp
        ultimately show ?thesis using q_combine_empty [OF ab(2) ab(1)] by simp
      next
        case False
        then have "v = max sp (Max (val ` set ?ms))"
          using vm by (simp add: val_def)
        moreover have "loopRes (Max (val ` set ?ms)) (max alpha sp) beta r" using res False by simp
        ultimately show ?thesis using q_combine [OF ab(2) ab(1)] by simp
      qed
    qed
  qed
qed

lemma ABpropD:
  assumes "ABprop E K n" "alphaBeta E n dep alpha beta ply s = Some (r, s')"
    "alphaBetaUnaided E n dep alpha beta ply s" "okWin alpha beta"
    "0 \<le> dep" "0 \<le> ply" "K + ply + dep < MATE_SCORE" "minimax E k (nat dep) ply (board s) = Some (v, mv)"
  shows "within v alpha beta r"
  by (rule assms(1) [unfolded ABprop_def, rule_format, OF assms(2-)])

lemma ABLpropD:
  assumes "ABLprop E K n" "alphaBetaLoop E n dep beta ply i moves hl locals s = Some (r, s')"
    "alphaBetaLoopUnaided E n dep beta ply i moves hl locals s"
    "okWin (fst locals) beta" "0 < dep" "0 \<le> ply" "K + ply + dep < MATE_SCORE"
    "\<forall>m \<in> fst ` set (drop i moves). legal E (board s) m \<longrightarrow> mval E k (nat (dep - 1)) ply (board s) m = Some (val m)"
    "R = {m \<in> fst ` set (drop i moves). legal E (board s) m}"
  shows "(R = {} \<longrightarrow> r = (if hl then fst locals else terminal E ply (board s)))
       \<and> (R \<noteq> {} \<longrightarrow> loopRes (Max (val ` R)) (fst locals) beta r)"
  by (rule assms(1) [unfolded ABLprop_def, rule_format, OF assms(2-7) assms(8) [rule_format] assms(9)])

lemma alphaBetaMove_cases:
  assumes "\<And>n. \<not> stopFlag E n"
  shows "alphaBetaMove E dep beta ply move tf sc locals s2 = Return x \<Longrightarrow> beta \<le> sc \<and> fst x = sc"
    and "alphaBetaMove E dep beta ply move tf sc locals s2 = Continue (l, s3)
          \<Longrightarrow> sc < beta \<and> fst l = (if sc > fst locals then sc else fst locals)"
  using assms
  by (cases locals; auto simp: alphaBetaMove_def readStop_def Let_def split: if_splits)+

lemma mval_nodraw:
  "mval E k d ply b m = Some w \<Longrightarrow> \<not> fst (drawCheck E (makeMove E b m) m)
    \<Longrightarrow> \<exists>u mu. minimax E k d (ply + 1) (makeMove E b m) = Some (u, mu) \<and> w = - u"
  by (auto simp: mval_def)

lemma mval_draw:
  "mval E k d ply b m = Some w \<Longrightarrow> fst (drawCheck E (makeMove E b m) m) \<Longrightarrow> w = 0"
  by (auto simp: mval_def)

lemma child_within:
  assumes f: "fair E K" and AB: "ABprop E K n"
    and ch: "(if draw then Some (0, s1)
              else (case alphaBeta E n (sub32 dep 1) (neg32 beta) (neg32 a) (add32 ply 1) s1 of
                      None \<Rightarrow> None | Some (v, s2) \<Rightarrow> Some (neg32 v, s2))) = Some (sc, s2)"
    and ua: "draw \<or> alphaBetaUnaided E n (sub32 dep 1) (neg32 beta) (neg32 a) (add32 ply 1) s1"
    and dr: "fst (drawCheck E (makeMove E b move) move) = draw"
    and b1: "board s1 = makeMove E b move"
    and mv: "mval E k (nat (dep - 1)) ply b move = Some w"
    and win: "okWin a beta" and dp: "0 < dep" and pl: "0 \<le> ply" and bd: "K + ply + dep < MATE_SCORE"
  shows "within w a beta sc" and "\<bar>sc\<bar> \<le> 2147483647"
proof -
  have ev: "\<And>b. \<bar>evaluate E b\<bar> \<le> K"
    using f by (auto simp: fair_def)
  have K0: "0 \<le> K" using ev [of b] by linarith
  show wi: "within w a beta sc"
  proof (cases draw)
    case True
    then have "sc = 0" using ch by simp
    moreover have "w = 0" using mval_draw [OF mv] True dr by simp
    ultimately show ?thesis by (simp add: within_refl)
  next
    case False
    have ar: "sub32 dep 1 = dep - 1" "add32 ply 1 = ply + 1" "neg32 beta = - beta" "neg32 a = - a"
      using dp pl bd K0 win by (simp_all add: sub32_id add32_id neg32_id okWin_def MATE_SCORE_def)
    obtain vc where cr: "alphaBeta E n (dep - 1) (- beta) (- a) (ply + 1) s1 = Some (vc, s2)"
      and sc: "sc = neg32 vc"
      using ch False by (auto simp: ar split: option.splits)
    have uc: "alphaBetaUnaided E n (dep - 1) (- beta) (- a) (ply + 1) s1"
      using ua False by (simp add: ar)
    obtain u mu where u: "minimax E k (nat (dep - 1)) (ply + 1) (board s1) = Some (u, mu)" "w = - u"
      using mval_nodraw [OF mv] False dr b1 by auto
    have wc: "within u (- beta) (- a) vc"
      using ABpropD [OF AB cr uc _ _ _ _ u(1)] win dp pl bd by (simp add: okWin_def)
    have "- (MATE_SCORE - (ply + 1)) \<le> u \<and> u < MATE_SCORE - (ply + 1)"
      using minimax_range [OF ev u(1)] pl bd dp by simp
    then have "\<bar>u\<bar> \<le> 2147483647" using pl unfolding MATE_SCORE_def by linarith
    then have "\<bar>vc\<bar> \<le> 2147483647"
      using within_bound [OF wc, of 2147483647] win by (simp add: okWin_def)
    then have "sc = - vc" using sc by (simp add: neg32_id)
    then show ?thesis using within_neg [OF wc] u(2) by simp
  qed
  have "\<bar>w\<bar> \<le> 2147483647"
  proof (cases draw)
    case True
    then show ?thesis using mval_draw [OF mv] dr by simp
  next
    case False
    then obtain u mu where u: "minimax E k (nat (dep - 1)) (ply + 1) (board s1) = Some (u, mu)" "w = - u"
      using mval_nodraw [OF mv] dr b1 by auto
    have "- (MATE_SCORE - (ply + 1)) \<le> u \<and> u < MATE_SCORE - (ply + 1)"
      using minimax_range [OF ev u(1)] pl bd dp by simp
    then show ?thesis using pl u(2) unfolding MATE_SCORE_def by linarith
  qed
  then show "\<bar>sc\<bar> \<le> 2147483647"
    using within_bound [OF wi, of 2147483647] win by (simp add: okWin_def)
qed

lemma ABL_step:
  assumes f: "fair E K" and AB: "ABprop E K n" and ABL: "ABLprop E K n"
  shows "ABLprop E K (Suc n)"
  unfolding ABLprop_def
proof (intro allI impI)
  fix dep beta ply i moves hl locals s r s' k val R
  assume run: "alphaBetaLoop E (Suc n) dep beta ply i moves hl locals s = Some (r, s')"
    and ua: "alphaBetaLoopUnaided E (Suc n) dep beta ply i moves hl locals s"
    and win: "okWin (fst locals) beta"
    and dp: "0 < dep" and pl: "0 \<le> ply" and bd: "K + ply + dep < MATE_SCORE"
    and vals: "\<forall>m \<in> fst ` set (drop i moves). legal E (board s) m
                 \<longrightarrow> mval E k (nat (dep - 1)) ply (board s) m = Some (val m)"
    and R: "R = {m \<in> fst ` set (drop i moves). legal E (board s) m}"
  have nostop: "\<And>n. \<not> stopFlag E n" and inv: "\<And>b m. unMakeMove E (makeMove E b m) = b"
    and ev: "\<And>b. \<bar>evaluate E b\<bar> \<le> K" and KM: "K < MATE_SCORE"
    using f by (auto simp: fair_def)
  have K0: "0 \<le> K" using ev [of "board s"] by linarith
  show "(R = {} \<longrightarrow> r = (if hl then fst locals else terminal E ply (board s)))
       \<and> (R \<noteq> {} \<longrightarrow> loopRes (Max (val ` R)) (fst locals) beta r)"
  proof (cases "i < length moves")
    case False
    then have "R = {}" using R by simp
    moreover have "neg32 (sub32 MATE_SCORE ply) = - (MATE_SCORE - ply)"
      using pl bd K0 dp by (simp add: sub32_id neg32_id MATE_SCORE_def)
    then have "r = (if hl then fst locals else terminal E ply (board s))"
      using run False by (cases locals) (auto simp: alphaBetaExit_def terminal_def)
    ultimately show ?thesis by simp
  next
    case il: True
    obtain move moves1 where sm: "selectMove moves i = (move, moves1)" by (cases "selectMove moves i")
    note sp = selectMove_props [OF il sm]
    define R1 where "R1 = {m \<in> fst ` set (drop (Suc i) moves1). legal E (board s) m}"
    have fin: "finite R1" by (simp add: R1_def)
    have vals1: "\<forall>m \<in> fst ` set (drop (Suc i) moves1). legal E (board s) m
                   \<longrightarrow> mval E k (nat (dep - 1)) ply (board s) m = Some (val m)"
      using vals sp(2) by blast
    define s1 where "s1 = s\<lparr>board := makeMove E (board s) move\<rparr>"
    have bs1: "board s1 = makeMove E (board s) move" "rd s1 = rd s" by (simp_all add: s1_def rd_def)
    show ?thesis
    proof (cases "legal E (board s) move")
      case False
      then have ic: "inCheck E (board s1) (invertColor (sideToMove E (board s1)))"
        by (simp add: legal_def bs1)
      have bk: "s1\<lparr>board := unMakeMove E (board s1)\<rparr> = s"
        by (simp add: s1_def inv)
      then have run1: "alphaBetaLoop E n dep beta ply (Suc i) moves1 hl locals s = Some (r, s')"
        using run il sm ic by (simp add: s1_def Let_def)
      have ua1: "alphaBetaLoopUnaided E n dep beta ply (Suc i) moves1 hl locals s"
        using ua il sm ic bk by (simp add: s1_def Let_def)
      have Req: "R = R1" using R sp(2) False by (auto simp: R1_def)
      from ABLpropD [OF ABL run1 ua1 win dp pl bd vals1 R1_def]
      show ?thesis unfolding Req .
    next
      case lg: True
      then have ic: "\<not> inCheck E (board s1) (invertColor (sideToMove E (board s1)))"
        by (simp add: legal_def bs1)
      have Req: "R = insert move R1" using R sp(2) lg by (auto simp: R1_def)
      obtain draw tf where dc: "drawCheck E (board s1) move = (draw, tf)" by (cases "drawCheck E (board s1) move")
      define child where "child = (if draw then Some (0, s1)
                        else (case alphaBeta E n (sub32 dep 1) (neg32 beta) (neg32 (fst locals)) (add32 ply 1) s1 of
                                None \<Rightarrow> None | Some (v, s2) \<Rightarrow> Some (neg32 v, s2)))"
      have step: "(case child of None \<Rightarrow> None
                   | Some (sc, s2) \<Rightarrow>
                      (case alphaBetaMove E dep beta ply move tf sc locals s2 of
                         Return r \<Rightarrow> Some r
                       | Continue (locals1, s3) \<Rightarrow> alphaBetaLoop E n dep beta ply (Suc i) moves1 True locals1 s3))
                  = Some (r, s')"
        using run il sm ic dc by (cases draw) (simp_all add: s1_def Let_def child_def)
      then obtain sc s2 where ch: "child = Some (sc, s2)"
        by (cases child) auto
      have uaeq: "alphaBetaLoopUnaided E (Suc n) dep beta ply i moves hl locals s =
                  ((draw \<or> alphaBetaUnaided E n (sub32 dep 1) (neg32 beta) (neg32 (fst locals)) (add32 ply 1) s1)
                   \<and> (case child of None \<Rightarrow> True
                      | Some (sc, s2) \<Rightarrow>
                         (case alphaBetaMove E dep beta ply move tf sc locals s2 of
                            Return r \<Rightarrow> True
                          | Continue (locals1, s3) \<Rightarrow>
                              alphaBetaLoopUnaided E n dep beta ply (Suc i) moves1 True locals1 s3)))"
        using il sm ic dc by (cases draw) (simp_all add: s1_def Let_def child_def)
      have uas: "(draw \<or> alphaBetaUnaided E n (sub32 dep 1) (neg32 beta) (neg32 (fst locals)) (add32 ply 1) s1)
                 \<and> (case alphaBetaMove E dep beta ply move tf sc locals s2 of
                       Return r \<Rightarrow> True
                     | Continue (locals1, s3) \<Rightarrow>
                         alphaBetaLoopUnaided E n dep beta ply (Suc i) moves1 True locals1 s3)"
        using ua unfolding uaeq ch by simp
      have fr2: "board s2 = board s1"
      proof (cases draw)
        case True
        then show ?thesis using ch by (simp add: child_def)
      next
        case False
        then obtain vc where "alphaBeta E n (sub32 dep 1) (neg32 beta) (neg32 (fst locals)) (add32 ply 1) s1 = Some (vc, s2)"
          using ch by (auto simp: child_def split: option.splits)
        from frame_ab(1) [OF inv this] show ?thesis .
      qed
      have un: "unMakeMove E (board s2) = board s" using fr2 by (simp add: bs1 inv)
      have mv: "mval E k (nat (dep - 1)) ply (board s) move = Some (val move)"
        using vals sp(2) lg by blast
      have dr: "fst (drawCheck E (makeMove E (board s) move) move) = draw"
        using dc by (simp add: bs1)
      note cw = child_within [OF f AB ch [unfolded child_def] uas [THEN conjunct1] dr bs1(1) mv win dp pl bd]
      show ?thesis
      proof (cases "alphaBetaMove E dep beta ply move tf sc locals s2")
        case (Return x)
        then have x: "x = (r, s')" using step ch by simp
        have "beta \<le> sc \<and> r = sc"
          using alphaBetaMove_cases(1) [OF nostop Return] x by simp
        then show ?thesis
          using loop_cutoff [where val = val and m = move, OF cw(1) _ _ fin] win Req
          by (simp add: okWin_def)
      next
        case (Continue x)
        obtain l1 s3 where x: "x = (l1, s3)" by (cases x)
        have run1: "alphaBetaLoop E n dep beta ply (Suc i) moves1 True l1 s3 = Some (r, s')"
          using step ch Continue x by simp
        have ua3: "alphaBetaLoopUnaided E n dep beta ply (Suc i) moves1 True l1 s3"
          using uas Continue x by simp
        have fr3: "board s3 = board s"
          using alphaBetaMove_frame(2) Continue x un by metis
        have cs: "sc < beta" "fst l1 = (if sc > fst locals then sc else fst locals)"
          using alphaBetaMove_cases(2) [OF nostop, of dep beta ply move tf sc locals s2 l1 s3] Continue x by simp_all
        have win1: "okWin (fst l1) beta"
          using win cs cw(2) by (auto simp: okWin_def)
        have vals3: "\<forall>m \<in> fst ` set (drop (Suc i) moves1). legal E (board s3) m
                       \<longrightarrow> mval E k (nat (dep - 1)) ply (board s3) m = Some (val m)"
          using vals1 fr3 by simp
        have R3: "R1 = {m \<in> fst ` set (drop (Suc i) moves1). legal E (board s3) m}"
          using fr3 by (simp add: R1_def)
        from ABLpropD [OF ABL run1 ua3 win1 dp pl bd vals3 R3]
        have rst: "R1 = {} \<longrightarrow> r = fst l1" "R1 \<noteq> {} \<longrightarrow> loopRes (Max (val ` R1)) (fst l1) beta r"
          by simp_all
        have "loopRes (Max (val ` insert move R1)) (fst locals) beta r"
          using loop_continue [where val = val and m = move, OF cw(1) cs(1) _ fin cs(2) rst] win
          by (simp add: okWin_def)
        then show ?thesis using Req by simp
      qed
    qed
  qed
qed

lemma AB_step:
  assumes f: "fair E K" and Q: "Qprop E K n" and ABL: "ABLprop E K n"
  shows "ABprop E K (Suc n)"
  unfolding ABprop_def
proof (intro allI impI)
  fix dep alpha beta ply s r s' k v mv
  assume run: "alphaBeta E (Suc n) dep alpha beta ply s = Some (r, s')"
    and ua: "alphaBetaUnaided E (Suc n) dep alpha beta ply s" and win: "okWin alpha beta"
    and dp: "0 \<le> dep" and pl: "0 \<le> ply" and bd: "K + ply + dep < MATE_SCORE"
    and ref: "minimax E k (nat dep) ply (board s) = Some (v, mv)"
  have nostop: "\<And>n. \<not> stopFlag E n" and inv: "\<And>b m. unMakeMove E (makeMove E b m) = b"
    and ev: "\<And>b. \<bar>evaluate E b\<bar> \<le> K" and KM: "K < MATE_SCORE"
    using f by (auto simp: fair_def)
  have K0: "0 \<le> K" using ev [of "board s"] by linarith
  define s1 where "s1 = s\<lparr>stopReads := Suc (stopReads s)\<rparr>"
  have rs: "readStop E s = (False, s1)" by (simp add: readStop_def s1_def nostop)
  have b1: "board s1 = board s" "rd s1 = rd s" by (simp_all add: s1_def rd_def)
  show "within v alpha beta r"
  proof (cases "dep = 0")
    case True
    then have runq: "quiesce E n alpha beta ply 0 s1 = Some (r, s')"
      using run rs by simp
    have "minimaxQ E k (board s1) = Some v"
      using ref True by (auto simp: b1)
    moreover have "quiesceUnaided E n alpha beta ply 0 s1"
      using ua rs True by simp
    ultimately show ?thesis using QpropD [OF Q runq _ win] by simp
  next
    case nz: False
    then have dpos: "0 < dep" using dp by simp
    define L where "L = - MATE_SCORE + ply"
    define U where "U = MATE_SCORE - ply"
    have ar: "add32 (- MATE_SCORE) ply = L" "sub32 MATE_SCORE ply = U"
      using pl bd K0 dpos by (simp_all add: add32_id sub32_id L_def U_def MATE_SCORE_def)
    obtain hit ps a1 be1 hm t where gt:
      "getTransposition (TT_SIZE E) (tt s1) (hashCode E (board s1)) dep ply 0 alpha beta emptyMove
         = (hit, ps, a1, be1, hm, t)"
      by (metis prod_cases3)
    define s2 where "s2 = s1\<lparr>tt := t\<rparr>"
    have b2: "board s2 = board s" "rd s2 = reads t" by (simp_all add: s2_def b1 rd_def)
    define mvs where "mvs = scoreMoves E s2 (pseudoLegalMoves E (board s2)) ply hm"
    have run2: "(if hit then Some (ps, s2)
                 else if max a1 L \<ge> min be1 U then Some (max a1 L, s2)
                 else alphaBetaLoop E n dep (min be1 U) ply 0 mvs False
                        (max a1 L, UPPERBOUND, emptyMove, INT32_MIN, False) s2) = Some (r, s')"
    proof -
      have "alphaBeta E (Suc n) dep alpha beta ply s =
              (if hit then Some (ps, s2)
                 else if max a1 L \<ge> min be1 U then Some (max a1 L, s2)
                 else alphaBetaLoop E n dep (min be1 U) ply 0 mvs False
                        (max a1 L, UPPERBOUND, emptyMove, INT32_MIN, False) s2)"
        unfolding alphaBeta.simps rs prod.case gt Let_def ar s2_def [symmetric] mvs_def [symmetric]
        using nz by simp
      then show ?thesis using run by simp
    qed
    have ua2: "\<not> usable (TT_SIZE E) (tt s1) (hashCode E (board s1)) dep
                \<and> (hit \<or> max a1 L \<ge> min be1 U
                    \<or> alphaBetaLoopUnaided E n dep (min be1 U) ply 0 mvs False
                          (max a1 L, UPPERBOUND, emptyMove, INT32_MIN, False) s2)"
    proof -
      have "alphaBetaUnaided E (Suc n) dep alpha beta ply s =
              (\<not> usable (TT_SIZE E) (tt s1) (hashCode E (board s1)) dep
                \<and> (hit \<or> max a1 L \<ge> min be1 U
                    \<or> alphaBetaLoopUnaided E n dep (min be1 U) ply 0 mvs False
                          (max a1 L, UPPERBOUND, emptyMove, INT32_MIN, False) s2))"
        unfolding alphaBetaUnaided.simps rs prod.case gt Let_def ar s2_def [symmetric] mvs_def [symmetric]
        using nz by simp
      then show ?thesis using ua by simp
    qed
    have miss: "\<not> hit" "a1 = alpha" "be1 = beta" "hm = emptyMove"
      using getTransposition_unusable [OF gt ua2 [THEN conjunct1]] by simp_all
    have nd: "nat dep = Suc (nat (dep - 1))" using dpos by simp
    note D = minimax_SucD [OF ref [unfolded nd]]
    have rng: "- (MATE_SCORE - ply) \<le> v \<and> v < MATE_SCORE - ply
        \<and> (nat dep = 0 \<or> legalMoves E (board s) (pseudoLegalMoves E (board s)) \<noteq> [] \<longrightarrow> - (MATE_SCORE - ply) < v)"
      using minimax_range [OF ev ref pl] bd dp by simp
    have ab: "alpha < beta" using win by (simp add: okWin_def)
    have "L < U" using pl bd K0 dpos by (simp add: L_def U_def)
    show ?thesis
    proof (cases "max alpha L \<ge> min beta U")
      case True
      then have "r = max alpha L" using run2 miss by simp
      moreover have "within v alpha beta (max alpha L)"
        using ab_clamp [of L v U alpha beta] rng ab True by (simp add: L_def U_def)
      ultimately show ?thesis by simp
    next
      case False
      then have run3: "alphaBetaLoop E n dep (min beta U) ply 0 mvs False
                        (max alpha L, UPPERBOUND, emptyMove, INT32_MIN, False) s2 = Some (r, s')"
        using run2 miss by simp
      let ?ms = "legalMoves E (board s) (pseudoLegalMoves E (board s))"
      have fs: "fst ` set (drop 0 mvs) = set (pseudoLegalMoves E (board s))"
        by (simp add: mvs_def fst_set_scoreMoves b2)
      define val where "val = (\<lambda>m. the (mval E k (nat (dep - 1)) ply (board s) m))"
      have vals: "\<forall>m \<in> fst ` set (drop 0 mvs). legal E (board s2) m
                    \<longrightarrow> mval E k (nat (dep - 1)) ply (board s2) m = Some (val m)"
        using D(1) unfolding fs b2 val_def by (auto simp: set_legalMoves)
      have Rr: "set ?ms = {m \<in> fst ` set (drop 0 mvs). legal E (board s2) m}"
        unfolding fs b2 by (simp add: set_legalMoves)
      have win0: "okWin (fst (max alpha L, UPPERBOUND, emptyMove, INT32_MIN, False)) (min beta U)"
        using win False pl bd K0 dpos by (auto simp: okWin_def max_def min_def L_def U_def MATE_SCORE_def)
      have ua3: "alphaBetaLoopUnaided E n dep (min beta U) ply 0 mvs False
                        (max alpha L, UPPERBOUND, emptyMove, INT32_MIN, False) s2"
        using ua2 miss False by simp
      from ABLpropD [OF ABL run3 ua3 win0 dpos pl bd vals Rr]
      have res: "set ?ms = {} \<longrightarrow> r = terminal E ply (board s2)"
        "set ?ms \<noteq> {} \<longrightarrow> loopRes (Max (val ` set ?ms)) (max alpha L) (min beta U) r"
        by simp_all
      show ?thesis
      proof (cases "?ms = []")
        case True
        then have "v = terminal E ply (board s)" using D(2) by simp
        moreover have "r = terminal E ply (board s)" using res True b2 by simp
        ultimately show ?thesis by (simp add: within_refl)
      next
        case ne: False
        then have "v = Max (val ` set ?ms)" using D(3) by (simp add: val_def)
        then have lr: "loopRes v (max alpha L) (min beta U) r" using res ne by simp
        have "L < v" "v < U" using rng ne by (simp_all add: L_def U_def)
        from ab_combine [OF this ab lr] show ?thesis .
      qed
    qed
  qed
qed

lemma search_props:
  assumes f: "fair E K"
  shows "ABprop E K n \<and> ABLprop E K n \<and> Qprop E K n \<and> QLprop E K n"
proof (induction n)
  case 0
  show ?case by (simp add: ABprop_def ABLprop_def Qprop_def QLprop_def)
next
  case (Suc n)
  then show ?case
    using AB_step [OF f] ABL_step [OF f] Q_step [OF f] QL_step [OF f] by blast
qed

subsection \<open>The exhaustive search returns\<close>

text \<open>
  More fuel does not change a value of \<open>minimaxQ\<close> or \<open>minimax\<close>, and enough fuel gives
  one when some measure of the board decreases with every tactical move.
\<close>

lemma maxValues_total: "\<forall>w \<in> set vs. w \<noteq> None \<Longrightarrow> \<exists>v. maxValues best vs = Some v"
  by (induction best vs rule: maxValues.induct) simp_all

lemma bestOf_total: "\<forall>x \<in> set xs. snd x \<noteq> None \<Longrightarrow> \<exists>r. bestOf acc xs = Some r"
  by (induction acc xs rule: bestOf.induct) simp_all

lemma uniform_fuel:
  assumes mono: "\<And>k k' x v. f k x = Some v \<Longrightarrow> k \<le> k' \<Longrightarrow> f k' x = Some v"
  shows "\<forall>x \<in> set xs. \<exists>k v. f k x = Some v \<Longrightarrow> \<exists>k::nat. \<forall>x \<in> set xs. \<exists>v. f k x = Some v"
proof (induction xs)
  case Nil
  then show ?case by simp
next
  case (Cons x xs)
  then obtain k1 where k1: "\<forall>x \<in> set xs. \<exists>v. f k1 x = Some v" by auto
  from Cons.prems obtain k2 v where k2: "f k2 x = Some v" by auto
  have "\<forall>y \<in> set (x # xs). \<exists>v. f (max k1 k2) y = Some v"
  proof
    fix y assume "y \<in> set (x # xs)"
    then consider "y = x" | "y \<in> set xs" by auto
    then show "\<exists>v. f (max k1 k2) y = Some v"
    proof cases
      case 1
      have "f (max k1 k2) x = Some v" by (rule mono [OF k2]) simp
      then show ?thesis using 1 by simp
    next
      case 2
      then obtain w where "f k1 y = Some w" using k1 by auto
      then have "f (max k1 k2) y = Some w" by (rule mono) simp
      then show ?thesis by simp
    qed
  qed
  then show ?case by blast
qed

lemma minimaxQ_mono: "minimaxQ E k b = Some v \<Longrightarrow> k \<le> k' \<Longrightarrow> minimaxQ E k' b = Some v"
proof (induction k arbitrary: k' b v)
  case 0
  then show ?case by simp
next
  case (Suc k)
  obtain k1 where k': "k' = Suc k1" "k \<le> k1" using Suc.prems(2) by (cases k') auto
  let ?ms = "legalMoves E b (tacticalMoves E b)"
  from minimaxQ_SomeD [OF Suc.prems(1)]
  have df: "\<forall>m \<in> set ?ms. \<exists>w. qval E k b m = Some w"
    by (metis nat.inject)
  have eq: "map (\<lambda>m. map_option uminus (minimaxQ E k1 (makeMove E b m))) ?ms
        = map (\<lambda>m. map_option uminus (minimaxQ E k (makeMove E b m))) ?ms"
  proof (rule map_cong [OF refl])
    fix m assume "m \<in> set ?ms"
    then obtain w where "qval E k b m = Some w" using df by blast
    then obtain u where u: "minimaxQ E k (makeMove E b m) = Some u" by (auto simp: qval_def)
    from Suc.IH [OF u k'(2)] u
    show "map_option uminus (minimaxQ E k1 (makeMove E b m)) = map_option uminus (minimaxQ E k (makeMove E b m))"
      by simp
  qed
  have "minimaxQ E (Suc k1) b = minimaxQ E (Suc k) b"
    by (simp only: minimaxQ.simps eq)
  then show ?case using Suc.prems(1) unfolding k'(1) by simp
qed

lemma minimaxQ_returns:
  assumes rank: "\<And>b m. m \<in> set (tacticalMoves E b) \<Longrightarrow> (rank :: 'b \<Rightarrow> nat) (makeMove E b m) < rank b"
  shows "\<exists>k v. minimaxQ E k b = Some v"
proof (induction "rank b" arbitrary: b rule: less_induct)
  case less
  let ?ms = "legalMoves E b (tacticalMoves E b)"
  have "\<forall>m \<in> set ?ms. \<exists>k v. minimaxQ E k (makeMove E b m) = Some v"
  proof
    fix m assume "m \<in> set ?ms"
    then have "m \<in> set (tacticalMoves E b)" by (simp add: legalMoves_def)
    then have "rank (makeMove E b m) < rank b" by (rule rank)
    then show "\<exists>k v. minimaxQ E k (makeMove E b m) = Some v" by (rule less.hyps)
  qed
  then have "\<exists>k. \<forall>m \<in> set ?ms. \<exists>v. minimaxQ E k (makeMove E b m) = Some v"
    by (rule uniform_fuel [where f = "\<lambda>k m. minimaxQ E k (makeMove E b m)", rotated]) (rule minimaxQ_mono)
  then obtain k where k: "\<forall>m \<in> set ?ms. \<exists>v. minimaxQ E k (makeMove E b m) = Some v" by blast
  have "\<exists>v. maxValues (evaluate E b) (map (\<lambda>m. map_option uminus (minimaxQ E k (makeMove E b m))) ?ms) = Some v"
    by (rule maxValues_total) (use k in auto)
  then have "\<exists>v. minimaxQ E (Suc k) b = Some v" by simp
  then show ?case by blast
qed

lemma minimax_mono: "minimax E k d ply b = Some r \<Longrightarrow> k \<le> k' \<Longrightarrow> minimax E k' d ply b = Some r"
proof (induction d arbitrary: ply b r)
  case 0
  then obtain v where v: "minimaxQ E k b = Some v" "r = (v, None)" by auto
  from minimaxQ_mono [OF v(1) 0(2)] v(2) show ?case by simp
next
  case (Suc d)
  let ?ms = "legalMoves E b (pseudoLegalMoves E b)"
  obtain v mv where r: "r = (v, mv)" by (cases r)
  from minimax_SucD(1) [OF Suc.prems(1) [unfolded r]]
  have df: "\<forall>m \<in> set ?ms. \<exists>w. mval E k d ply b m = Some w" .
  have eq: "map (\<lambda>m. (m, mval E k' d ply b m)) ?ms = map (\<lambda>m. (m, mval E k d ply b m)) ?ms"
  proof (rule map_cong [OF refl])
    fix m assume "m \<in> set ?ms"
    then obtain w where w: "mval E k d ply b m = Some w" using df by blast
    show "(m, mval E k' d ply b m) = (m, mval E k d ply b m)"
    proof (cases "fst (drawCheck E (makeMove E b m) m)")
      case True
      then show ?thesis by (simp add: mval_def)
    next
      case False
      then obtain u where u: "minimax E k d (ply + 1) (makeMove E b m) = Some u"
        using w by (auto simp: mval_def)
      from Suc.IH [OF u Suc.prems(2)] u show ?thesis by (simp add: mval_def)
    qed
  qed
  have "minimax E k' (Suc d) ply b = minimax E k (Suc d) ply b"
    by (simp only: minimax.simps eq [unfolded mval_def])
  then show ?case using Suc.prems(1) by simp
qed

lemma minimax_returns:
  assumes rank: "\<And>b m. m \<in> set (tacticalMoves E b) \<Longrightarrow> (rank :: 'b \<Rightarrow> nat) (makeMove E b m) < rank b"
  shows "\<exists>k r. minimax E k d ply b = Some r"
proof (induction d arbitrary: ply b)
  case 0
  from minimaxQ_returns [OF rank] obtain k v where "minimaxQ E k b = Some v" by blast
  then have "minimax E k 0 ply b = Some (v, None)" by simp
  then show ?case by blast
next
  case (Suc d)
  let ?ms = "legalMoves E b (pseudoLegalMoves E b)"
  have mm: "mval E k d ply b m = Some w \<Longrightarrow> k \<le> k' \<Longrightarrow> mval E k' d ply b m = Some w" for k k' m w
    by (cases "fst (drawCheck E (makeMove E b m) m)") (auto simp: mval_def dest: minimax_mono)
  have "\<forall>m \<in> set ?ms. \<exists>k w. mval E k d ply b m = Some w"
  proof
    fix m
    from Suc.IH [of "ply + 1" "makeMove E b m"] obtain k r where
      "minimax E k d (ply + 1) (makeMove E b m) = Some r" by blast
    then have "\<exists>w. mval E k d ply b m = Some w" by (simp add: mval_def)
    then show "\<exists>k w. mval E k d ply b m = Some w" by blast
  qed
  then have "\<exists>k. \<forall>m \<in> set ?ms. \<exists>w. mval E k d ply b m = Some w"
    by (rule uniform_fuel [where f = "\<lambda>k m. mval E k d ply b m", rotated]) (rule mm)
  then obtain k where k: "\<forall>m \<in> set ?ms. \<exists>w. mval E k d ply b m = Some w" by blast
  have "\<exists>res. bestOf None (map (\<lambda>m. (m, mval E k d ply b m)) ?ms) = Some res"
    by (rule bestOf_total) (use k in auto)
  then have "\<exists>r. minimax E k (Suc d) ply b = Some r"
    by (auto simp: mval_def [abs_def] split: option.splits)
  then show ?case by blast
qed

subsection \<open>The move that the search records\<close>

text \<open>
  A search of depth \<open>dep\<close> writes entries of depth at most \<open>dep\<close>, so the entry that the
  root writes last is not refused for being shallow.  With the full window every legal
  move of the root has its value inside the window; the first one raises \<open>alpha\<close>, and
  from then on the loop carries a move whose exhaustive value is \<open>alpha\<close>.
\<close>

lemma later_refl: "later D t t"
  by (simp add: later_def)

lemma later_trans: "later D1 t t1 \<Longrightarrow> later D2 t1 t2 \<Longrightarrow> D1 \<le> D \<Longrightarrow> D2 \<le> D \<Longrightarrow> later D t t2"
  unfolding later_def by (metis order_trans)

lemma later_eq: "entries t' = entries t \<Longrightarrow> later D t t'"
  by (simp add: later_def)

lemma depth_normalise: "depth (normalise e p) = depth e"
  by (simp add: normalise_def)

lemma later_setEntry: "depth e \<le> D \<Longrightarrow> later D t (setEntry N t k e p)"
  by (simp add: later_def setEntry_def writeEntry_def Let_def depth_normalise)

lemma getTransposition_entries:
  assumes "getTransposition N t h dep ply sc alpha beta hm = (hit, ps, a1, b1, hm1, t1)"
  shows "entries t1 = entries t"
  using assms
  by (auto simp: getTransposition_def getEntry_def contains_def Let_def
      split: prod.splits bool.splits if_splits NodeType.splits)

lemma readStop_tt: "readStop E s = (stp, s1) \<Longrightarrow> tt s1 = tt s"
  by (auto simp: readStop_def)

lemma alphaBetaMove_later:
  "alphaBetaMove E dep beta ply move tf sc locals s0 = Return (r, s') \<Longrightarrow> later dep (tt s0) (tt s')"
  "alphaBetaMove E dep beta ply move tf sc locals s0 = Continue (l, s') \<Longrightarrow> later dep (tt s0) (tt s')"
  by (cases locals; auto simp: alphaBetaMove_def readStop_def Let_def later_refl later_setEntry
      storeKillerMove_tt split: if_splits)+

lemma quiesceMove_later:
  "quiesceMove E dep beta ply move sc locals s0 = Return (r, s') \<Longrightarrow> later dep (tt s0) (tt s')"
  "quiesceMove E dep beta ply move sc locals s0 = Continue (l, s') \<Longrightarrow> later dep (tt s0) (tt s')"
  by (cases locals; auto simp: quiesceMove_def readStop_def Let_def later_refl later_setEntry
      split: if_splits)+

lemma alphaBetaExit_later: "alphaBetaExit E dep ply h locals s = (r, s') \<Longrightarrow> later dep (tt s) (tt s')"
  by (cases locals) (auto simp: alphaBetaExit_def later_refl later_setEntry split: if_splits)

lemma quiesceExit_later: "quiesceExit E dep ply locals s = (r, s') \<Longrightarrow> later dep (tt s) (tt s')"
  by (cases locals) (auto simp: quiesceExit_def later_setEntry)

lemma later_cong: "entries t1 = entries t \<Longrightarrow> later D t1 t' \<Longrightarrow> later D t t'"
  by (simp add: later_def)

lemma depths_ab:
  assumes abl: "\<And>dep beta ply i moves h locals s r s'.
              alphaBetaLoop E n dep beta ply i moves h locals s = Some (r, s')
              \<Longrightarrow> 0 < dep \<Longrightarrow> dep < 2147483648 \<Longrightarrow> int n \<le> 2147483648 \<Longrightarrow> later dep (tt s) (tt s')"
    and q: "\<And>alpha beta ply dep s r s'. quiesce E n alpha beta ply dep s = Some (r, s')
              \<Longrightarrow> dep \<le> 0 \<Longrightarrow> - 2147483648 \<le> dep - int n \<Longrightarrow> later dep (tt s) (tt s')"
    and h: "alphaBeta E (Suc n) dep alpha beta ply s = Some (r, s')"
    and d: "0 \<le> dep" "dep < 2147483648" and n: "int (Suc n) \<le> 2147483648"
  shows "later dep (tt s) (tt s')"
proof -
  obtain stp s1 where rs: "readStop E s = (stp, s1)" by (cases "readStop E s")
  have t1: "tt s1 = tt s" by (rule readStop_tt [OF rs])
  obtain hit ps a1 be1 hm t where gt:
    "getTransposition (TT_SIZE E) (tt s1) (hashCode E (board s1)) dep ply 0 alpha beta emptyMove
       = (hit, ps, a1, be1, hm, t)"
    by (metis prod_cases3)
  have et: "entries t = entries (tt s)" using getTransposition_entries [OF gt] t1 by simp
  show ?thesis
  proof (cases "stp")
    case True
    then show ?thesis using h rs t1 by (auto simp: later_refl)
  next
    case ns: False
    show ?thesis
    proof (cases "dep = 0")
      case True
      then have "quiesce E n alpha beta ply 0 s1 = Some (r, s')" using h rs ns by simp
      from q [OF this] show ?thesis using n t1 True by simp
    next
      case nz: False
      consider (same) "s' = s1\<lparr>tt := t\<rparr>"
        | (loop) b m l where "alphaBetaLoop E n dep b ply 0 m False l (s1\<lparr>tt := t\<rparr>) = Some (r, s')"
        using h rs ns nz gt by (auto simp: Let_def split: if_splits)
      then show ?thesis
      proof cases
        case same
        then show ?thesis using et by (simp add: later_eq)
      next
        case loop
        have "later dep (tt (s1\<lparr>tt := t\<rparr>)) (tt s')"
          by (rule abl [OF loop]) (use d nz n in simp_all)
        then show ?thesis using et by (simp add: later_def)
      qed
    qed
  qed
qed

lemma depths_abl:
  assumes ab: "\<And>dep alpha beta ply s r s'. alphaBeta E n dep alpha beta ply s = Some (r, s')
              \<Longrightarrow> 0 \<le> dep \<Longrightarrow> dep < 2147483648 \<Longrightarrow> int n \<le> 2147483648 \<Longrightarrow> later dep (tt s) (tt s')"
    and abl: "\<And>dep beta ply i moves h locals s r s'.
              alphaBetaLoop E n dep beta ply i moves h locals s = Some (r, s')
              \<Longrightarrow> 0 < dep \<Longrightarrow> dep < 2147483648 \<Longrightarrow> int n \<le> 2147483648 \<Longrightarrow> later dep (tt s) (tt s')"
    and h: "alphaBetaLoop E (Suc n) dep beta ply i moves hl locals s = Some (r, s')"
    and d: "0 < dep" "dep < 2147483648" and n: "int (Suc n) \<le> 2147483648"
  shows "later dep (tt s) (tt s')"
proof (cases "i < length moves")
  case False
  then show ?thesis using h alphaBetaExit_later [of E dep ply hl locals s r s'] by simp
next
  case il: True
  have n': "int n \<le> 2147483648" using n by simp
  obtain move moves1 where sm: "selectMove moves i = (move, moves1)" by (cases "selectMove moves i")
  define s1 where "s1 = s\<lparr>board := makeMove E (board s) move\<rparr>"
  have ts1: "tt s1 = tt s" by (simp add: s1_def)
  show ?thesis
  proof (cases "inCheck E (board s1) (invertColor (sideToMove E (board s1)))")
    case True
    then have "alphaBetaLoop E n dep beta ply (Suc i) moves1 hl locals (s1\<lparr>board := unMakeMove E (board s1)\<rparr>) = Some (r, s')"
      using h il sm by (simp add: s1_def Let_def)
    from abl [OF this d n'] show ?thesis by (simp add: s1_def)
  next
    case legal: False
    obtain draw tf where dc: "drawCheck E (board s1) move = (draw, tf)" by (cases "drawCheck E (board s1) move")
    define child where "child = (if draw then Some (0, s1)
                      else (case alphaBeta E n (sub32 dep 1) (neg32 beta) (neg32 (fst locals)) (add32 ply 1) s1 of
                              None \<Rightarrow> None | Some (v, s2) \<Rightarrow> Some (neg32 v, s2)))"
    have step: "(case child of None \<Rightarrow> None
                 | Some (sc, s2) \<Rightarrow>
                    (case alphaBetaMove E dep beta ply move tf sc locals s2 of
                       Return r \<Rightarrow> Some r
                     | Continue (locals1, s3) \<Rightarrow> alphaBetaLoop E n dep beta ply (Suc i) moves1 True locals1 s3))
                = Some (r, s')"
      using h il sm legal dc by (cases draw) (simp_all add: s1_def Let_def child_def)
    then obtain sc s2 where ch: "child = Some (sc, s2)"
      by (cases child) auto
    have sb: "sub32 dep 1 = dep - 1" using d by (simp add: sub32_id)
    have l2: "later (dep - 1) (tt s) (tt s2)"
    proof (cases draw)
      case True
      then show ?thesis using ch ts1 by (simp add: child_def later_eq)
    next
      case False
      then obtain vc where "alphaBeta E n (dep - 1) (neg32 beta) (neg32 (fst locals)) (add32 ply 1) s1 = Some (vc, s2)"
        using ch by (auto simp: child_def sb split: option.splits)
      from ab [OF this _ _ n'] show ?thesis using d ts1 by simp
    qed
    show ?thesis
    proof (cases "alphaBetaMove E dep beta ply move tf sc locals s2")
      case (Return x)
      then have "x = (r, s')" using step ch by simp
      then have "later dep (tt s2) (tt s')" using alphaBetaMove_later(1) Return by blast
      from later_trans [OF l2 this] show ?thesis by simp
    next
      case (Continue x)
      obtain l1 s3 where x: "x = (l1, s3)" by (cases x)
      have l3: "later dep (tt s2) (tt s3)" using alphaBetaMove_later(2) Continue x by blast
      have "alphaBetaLoop E n dep beta ply (Suc i) moves1 True l1 s3 = Some (r, s')"
        using step ch Continue x by simp
      from abl [OF this d n'] have l4: "later dep (tt s3) (tt s')" .
      have "later dep (tt s) (tt s3)" using later_trans [OF l2 l3] by simp
      from later_trans [OF this l4] show ?thesis by simp
    qed
  qed
qed

lemma depths_q:
  assumes ql: "\<And>dep beta ply i moves locals s r s'.
              quiesceLoop E n dep beta ply i moves locals s = Some (r, s')
              \<Longrightarrow> dep \<le> 0 \<Longrightarrow> - 2147483648 \<le> dep - int n \<Longrightarrow> later dep (tt s) (tt s')"
    and h: "quiesce E (Suc n) alpha beta ply dep s = Some (r, s')"
    and d: "dep \<le> 0" and n: "- 2147483648 \<le> dep - int (Suc n)"
  shows "later dep (tt s) (tt s')"
proof -
  obtain stp s1 where rs: "readStop E s = (stp, s1)" by (cases "readStop E s")
  have t1: "tt s1 = tt s" by (rule readStop_tt [OF rs])
  define a0 where "a0 = (if alpha < evaluate E (board s1) then evaluate E (board s1) else alpha)"
  obtain hit ps a1 be1 hm t where gt:
    "getTransposition (TT_SIZE E) (tt s1) (hashCode E (board s1)) dep ply 0 a0 beta emptyMove
       = (hit, ps, a1, be1, hm, t)"
    by (metis prod_cases3)
  have et: "entries t = entries (tt s)" using getTransposition_entries [OF gt] t1 by simp
  consider (early) "s' = s1" | (hit) "s' = s1\<lparr>tt := t\<rparr>"
    | (loop) b m l where "quiesceLoop E n dep b ply 0 m l (s1\<lparr>tt := t\<rparr>) = Some (r, s')"
    using h rs gt by (auto simp: Let_def a0_def split: if_splits)
  then show ?thesis
  proof cases
    case early
    then show ?thesis using t1 by (simp add: later_refl)
  next
    case hit
    then show ?thesis using et by (simp add: later_eq)
  next
    case loop
    have "later dep (tt (s1\<lparr>tt := t\<rparr>)) (tt s')"
      by (rule ql [OF loop d]) (use n in simp)
    then show ?thesis using et by (simp add: later_def)
  qed
qed

lemma depths_ql:
  assumes q: "\<And>alpha beta ply dep s r s'. quiesce E n alpha beta ply dep s = Some (r, s')
              \<Longrightarrow> dep \<le> 0 \<Longrightarrow> - 2147483648 \<le> dep - int n \<Longrightarrow> later dep (tt s) (tt s')"
    and ql: "\<And>dep beta ply i moves locals s r s'.
              quiesceLoop E n dep beta ply i moves locals s = Some (r, s')
              \<Longrightarrow> dep \<le> 0 \<Longrightarrow> - 2147483648 \<le> dep - int n \<Longrightarrow> later dep (tt s) (tt s')"
    and h: "quiesceLoop E (Suc n) dep beta ply i moves locals s = Some (r, s')"
    and d: "dep \<le> 0" and n: "- 2147483648 \<le> dep - int (Suc n)"
  shows "later dep (tt s) (tt s')"
proof (cases "i < length moves")
  case False
  then show ?thesis using h quiesceExit_later [of E dep ply locals s r s'] by simp
next
  case il: True
  have n': "- 2147483648 \<le> dep - int n" using n by simp
  obtain move moves1 where sm: "selectMove moves i = (move, moves1)" by (cases "selectMove moves i")
  define s1 where "s1 = s\<lparr>board := makeMove E (board s) move\<rparr>"
  have ts1: "tt s1 = tt s" by (simp add: s1_def)
  show ?thesis
  proof (cases "inCheck E (board s1) (invertColor (sideToMove E (board s1)))")
    case True
    then have "quiesceLoop E n dep beta ply (Suc i) moves1 locals (s1\<lparr>board := unMakeMove E (board s1)\<rparr>) = Some (r, s')"
      using h il sm by (simp add: s1_def Let_def)
    from ql [OF this d n'] show ?thesis by (simp add: s1_def)
  next
    case legal: False
    have sb: "sub32 dep 1 = dep - 1" using d n by (simp add: sub32_id)
    have step: "(case quiesce E n (neg32 beta) (neg32 (fst locals)) (add32 ply 1) (dep - 1) s1 of
                   None \<Rightarrow> None
                 | Some (v, s2) \<Rightarrow>
                    (case quiesceMove E dep beta ply move (neg32 v) locals s2 of
                       Return r \<Rightarrow> Some r
                     | Continue (locals1, s3) \<Rightarrow> quiesceLoop E n dep beta ply (Suc i) moves1 locals1 s3))
                = Some (r, s')"
      using h il sm legal by (simp add: s1_def Let_def sb)
    then obtain v s2 where ch: "quiesce E n (neg32 beta) (neg32 (fst locals)) (add32 ply 1) (dep - 1) s1 = Some (v, s2)"
      by (cases "quiesce E n (neg32 beta) (neg32 (fst locals)) (add32 ply 1) (dep - 1) s1") auto
    have l2: "later (dep - 1) (tt s) (tt s2)"
      using q [OF ch] d n ts1 by simp
    show ?thesis
    proof (cases "quiesceMove E dep beta ply move (neg32 v) locals s2")
      case (Return x)
      then have "x = (r, s')" using step ch by simp
      then have "later dep (tt s2) (tt s')" using quiesceMove_later(1) Return by blast
      from later_trans [OF l2 this] show ?thesis by simp
    next
      case (Continue x)
      obtain l1 s3 where x: "x = (l1, s3)" by (cases x)
      have l3: "later dep (tt s2) (tt s3)" using quiesceMove_later(2) Continue x by blast
      have "quiesceLoop E n dep beta ply (Suc i) moves1 l1 s3 = Some (r, s')"
        using step ch Continue x by simp
      from ql [OF this d n'] have l4: "later dep (tt s3) (tt s')" .
      have "later dep (tt s) (tt s3)" using later_trans [OF l2 l3] by simp
      from later_trans [OF this l4] show ?thesis by simp
    qed
  qed
qed

lemma search_depths:
  "(\<forall>dep alpha beta ply s r s'. alphaBeta E n dep alpha beta ply s = Some (r, s')
        \<longrightarrow> 0 \<le> dep \<longrightarrow> dep < 2147483648 \<longrightarrow> int n \<le> 2147483648 \<longrightarrow> later dep (tt s) (tt s'))
   \<and> (\<forall>dep beta ply i moves h locals s r s'.
        alphaBetaLoop E n dep beta ply i moves h locals s = Some (r, s')
        \<longrightarrow> 0 < dep \<longrightarrow> dep < 2147483648 \<longrightarrow> int n \<le> 2147483648 \<longrightarrow> later dep (tt s) (tt s'))
   \<and> (\<forall>alpha beta ply dep s r s'. quiesce E n alpha beta ply dep s = Some (r, s')
        \<longrightarrow> dep \<le> 0 \<longrightarrow> - 2147483648 \<le> dep - int n \<longrightarrow> later dep (tt s) (tt s'))
   \<and> (\<forall>dep beta ply i moves locals s r s'.
        quiesceLoop E n dep beta ply i moves locals s = Some (r, s')
        \<longrightarrow> dep \<le> 0 \<longrightarrow> - 2147483648 \<le> dep - int n \<longrightarrow> later dep (tt s) (tt s'))"
proof (induction n)
  case 0
  show ?case by simp
next
  case (Suc n)
  have ab: "\<And>dep alpha beta ply s r s'. alphaBeta E n dep alpha beta ply s = Some (r, s')
              \<Longrightarrow> 0 \<le> dep \<Longrightarrow> dep < 2147483648 \<Longrightarrow> int n \<le> 2147483648 \<Longrightarrow> later dep (tt s) (tt s')"
    by (rule Suc.IH [THEN conjunct1, rule_format])
  have abl: "\<And>dep beta ply i moves h locals s r s'.
              alphaBetaLoop E n dep beta ply i moves h locals s = Some (r, s')
              \<Longrightarrow> 0 < dep \<Longrightarrow> dep < 2147483648 \<Longrightarrow> int n \<le> 2147483648 \<Longrightarrow> later dep (tt s) (tt s')"
    by (rule Suc.IH [THEN conjunct2, THEN conjunct1, rule_format])
  have q: "\<And>alpha beta ply dep s r s'. quiesce E n alpha beta ply dep s = Some (r, s')
              \<Longrightarrow> dep \<le> 0 \<Longrightarrow> - 2147483648 \<le> dep - int n \<Longrightarrow> later dep (tt s) (tt s')"
    by (rule Suc.IH [THEN conjunct2, THEN conjunct2, THEN conjunct1, rule_format])
  have ql: "\<And>dep beta ply i moves locals s r s'.
              quiesceLoop E n dep beta ply i moves locals s = Some (r, s')
              \<Longrightarrow> dep \<le> 0 \<Longrightarrow> - 2147483648 \<le> dep - int n \<Longrightarrow> later dep (tt s) (tt s')"
    by (rule Suc.IH [THEN conjunct2, THEN conjunct2, THEN conjunct2, rule_format])
  show ?case
  proof (intro conjI allI impI)
    fix dep alpha beta ply s r s'
    assume "alphaBeta E (Suc n) dep alpha beta ply s = Some (r, s')"
      "0 \<le> dep" "dep < 2147483648" "int (Suc n) \<le> 2147483648"
    then show "later dep (tt s) (tt s')"
      by (rule depths_ab [where n = n, rotated 2]) (rule abl q, assumption+)+
  next
    fix dep beta ply i moves h locals s r s'
    assume "alphaBetaLoop E (Suc n) dep beta ply i moves h locals s = Some (r, s')"
      "0 < dep" "dep < 2147483648" "int (Suc n) \<le> 2147483648"
    then show "later dep (tt s) (tt s')"
      by (rule depths_abl [where n = n, rotated 2]) (rule ab abl, assumption+)+
  next
    fix alpha beta ply dep s r s'
    assume "quiesce E (Suc n) alpha beta ply dep s = Some (r, s')"
      "dep \<le> 0" "- 2147483648 \<le> dep - int (Suc n)"
    then show "later dep (tt s) (tt s')"
      by (rule depths_q [where n = n, rotated 1]) (rule ql, assumption+)+
  next
    fix dep beta ply i moves locals s r s'
    assume "quiesceLoop E (Suc n) dep beta ply i moves locals s = Some (r, s')"
      "dep \<le> 0" "- 2147483648 \<le> dep - int (Suc n)"
    then show "later dep (tt s) (tt s')"
      by (rule depths_ql [where n = n, rotated 2]) (rule q ql, assumption+)+
  qed
qed

lemmas later_alphaBeta = search_depths [THEN conjunct1, rule_format]
  and later_alphaBetaLoop = search_depths [THEN conjunct2, THEN conjunct1, rule_format]

lemma setEntry_written:
  assumes "nodeType e = EXACT"
    and "nodeType (entries t (slot N k)) = EXACT \<longrightarrow> depth (entries t (slot N k)) \<le> depth e"
  shows "entries (setEntry N t k e p) (slot N k) = normalise e p"
  using assms by (auto simp: setEntry_def writeEntry_def Let_def normalise_def)

lemma normalise_fields:
  "key (normalise e p) = key e" "bestMove (normalise e p) = bestMove e"
  "depth (normalise e p) = depth e" "nodeType (normalise e p) = nodeType e"
  by (simp_all add: normalise_def)

lemma slotFree_later: "slotFree E dep b t \<Longrightarrow> later D t t' \<Longrightarrow> D \<le> dep \<Longrightarrow> slotFree E dep b t'"
  unfolding slotFree_def later_def by (metis order_trans)

lemma alphaBetaMove_Continue:
  assumes "alphaBetaMove E dep beta ply move tf sc (alpha, nodeTy, bestMv, bestScore, noStore) s2
             = Continue (l1, s3)"
  shows "tt s3 = tt s2"
    and "l1 = (if sc > alpha then (sc, EXACT, move, sc, noStore)
               else if sc > bestScore then (alpha, nodeTy, move, sc, tf)
               else (alpha, nodeTy, bestMv, bestScore, noStore))"
  using assms by (auto simp: alphaBetaMove_def readStop_def Let_def split: if_splits)

lemma within_below: "within v a b r \<Longrightarrow> v < b \<Longrightarrow> a < b \<Longrightarrow> r < b"
  unfolding within_def by linarith

lemma within_above: "within v a b r \<Longrightarrow> a < v \<Longrightarrow> v < b \<Longrightarrow> r = v"
  unfolding within_def by linarith

lemma within_low: "within v a b r \<Longrightarrow> v \<le> a \<Longrightarrow> r \<le> a"
  unfolding within_def by linarith

lemma rootVals_rest:
  "rootVals E k dep ply b beta ms val hl a \<Longrightarrow> ms' \<subseteq> ms \<Longrightarrow> rootVals E k dep ply b beta ms' val True a'"
  unfolding rootVals_def by blast

lemma rootVals_sub:
  "rootVals E k dep ply b beta ms val hl a \<Longrightarrow> ms' \<subseteq> ms \<Longrightarrow> rootVals E k dep ply b beta ms' val hl a"
  unfolding rootVals_def by blast

lemma root_loop:
  assumes f: "fair E K"
  shows "alphaBetaLoop E n dep beta ply i moves hl locals s = Some (r, s')
    \<Longrightarrow> alphaBetaLoopUnaided E n dep beta ply i moves hl locals s
    \<Longrightarrow> okWin (fst locals) beta \<Longrightarrow> 0 < dep \<Longrightarrow> 0 \<le> ply \<Longrightarrow> K + ply + dep < MATE_SCORE
    \<Longrightarrow> int n \<le> 2147483648
    \<Longrightarrow> rootVals E k dep ply (board s) beta (fst ` set (drop i moves)) val hl (fst locals)
    \<Longrightarrow> tracked E k dep ply (board s) (fst ` set moves) hl locals
    \<Longrightarrow> slotFree E dep (board s) (tt s)
    \<Longrightarrow> hl \<or> (\<exists>m \<in> fst ` set (drop i moves). legal E (board s) m)
    \<Longrightarrow> recorded E k dep ply (board s) (fst ` set moves) r (tt s')"
proof (induction n arbitrary: i moves hl locals s)
  case 0
  then show ?case by simp
next
  case (Suc n)
  note run = Suc.prems(1) and ua = Suc.prems(2) and win = Suc.prems(3) and dp = Suc.prems(4)
    and pl = Suc.prems(5) and bd = Suc.prems(6) and nb = Suc.prems(7) and rv = Suc.prems(8)
    and tr = Suc.prems(9) and sf = Suc.prems(10) and ex = Suc.prems(11)
  have nostop: "\<And>n. \<not> stopFlag E n" and inv: "\<And>b m. unMakeMove E (makeMove E b m) = b"
    and ev: "\<And>b. \<bar>evaluate E b\<bar> \<le> K"
    using f by (auto simp: fair_def)
  have AB: "ABprop E K n" using search_props [OF f] by simp
  have K0: "0 \<le> K" using ev [of "board s"] by linarith
  have nb': "int n \<le> 2147483648" using nb by simp
  have dlt: "dep < 2147483648" using bd K0 pl by (simp add: MATE_SCORE_def)
  obtain alpha nodeTy bestMv bestScore noStore where
    lc: "locals = (alpha, nodeTy, bestMv, bestScore, noStore)" by (cases locals)
  have ns: "\<not> noStore"
    and trk: "hl \<Longrightarrow> nodeTy = EXACT \<and> bestScore = alpha \<and> bestMv \<in> fst ` set moves
                \<and> legal E (board s) bestMv
                \<and> mval E k (nat (dep - 1)) ply (board s) bestMv = Some alpha"
    using tr by (simp_all add: tracked_def lc)
  have ab: "alpha < beta" using win by (simp add: okWin_def lc)
  show ?case
  proof (cases "i < length moves")
    case False
    then have hl: hl using ex by simp
    let ?e = "\<lparr>key = hashCode E (board s), bestMove = bestMv, depth = dep, score = bestScore,
               nodeType = nodeTy\<rparr>"
    have res: "r = alpha" "s' = s\<lparr>tt := setEntry (TT_SIZE E) (tt s) (hashCode E (board s)) ?e ply\<rparr>"
      using run False hl ns by (simp_all add: alphaBetaExit_def lc)
    have "entries (tt s') (slot (TT_SIZE E) (hashCode E (board s))) = normalise ?e ply"
      unfolding res(2) using sf trk [OF hl] by (simp add: setEntry_written slotFree_def)
    then show ?thesis
      using trk [OF hl] res(1) by (simp add: recorded_def normalise_fields Let_def)
  next
    case il: True
    obtain move moves1 where sm: "selectMove moves i = (move, moves1)" by (cases "selectMove moves i")
    note sp = selectMove_props [OF il sm]
    note ss = selectMove_set [OF il sm]
    have M1: "fst ` set moves1 = fst ` set moves" using ss(2) by simp
    have rest: "fst ` set (drop (Suc i) moves1) \<subseteq> fst ` set (drop i moves)"
      and mvin: "move \<in> fst ` set (drop i moves)"
      using sp(2) by auto
    define s1 where "s1 = s\<lparr>board := makeMove E (board s) move\<rparr>"
    have bs1: "board s1 = makeMove E (board s) move" "tt s1 = tt s"
      by (simp_all add: s1_def)
    show ?thesis
    proof (cases "legal E (board s) move")
      case False
      then have ic: "inCheck E (board s1) (invertColor (sideToMove E (board s1)))"
        by (simp add: legal_def bs1)
      have bk: "s1\<lparr>board := unMakeMove E (board s1)\<rparr> = s"
        by (simp add: s1_def inv)
      then have run1: "alphaBetaLoop E n dep beta ply (Suc i) moves1 hl locals s = Some (r, s')"
        using run il sm ic by (simp add: s1_def Let_def)
      have ua1: "alphaBetaLoopUnaided E n dep beta ply (Suc i) moves1 hl locals s"
        using ua il sm ic bk by (simp add: s1_def Let_def)
      have rv1: "rootVals E k dep ply (board s) beta (fst ` set (drop (Suc i) moves1)) val hl (fst locals)"
        using rv rest by (rule rootVals_sub)
      have tr1: "tracked E k dep ply (board s) (fst ` set moves1) hl locals"
        using tr M1 by simp
      have ex1: "hl \<or> (\<exists>m \<in> fst ` set (drop (Suc i) moves1). legal E (board s) m)"
        using ex sp(2) False by auto
      from Suc.IH [OF run1 ua1 win dp pl bd nb' rv1 tr1 sf ex1]
      show ?thesis using M1 by simp
    next
      case lg: True
      then have ic: "\<not> inCheck E (board s1) (invertColor (sideToMove E (board s1)))"
        by (simp add: legal_def bs1)
      have vm: "mval E k (nat (dep - 1)) ply (board s) move = Some (val move)" "val move < beta"
        and raise: "\<not> hl \<Longrightarrow> alpha < val move"
        using rv mvin lg unfolding rootVals_def by (auto simp: lc)
      obtain draw tf where dc: "drawCheck E (board s1) move = (draw, tf)" by (cases "drawCheck E (board s1) move")
      define child where "child = (if draw then Some (0, s1)
                        else (case alphaBeta E n (sub32 dep 1) (neg32 beta) (neg32 (fst locals)) (add32 ply 1) s1 of
                                None \<Rightarrow> None | Some (v, s2) \<Rightarrow> Some (neg32 v, s2)))"
      have step: "(case child of None \<Rightarrow> None
                   | Some (sc, s2) \<Rightarrow>
                      (case alphaBetaMove E dep beta ply move tf sc locals s2 of
                         Return r \<Rightarrow> Some r
                       | Continue (locals1, s3) \<Rightarrow> alphaBetaLoop E n dep beta ply (Suc i) moves1 True locals1 s3))
                  = Some (r, s')"
        using run il sm ic dc by (cases draw) (simp_all add: s1_def Let_def child_def)
      then obtain sc s2 where ch: "child = Some (sc, s2)"
        by (cases child) auto
      have uaeq: "alphaBetaLoopUnaided E (Suc n) dep beta ply i moves hl locals s =
                  ((draw \<or> alphaBetaUnaided E n (sub32 dep 1) (neg32 beta) (neg32 (fst locals)) (add32 ply 1) s1)
                   \<and> (case child of None \<Rightarrow> True
                      | Some (sc, s2) \<Rightarrow>
                         (case alphaBetaMove E dep beta ply move tf sc locals s2 of
                            Return r \<Rightarrow> True
                          | Continue (locals1, s3) \<Rightarrow>
                              alphaBetaLoopUnaided E n dep beta ply (Suc i) moves1 True locals1 s3)))"
        using il sm ic dc by (cases draw) (simp_all add: s1_def Let_def child_def)
      have uas: "(draw \<or> alphaBetaUnaided E n (sub32 dep 1) (neg32 beta) (neg32 (fst locals)) (add32 ply 1) s1)
                 \<and> (case alphaBetaMove E dep beta ply move tf sc locals s2 of
                       Return r \<Rightarrow> True
                     | Continue (locals1, s3) \<Rightarrow>
                         alphaBetaLoopUnaided E n dep beta ply (Suc i) moves1 True locals1 s3)"
        using ua unfolding uaeq ch by simp
      have sb: "sub32 dep 1 = dep - 1" using dp dlt by (simp add: sub32_id)
      have fr2: "board s2 = board s1 \<and> later (dep - 1) (tt s1) (tt s2)"
      proof (cases draw)
        case True
        then show ?thesis using ch by (simp add: child_def later_refl)
      next
        case False
        then obtain vc where c: "alphaBeta E n (dep - 1) (neg32 beta) (neg32 (fst locals)) (add32 ply 1) s1 = Some (vc, s2)"
          using ch by (auto simp: child_def sb split: option.splits)
        have "later (dep - 1) (tt s1) (tt s2)"
          by (rule later_alphaBeta [OF c]) (use dp dlt nb' in simp_all)
        then show ?thesis using frame_ab(1) [OF inv c] by simp
      qed
      have un: "unMakeMove E (board s2) = board s" using fr2 by (simp add: bs1 inv)
      have dr: "fst (drawCheck E (makeMove E (board s) move) move) = draw"
        using dc by (simp add: bs1)
      note cw = child_within [OF f AB ch [unfolded child_def] uas [THEN conjunct1] dr bs1(1) vm(1) win dp pl bd]
      note wi = cw(1) [unfolded lc fst_conv]
      have scl: "sc < beta" using within_below [OF wi vm(2) ab] .
      show ?thesis
      proof (cases "alphaBetaMove E dep beta ply move tf sc locals s2")
        case (Return x)
        have "beta \<le> sc"
          using alphaBetaMove_cases(1) [OF nostop Return] by simp
        then show ?thesis using scl by simp
      next
        case (Continue x)
        obtain l1 s3 where x: "x = (l1, s3)" by (cases x)
        have run1: "alphaBetaLoop E n dep beta ply (Suc i) moves1 True l1 s3 = Some (r, s')"
          using step ch Continue x by simp
        have ua3: "alphaBetaLoopUnaided E n dep beta ply (Suc i) moves1 True l1 s3"
          using uas Continue x by simp
        have fr3: "board s3 = board s"
          using alphaBetaMove_frame(2) Continue x un by metis
        note C = alphaBetaMove_Continue [OF Continue [unfolded x lc]]
        have hl_if_low: hl if "\<not> sc > alpha"
        proof (rule ccontr)
          assume "\<not> hl"
          then have "alpha < val move" by (rule raise)
          then have "sc = val move" using within_above [OF wi _ vm(2)] by simp
          then show False using that \<open>alpha < val move\<close> by simp
        qed
        have l1: "l1 = (if sc > alpha then (sc, EXACT, move, sc, noStore)
                        else (alpha, nodeTy, bestMv, bestScore, noStore))"
        proof (cases "sc > alpha")
          case True
          then show ?thesis using C(2) by simp
        next
          case False
          then have "bestScore = alpha" using trk hl_if_low by simp
          then show ?thesis using C(2) False by simp
        qed
        have tr3: "tracked E k dep ply (board s3) (fst ` set moves1) True l1"
        proof (cases "sc > alpha")
          case True
          have "alpha < val move"
          proof (rule ccontr)
            assume "\<not> alpha < val move"
            then have "sc \<le> alpha" using within_low [OF wi] by simp
            then show False using True by simp
          qed
          then have "sc = val move" using within_above [OF wi _ vm(2)] by simp
          moreover have "move \<in> fst ` set moves1" using ss(3) M1 by simp
          ultimately show ?thesis
            using True l1 ns lg vm(1) fr3 by (simp add: tracked_def)
        next
          case False
          then show ?thesis
            using l1 ns trk hl_if_low fr3 M1 by (simp add: tracked_def)
        qed
        have win1: "okWin (fst l1) beta"
          using win scl cw(2) l1 by (auto simp: okWin_def lc)
        have rv3: "rootVals E k dep ply (board s3) beta (fst ` set (drop (Suc i) moves1)) val True (fst l1)"
          unfolding fr3 using rv rest by (rule rootVals_rest)
        have "later (dep - 1) (tt s) (tt s3)" using fr2 C(1) bs1(2) by simp
        then have sf3: "slotFree E dep (board s3) (tt s3)"
          using slotFree_later [OF sf] fr3 by simp
        from Suc.IH [OF run1 ua3 win1 dp pl bd nb' rv3 tr3 sf3]
        show ?thesis using M1 fr3 by simp
      qed
    qed
  qed
qed

lemma mval_range:
  assumes ev: "\<And>b. \<bar>evaluate E b\<bar> \<le> K"
    and mv: "mval E k d ply b m = Some w" and pl: "0 \<le> ply" and bd: "K + ply + int d + 1 < MATE_SCORE"
  shows "- (MATE_SCORE - ply) < w \<and> w < MATE_SCORE - ply"
proof (cases "fst (drawCheck E (makeMove E b m) m)")
  case True
  have K0: "0 \<le> K" using ev [of b] by linarith
  have "w = 0" using mval_draw [OF mv True] .
  then show ?thesis using pl bd K0 by simp
next
  case False
  then obtain u mu where u: "minimax E k d (ply + 1) (makeMove E b m) = Some (u, mu)" "w = - u"
    using mval_nodraw [OF mv] by auto
  have "- (MATE_SCORE - (ply + 1)) \<le> u \<and> u < MATE_SCORE - (ply + 1)"
    using minimax_range [OF ev u(1)] pl bd by simp
  then show ?thesis using u(2) by simp
qed

lemma root_move:
  assumes f: "fair E K"
    and run: "alphaBeta E n dep (INT32_MIN + 1) INT32_MAX 0 s = Some (r, s')"
    and ua: "alphaBetaUnaided E n dep (INT32_MIN + 1) INT32_MAX 0 s"
    and dpos: "0 < dep" and bd: "K + dep < MATE_SCORE" and nb: "int n \<le> 2147483648"
    and ref: "minimax E k (nat dep) 0 (board s) = Some (v, mv)"
    and ne: "legalMoves E (board s) (pseudoLegalMoves E (board s)) \<noteq> []"
    and sf: "slotFree E dep (board s) (tt s)"
  shows "recorded E k dep 0 (board s) (set (pseudoLegalMoves E (board s))) r (tt s')"
proof -
  have nostop: "\<And>n. \<not> stopFlag E n" and inv: "\<And>b m. unMakeMove E (makeMove E b m) = b"
    and ev: "\<And>b. \<bar>evaluate E b\<bar> \<le> K"
    using f by (auto simp: fair_def)
  have K0: "0 \<le> K" using ev [of "board s"] by linarith
  obtain n0 where n: "n = Suc n0" using run by (cases n) auto
  have nb0: "int n0 \<le> 2147483648" using nb n by simp
  define s1 where "s1 = s\<lparr>stopReads := Suc (stopReads s)\<rparr>"
  have rs: "readStop E s = (False, s1)" by (simp add: readStop_def s1_def nostop)
  have b1: "board s1 = board s" "tt s1 = tt s" by (simp_all add: s1_def)
  have nz: "dep \<noteq> 0" using dpos by simp
  define L where "L = - MATE_SCORE"
  define U where "U = MATE_SCORE"
  have ar: "add32 (- MATE_SCORE) 0 = L" "sub32 MATE_SCORE 0 = U"
    by (simp_all add: add32_id sub32_id L_def U_def MATE_SCORE_def)
  obtain hit ps a1 be1 hm t where gt:
    "getTransposition (TT_SIZE E) (tt s1) (hashCode E (board s1)) dep 0 0 (INT32_MIN + 1) INT32_MAX emptyMove
       = (hit, ps, a1, be1, hm, t)"
    by (metis prod_cases3)
  define s2 where "s2 = s1\<lparr>tt := t\<rparr>"
  have b2: "board s2 = board s" "tt s2 = t" by (simp_all add: s2_def b1)
  define mvs where "mvs = scoreMoves E s2 (pseudoLegalMoves E (board s2)) 0 hm"
  have run2: "(if hit then Some (ps, s2)
               else if max a1 L \<ge> min be1 U then Some (max a1 L, s2)
               else alphaBetaLoop E n0 dep (min be1 U) 0 0 mvs False
                      (max a1 L, UPPERBOUND, emptyMove, INT32_MIN, False) s2) = Some (r, s')"
  proof -
    have "alphaBeta E (Suc n0) dep (INT32_MIN + 1) INT32_MAX 0 s =
            (if hit then Some (ps, s2)
               else if max a1 L \<ge> min be1 U then Some (max a1 L, s2)
               else alphaBetaLoop E n0 dep (min be1 U) 0 0 mvs False
                      (max a1 L, UPPERBOUND, emptyMove, INT32_MIN, False) s2)"
      unfolding alphaBeta.simps rs prod.case gt Let_def ar s2_def [symmetric] mvs_def [symmetric]
      using nz by simp
    then show ?thesis using run n by simp
  qed
  have ua2: "\<not> usable (TT_SIZE E) (tt s1) (hashCode E (board s1)) dep
              \<and> (hit \<or> max a1 L \<ge> min be1 U
                  \<or> alphaBetaLoopUnaided E n0 dep (min be1 U) 0 0 mvs False
                        (max a1 L, UPPERBOUND, emptyMove, INT32_MIN, False) s2)"
  proof -
    have "alphaBetaUnaided E (Suc n0) dep (INT32_MIN + 1) INT32_MAX 0 s =
            (\<not> usable (TT_SIZE E) (tt s1) (hashCode E (board s1)) dep
              \<and> (hit \<or> max a1 L \<ge> min be1 U
                  \<or> alphaBetaLoopUnaided E n0 dep (min be1 U) 0 0 mvs False
                        (max a1 L, UPPERBOUND, emptyMove, INT32_MIN, False) s2))"
      unfolding alphaBetaUnaided.simps rs prod.case gt Let_def ar s2_def [symmetric] mvs_def [symmetric]
      using nz by simp
    then show ?thesis using ua n by simp
  qed
  have miss: "\<not> hit" "a1 = INT32_MIN + 1" "be1 = INT32_MAX" "hm = emptyMove"
    using getTransposition_unusable [OF gt ua2 [THEN conjunct1]] by simp_all
  have mx: "max (INT32_MIN + 1) L = L" "min INT32_MAX U = U"
    by (simp_all add: L_def U_def INT32_MIN_def INT32_MAX_def MATE_SCORE_def)
  have LU: "\<not> U \<le> L" by (simp add: L_def U_def MATE_SCORE_def)
  have run3: "alphaBetaLoop E n0 dep U 0 0 mvs False (L, UPPERBOUND, emptyMove, INT32_MIN, False) s2
                = Some (r, s')"
    using run2 unfolding miss(2,3) mx using miss(1) LU by simp
  have ua3: "alphaBetaLoopUnaided E n0 dep U 0 0 mvs False (L, UPPERBOUND, emptyMove, INT32_MIN, False) s2"
    using ua2 unfolding miss(2,3) mx using miss(1) LU by simp
  have win0: "okWin (fst (L, UPPERBOUND, emptyMove, INT32_MIN, False)) U"
    by (simp add: okWin_def L_def U_def MATE_SCORE_def)
  have bd0: "K + 0 + dep < MATE_SCORE" using bd by simp
  have nd: "nat dep = Suc (nat (dep - 1))" using dpos by simp
  note D = minimax_SucD [OF ref [unfolded nd]]
  have fs: "fst ` set (drop 0 mvs) = set (pseudoLegalMoves E (board s))"
    and fs': "fst ` set mvs = set (pseudoLegalMoves E (board s))"
    by (simp_all add: mvs_def fst_set_scoreMoves b2)
  define val where "val = (\<lambda>m. the (mval E k (nat (dep - 1)) 0 (board s) m))"
  have rv: "rootVals E k dep 0 (board s2) U (fst ` set (drop 0 mvs)) val False
              (fst (L, UPPERBOUND, emptyMove, INT32_MIN, False))"
    unfolding rootVals_def fs b2
  proof (intro ballI impI)
    fix m assume m: "m \<in> set (pseudoLegalMoves E (board s))" and lg: "legal E (board s) m"
    then have "m \<in> set (legalMoves E (board s) (pseudoLegalMoves E (board s)))"
      by (simp add: set_legalMoves)
    then obtain w where w: "mval E k (nat (dep - 1)) 0 (board s) m = Some w" using D(1) by blast
    have "- (MATE_SCORE - 0) < w \<and> w < MATE_SCORE - 0"
      by (rule mval_range [OF ev w]) (use bd dpos in simp_all)
    then show "mval E k (nat (dep - 1)) 0 (board s) m = Some (val m) \<and> val m < U
                \<and> (\<not> False \<longrightarrow> fst (L, UPPERBOUND, emptyMove, INT32_MIN, False) < val m)"
      using w by (simp add: val_def L_def U_def)
  qed
  have tr: "tracked E k dep 0 (board s2) (fst ` set mvs) False (L, UPPERBOUND, emptyMove, INT32_MIN, False)"
    by (simp add: tracked_def)
  have "entries t = entries (tt s)" using getTransposition_entries [OF gt] b1 by simp
  then have sf2: "slotFree E dep (board s2) (tt s2)"
    using sf by (simp add: slotFree_def b2)
  obtain m0 where "m0 \<in> set (legalMoves E (board s) (pseudoLegalMoves E (board s)))"
    using ne by (cases "legalMoves E (board s) (pseudoLegalMoves E (board s))") auto
  then have ex: "False \<or> (\<exists>m \<in> fst ` set (drop 0 mvs). legal E (board s2) m)"
    unfolding fs b2 by (auto simp: set_legalMoves)
  from root_loop [OF f run3 ua3 win0 dpos _ bd0 nb0 rv tr sf2 ex]
  show ?thesis by (simp add: b2 fs')
qed

subsection \<open>A search that reads no entry is not helped\<close>

text \<open>
  The read counter goes up with every entry that \<open>contains\<close> finds, usable or not.  So a
  call that returns with the counter unchanged has found no entry at all.  The four
  lemmas are the steps of the induction on the fuel.
\<close>

lemma nr_ab:
  assumes inv: "\<And>b m. unMakeMove E (makeMove E b m) = b"
    and abl: "\<And>dep beta ply i moves h locals s r s'.
              alphaBetaLoop E n dep beta ply i moves h locals s = Some (r, s') \<Longrightarrow> rd s' = rd s
              \<Longrightarrow> alphaBetaLoopUnaided E n dep beta ply i moves h locals s"
    and q: "\<And>alpha beta ply dep s r s'. quiesce E n alpha beta ply dep s = Some (r, s') \<Longrightarrow> rd s' = rd s
              \<Longrightarrow> quiesceUnaided E n alpha beta ply dep s"
    and h: "alphaBeta E (Suc n) dep alpha beta ply s = Some (r, s')" and rdeq: "rd s' = rd s"
  shows "alphaBetaUnaided E (Suc n) dep alpha beta ply s"
proof -
  obtain stp s1 where rs: "readStop E s = (stp, s1)" by (cases "readStop E s")
  have b1: "rd s1 = rd s" using readStop_frame [OF rs] by simp
  obtain hit ps a1 be1 hm t where gt:
    "getTransposition (TT_SIZE E) (tt s1) (hashCode E (board s1)) dep ply 0 alpha beta emptyMove
       = (hit, ps, a1, be1, hm, t)"
    by (metis prod_cases3)
  have rt: "rd s1 \<le> reads t" using getTransposition_reads(1) [OF gt] by (simp add: rd_def)
  show ?thesis
  proof (cases "stp")
    case True
    then show ?thesis using rs by simp
  next
    case ns: False
    show ?thesis
    proof (cases "dep = 0")
      case True
      then have "quiesce E n alpha beta ply 0 s1 = Some (r, s')" using h rs ns by simp
      from q [OF this] show ?thesis using rs ns True rdeq b1 by simp
    next
      case nz: False
      define a2 where "a2 = max a1 (add32 (- MATE_SCORE) ply)"
      define b2 where "b2 = min be1 (sub32 MATE_SCORE ply)"
      define mvs where "mvs = scoreMoves E (s1\<lparr>tt := t\<rparr>) (pseudoLegalMoves E (board (s1\<lparr>tt := t\<rparr>))) ply hm"
      have run2: "(if hit then Some (ps, s1\<lparr>tt := t\<rparr>)
                   else if a2 \<ge> b2 then Some (a2, s1\<lparr>tt := t\<rparr>)
                   else alphaBetaLoop E n dep b2 ply 0 mvs False
                          (a2, UPPERBOUND, emptyMove, INT32_MIN, False) (s1\<lparr>tt := t\<rparr>)) = Some (r, s')"
      proof -
        have "alphaBeta E (Suc n) dep alpha beta ply s =
                (if hit then Some (ps, s1\<lparr>tt := t\<rparr>)
                   else if a2 \<ge> b2 then Some (a2, s1\<lparr>tt := t\<rparr>)
                   else alphaBetaLoop E n dep b2 ply 0 mvs False
                          (a2, UPPERBOUND, emptyMove, INT32_MIN, False) (s1\<lparr>tt := t\<rparr>))"
          unfolding alphaBeta.simps rs prod.case gt Let_def a2_def b2_def mvs_def
          using ns nz by simp
        then show ?thesis using h by simp
      qed
      have ueq: "alphaBetaUnaided E (Suc n) dep alpha beta ply s =
                (\<not> usable (TT_SIZE E) (tt s1) (hashCode E (board s1)) dep
                 \<and> (hit \<or> a2 \<ge> b2 \<or> alphaBetaLoopUnaided E n dep b2 ply 0 mvs False
                          (a2, UPPERBOUND, emptyMove, INT32_MIN, False) (s1\<lparr>tt := t\<rparr>)))"
        unfolding alphaBetaUnaided.simps rs prod.case gt Let_def a2_def b2_def mvs_def
        using ns nz by simp
      have le: "reads t \<le> rd s'"
      proof (cases "hit \<or> a2 \<ge> b2")
        case True
        then have "s' = s1\<lparr>tt := t\<rparr>" using run2 by (auto split: if_splits)
        then show ?thesis by (simp add: rd_def)
      next
        case False
        then have "alphaBetaLoop E n dep b2 ply 0 mvs False
                          (a2, UPPERBOUND, emptyMove, INT32_MIN, False) (s1\<lparr>tt := t\<rparr>) = Some (r, s')"
          using run2 by (auto split: if_splits)
        from frame_abl(2) [OF inv this] show ?thesis by (simp add: rd_def)
      qed
      then have rdt: "reads t = reads (tt s1)" using rt rdeq b1 by (simp add: rd_def)
      have nu: "\<not> usable (TT_SIZE E) (tt s1) (hashCode E (board s1)) dep"
        by (rule unusable_if_not_read [OF gt rdt])
      have "hit \<or> a2 \<ge> b2 \<or> alphaBetaLoopUnaided E n dep b2 ply 0 mvs False
                          (a2, UPPERBOUND, emptyMove, INT32_MIN, False) (s1\<lparr>tt := t\<rparr>)"
      proof (cases "hit \<or> a2 \<ge> b2")
        case True
        then show ?thesis by blast
      next
        case False
        then have l: "alphaBetaLoop E n dep b2 ply 0 mvs False
                          (a2, UPPERBOUND, emptyMove, INT32_MIN, False) (s1\<lparr>tt := t\<rparr>) = Some (r, s')"
          using run2 by (auto split: if_splits)
        have "rd s' = rd (s1\<lparr>tt := t\<rparr>)" using rdt rdeq b1 by (simp add: rd_def)
        from abl [OF l this] show ?thesis by simp
      qed
      then show ?thesis
        unfolding ueq using nu by simp
    qed
  qed
qed

lemma nr_abl:
  assumes inv: "\<And>b m. unMakeMove E (makeMove E b m) = b"
    and ab: "\<And>dep alpha beta ply s r s'. alphaBeta E n dep alpha beta ply s = Some (r, s') \<Longrightarrow> rd s' = rd s
              \<Longrightarrow> alphaBetaUnaided E n dep alpha beta ply s"
    and abl: "\<And>dep beta ply i moves h locals s r s'.
              alphaBetaLoop E n dep beta ply i moves h locals s = Some (r, s') \<Longrightarrow> rd s' = rd s
              \<Longrightarrow> alphaBetaLoopUnaided E n dep beta ply i moves h locals s"
    and h: "alphaBetaLoop E (Suc n) dep beta ply i moves hl locals s = Some (r, s')" and rdeq: "rd s' = rd s"
  shows "alphaBetaLoopUnaided E (Suc n) dep beta ply i moves hl locals s"
proof (cases "i < length moves")
  case False
  then show ?thesis by simp
next
  case il: True
  obtain move moves1 where sm: "selectMove moves i = (move, moves1)" by (cases "selectMove moves i")
  define s1 where "s1 = s\<lparr>board := makeMove E (board s) move\<rparr>"
  have bs1: "board s1 = makeMove E (board s) move" "rd s1 = rd s" by (simp_all add: s1_def rd_def)
  show ?thesis
  proof (cases "inCheck E (board s1) (invertColor (sideToMove E (board s1)))")
    case True
    then have l: "alphaBetaLoop E n dep beta ply (Suc i) moves1 hl locals (s1\<lparr>board := unMakeMove E (board s1)\<rparr>) = Some (r, s')"
      using h il sm by (simp add: s1_def Let_def)
    have "rd s' = rd (s1\<lparr>board := unMakeMove E (board s1)\<rparr>)" using rdeq by (simp add: rd_def s1_def)
    from abl [OF l this] show ?thesis using il sm True by (simp add: s1_def Let_def)
  next
    case legal: False
    obtain draw tf where dc: "drawCheck E (board s1) move = (draw, tf)" by (cases "drawCheck E (board s1) move")
    define child where "child = (if draw then Some (0, s1)
                      else (case alphaBeta E n (sub32 dep 1) (neg32 beta) (neg32 (fst locals)) (add32 ply 1) s1 of
                              None \<Rightarrow> None | Some (v, s2) \<Rightarrow> Some (neg32 v, s2)))"
    have step: "(case child of None \<Rightarrow> None
                 | Some (sc, s2) \<Rightarrow>
                    (case alphaBetaMove E dep beta ply move tf sc locals s2 of
                       Return r \<Rightarrow> Some r
                     | Continue (locals1, s3) \<Rightarrow> alphaBetaLoop E n dep beta ply (Suc i) moves1 True locals1 s3))
                = Some (r, s')"
      using h il sm legal dc by (cases draw) (simp_all add: s1_def Let_def child_def)
    then obtain sc s2 where ch: "child = Some (sc, s2)"
      by (cases child) auto
    have uaeq: "alphaBetaLoopUnaided E (Suc n) dep beta ply i moves hl locals s =
                ((draw \<or> alphaBetaUnaided E n (sub32 dep 1) (neg32 beta) (neg32 (fst locals)) (add32 ply 1) s1)
                 \<and> (case child of None \<Rightarrow> True
                    | Some (sc, s2) \<Rightarrow>
                       (case alphaBetaMove E dep beta ply move tf sc locals s2 of
                          Return r \<Rightarrow> True
                        | Continue (locals1, s3) \<Rightarrow>
                            alphaBetaLoopUnaided E n dep beta ply (Suc i) moves1 True locals1 s3)))"
      using il sm legal dc by (cases draw) (simp_all add: s1_def Let_def child_def)
    have goal: "alphaBetaLoopUnaided E (Suc n) dep beta ply i moves hl locals s =
                ((draw \<or> alphaBetaUnaided E n (sub32 dep 1) (neg32 beta) (neg32 (fst locals)) (add32 ply 1) s1)
                 \<and> (case alphaBetaMove E dep beta ply move tf sc locals s2 of
                       Return r \<Rightarrow> True
                     | Continue (locals1, s3) \<Rightarrow>
                         alphaBetaLoopUnaided E n dep beta ply (Suc i) moves1 True locals1 s3))"
      unfolding uaeq ch by simp
    have fr2: "rd s1 \<le> rd s2"
      and cu: "rd s2 = rd s1 \<Longrightarrow> draw \<or> alphaBetaUnaided E n (sub32 dep 1) (neg32 beta) (neg32 (fst locals)) (add32 ply 1) s1"
    proof -
      show "rd s1 \<le> rd s2"
      proof (cases draw)
        case True
        then show ?thesis using ch by (simp add: child_def)
      next
        case False
        then obtain vc where "alphaBeta E n (sub32 dep 1) (neg32 beta) (neg32 (fst locals)) (add32 ply 1) s1 = Some (vc, s2)"
          using ch by (auto simp: child_def split: option.splits)
        from frame_ab(2) [OF inv this] show ?thesis .
      qed
      show "draw \<or> alphaBetaUnaided E n (sub32 dep 1) (neg32 beta) (neg32 (fst locals)) (add32 ply 1) s1"
        if "rd s2 = rd s1"
      proof (cases draw)
        case True
        then show ?thesis by simp
      next
        case False
        then obtain vc where "alphaBeta E n (sub32 dep 1) (neg32 beta) (neg32 (fst locals)) (add32 ply 1) s1 = Some (vc, s2)"
          using ch by (auto simp: child_def split: option.splits)
        from ab [OF this that] show ?thesis by simp
      qed
    qed
    show ?thesis
    proof (cases "alphaBetaMove E dep beta ply move tf sc locals s2")
      case (Return x)
      then have x: "x = (r, s')" using step ch by simp
      have "rd s' = rd s2" using alphaBetaMove_frame(1) Return x by blast
      then have "rd s2 = rd s1" using rdeq bs1 by simp
      from cu [OF this] show ?thesis unfolding goal using Return by simp
    next
      case (Continue x)
      obtain l1 s3 where x: "x = (l1, s3)" by (cases x)
      have run1: "alphaBetaLoop E n dep beta ply (Suc i) moves1 True l1 s3 = Some (r, s')"
        using step ch Continue x by simp
      have "rd s3 = rd s2" using alphaBetaMove_frame(2) Continue x by blast
      moreover have "rd s3 \<le> rd s'" using frame_abl(2) [OF inv run1] .
      ultimately have rd2: "rd s2 = rd s1" and rd3: "rd s' = rd s3" using rdeq bs1 fr2 by simp_all
      from cu [OF rd2] abl [OF run1 rd3] show ?thesis unfolding goal using Continue x by simp
    qed
  qed
qed

lemma nr_q:
  assumes inv: "\<And>b m. unMakeMove E (makeMove E b m) = b"
    and ql: "\<And>dep beta ply i moves locals s r s'.
              quiesceLoop E n dep beta ply i moves locals s = Some (r, s') \<Longrightarrow> rd s' = rd s
              \<Longrightarrow> quiesceLoopUnaided E n dep beta ply i moves locals s"
    and h: "quiesce E (Suc n) alpha beta ply dep s = Some (r, s')" and rdeq: "rd s' = rd s"
  shows "quiesceUnaided E (Suc n) alpha beta ply dep s"
proof -
  obtain stp s1 where rs: "readStop E s = (stp, s1)" by (cases "readStop E s")
  have b1: "rd s1 = rd s" using readStop_frame [OF rs] by simp
  define a0 where "a0 = (if alpha < evaluate E (board s1) then evaluate E (board s1) else alpha)"
  obtain hit ps a1 be1 hm t where gt:
    "getTransposition (TT_SIZE E) (tt s1) (hashCode E (board s1)) dep ply 0 a0 beta emptyMove
       = (hit, ps, a1, be1, hm, t)"
    by (metis prod_cases3)
  have rt: "rd s1 \<le> reads t" using getTransposition_reads(1) [OF gt] by (simp add: rd_def)
  define mvs where "mvs = scoreTacticalMoves E (s1\<lparr>tt := t\<rparr>) (tacticalMoves E (board s1)) hm"
  show ?thesis
  proof (cases "stp \<or> evaluate E (board s1) \<ge> beta
      \<or> add32 (evaluate E (board s1)) (mg_value E (QUEEN E - 1)) < a0")
    case True
    then show ?thesis using rs by (auto simp: Let_def a0_def)
  next
    case False
    then have run2: "(if hit then Some (ps, s1\<lparr>tt := t\<rparr>)
                 else quiesceLoop E n dep be1 ply 0 mvs (a1, UPPERBOUND, emptyMove, INT32_MIN) (s1\<lparr>tt := t\<rparr>))
                = Some (r, s')"
      using h rs gt by (auto simp: Let_def a0_def mvs_def)
    have le: "reads t \<le> rd s'"
    proof (cases hit)
      case True
      then have "s' = s1\<lparr>tt := t\<rparr>" using run2 by simp
      then show ?thesis by (simp add: rd_def)
    next
      case nh: False
      then have "quiesceLoop E n dep be1 ply 0 mvs (a1, UPPERBOUND, emptyMove, INT32_MIN) (s1\<lparr>tt := t\<rparr>)
                  = Some (r, s')"
        using run2 by simp
      from frame_ql(2) [OF inv this] show ?thesis by (simp add: rd_def)
    qed
    then have rdt: "reads t = reads (tt s1)" using rt rdeq b1 by (simp add: rd_def)
    have nu: "\<not> usable (TT_SIZE E) (tt s1) (hashCode E (board s1)) dep"
      by (rule unusable_if_not_read [OF gt rdt])
    have "hit \<or> quiesceLoopUnaided E n dep be1 ply 0 mvs (a1, UPPERBOUND, emptyMove, INT32_MIN) (s1\<lparr>tt := t\<rparr>)"
    proof (cases hit)
      case True
      then show ?thesis by simp
    next
      case nh: False
      then have l: "quiesceLoop E n dep be1 ply 0 mvs (a1, UPPERBOUND, emptyMove, INT32_MIN) (s1\<lparr>tt := t\<rparr>)
                  = Some (r, s')"
        using run2 by simp
      have "rd s' = rd (s1\<lparr>tt := t\<rparr>)" using rdt rdeq b1 by (simp add: rd_def)
      from ql [OF l this] show ?thesis by simp
    qed
    then show ?thesis
      using rs False gt nu by (auto simp: Let_def a0_def mvs_def)
  qed
qed

lemma nr_ql:
  assumes inv: "\<And>b m. unMakeMove E (makeMove E b m) = b"
    and q: "\<And>alpha beta ply dep s r s'. quiesce E n alpha beta ply dep s = Some (r, s') \<Longrightarrow> rd s' = rd s
              \<Longrightarrow> quiesceUnaided E n alpha beta ply dep s"
    and ql: "\<And>dep beta ply i moves locals s r s'.
              quiesceLoop E n dep beta ply i moves locals s = Some (r, s') \<Longrightarrow> rd s' = rd s
              \<Longrightarrow> quiesceLoopUnaided E n dep beta ply i moves locals s"
    and h: "quiesceLoop E (Suc n) dep beta ply i moves locals s = Some (r, s')" and rdeq: "rd s' = rd s"
  shows "quiesceLoopUnaided E (Suc n) dep beta ply i moves locals s"
proof (cases "i < length moves")
  case False
  then show ?thesis by simp
next
  case il: True
  obtain move moves1 where sm: "selectMove moves i = (move, moves1)" by (cases "selectMove moves i")
  define s1 where "s1 = s\<lparr>board := makeMove E (board s) move\<rparr>"
  have bs1: "board s1 = makeMove E (board s) move" "rd s1 = rd s" by (simp_all add: s1_def rd_def)
  show ?thesis
  proof (cases "inCheck E (board s1) (invertColor (sideToMove E (board s1)))")
    case True
    then have l: "quiesceLoop E n dep beta ply (Suc i) moves1 locals (s1\<lparr>board := unMakeMove E (board s1)\<rparr>) = Some (r, s')"
      using h il sm by (simp add: s1_def Let_def)
    have "rd s' = rd (s1\<lparr>board := unMakeMove E (board s1)\<rparr>)" using rdeq by (simp add: rd_def s1_def)
    from ql [OF l this] show ?thesis using il sm True by (simp add: s1_def Let_def)
  next
    case legal: False
    have step: "(case quiesce E n (neg32 beta) (neg32 (fst locals)) (add32 ply 1) (sub32 dep 1) s1 of
                   None \<Rightarrow> None
                 | Some (v, s2) \<Rightarrow>
                    (case quiesceMove E dep beta ply move (neg32 v) locals s2 of
                       Return r \<Rightarrow> Some r
                     | Continue (locals1, s3) \<Rightarrow> quiesceLoop E n dep beta ply (Suc i) moves1 locals1 s3))
                = Some (r, s')"
      using h il sm legal by (simp add: s1_def Let_def)
    then obtain v s2 where ch: "quiesce E n (neg32 beta) (neg32 (fst locals)) (add32 ply 1) (sub32 dep 1) s1 = Some (v, s2)"
      by (cases "quiesce E n (neg32 beta) (neg32 (fst locals)) (add32 ply 1) (sub32 dep 1) s1") auto
    have goal: "quiesceLoopUnaided E (Suc n) dep beta ply i moves locals s =
                (quiesceUnaided E n (neg32 beta) (neg32 (fst locals)) (add32 ply 1) (sub32 dep 1) s1
                 \<and> (case quiesceMove E dep beta ply move (neg32 v) locals s2 of
                       Return r \<Rightarrow> True
                     | Continue (locals1, s3) \<Rightarrow> quiesceLoopUnaided E n dep beta ply (Suc i) moves1 locals1 s3))"
      using il sm legal ch by (simp add: s1_def Let_def)
    have fr2: "rd s1 \<le> rd s2" using frame_q(2) [OF inv ch] .
    show ?thesis
    proof (cases "quiesceMove E dep beta ply move (neg32 v) locals s2")
      case (Return x)
      then have x: "x = (r, s')" using step ch by simp
      have "rd s' = rd s2" using quiesceMove_frame(1) Return x by blast
      then have "rd s2 = rd s1" using rdeq bs1 by simp
      from q [OF ch this] show ?thesis unfolding goal using Return by simp
    next
      case (Continue x)
      obtain l1 s3 where x: "x = (l1, s3)" by (cases x)
      have run1: "quiesceLoop E n dep beta ply (Suc i) moves1 l1 s3 = Some (r, s')"
        using step ch Continue x by simp
      have "rd s3 = rd s2" using quiesceMove_frame(2) Continue x by blast
      moreover have "rd s3 \<le> rd s'" using frame_ql(2) [OF inv run1] .
      ultimately have rd2: "rd s2 = rd s1" and rd3: "rd s' = rd s3" using rdeq bs1 fr2 by simp_all
      from q [OF ch rd2] ql [OF run1 rd3] show ?thesis unfolding goal using Continue x by simp
    qed
  qed
qed

lemma no_reads_unaided:
  assumes inv: "\<And>b m. unMakeMove E (makeMove E b m) = b"
  shows "(\<forall>dep alpha beta ply s r s'. alphaBeta E n dep alpha beta ply s = Some (r, s') \<longrightarrow> rd s' = rd s
            \<longrightarrow> alphaBetaUnaided E n dep alpha beta ply s)
       \<and> (\<forall>dep beta ply i moves h locals s r s'.
            alphaBetaLoop E n dep beta ply i moves h locals s = Some (r, s') \<longrightarrow> rd s' = rd s
            \<longrightarrow> alphaBetaLoopUnaided E n dep beta ply i moves h locals s)
       \<and> (\<forall>alpha beta ply dep s r s'. quiesce E n alpha beta ply dep s = Some (r, s') \<longrightarrow> rd s' = rd s
            \<longrightarrow> quiesceUnaided E n alpha beta ply dep s)
       \<and> (\<forall>dep beta ply i moves locals s r s'.
            quiesceLoop E n dep beta ply i moves locals s = Some (r, s') \<longrightarrow> rd s' = rd s
            \<longrightarrow> quiesceLoopUnaided E n dep beta ply i moves locals s)"
proof (induction n)
  case 0
  show ?case by simp
next
  case (Suc n)
  have ab: "\<And>dep alpha beta ply s r s'. alphaBeta E n dep alpha beta ply s = Some (r, s') \<Longrightarrow> rd s' = rd s
              \<Longrightarrow> alphaBetaUnaided E n dep alpha beta ply s"
    by (rule Suc.IH [THEN conjunct1, rule_format])
  have abl: "\<And>dep beta ply i moves h locals s r s'.
              alphaBetaLoop E n dep beta ply i moves h locals s = Some (r, s') \<Longrightarrow> rd s' = rd s
              \<Longrightarrow> alphaBetaLoopUnaided E n dep beta ply i moves h locals s"
    by (rule Suc.IH [THEN conjunct2, THEN conjunct1, rule_format])
  have q: "\<And>alpha beta ply dep s r s'. quiesce E n alpha beta ply dep s = Some (r, s') \<Longrightarrow> rd s' = rd s
              \<Longrightarrow> quiesceUnaided E n alpha beta ply dep s"
    by (rule Suc.IH [THEN conjunct2, THEN conjunct2, THEN conjunct1, rule_format])
  have ql: "\<And>dep beta ply i moves locals s r s'.
              quiesceLoop E n dep beta ply i moves locals s = Some (r, s') \<Longrightarrow> rd s' = rd s
              \<Longrightarrow> quiesceLoopUnaided E n dep beta ply i moves locals s"
    by (rule Suc.IH [THEN conjunct2, THEN conjunct2, THEN conjunct2, rule_format])
  show ?case
  proof (intro conjI allI impI)
    fix dep alpha beta ply s r s'
    assume "alphaBeta E (Suc n) dep alpha beta ply s = Some (r, s')" "rd s' = rd s"
    then show "alphaBetaUnaided E (Suc n) dep alpha beta ply s"
      by (rule nr_ab [where n = n, OF inv, rotated 2]) (rule abl q, assumption+)+
  next
    fix dep beta ply i moves h locals s r s'
    assume "alphaBetaLoop E (Suc n) dep beta ply i moves h locals s = Some (r, s')" "rd s' = rd s"
    then show "alphaBetaLoopUnaided E (Suc n) dep beta ply i moves h locals s"
      by (rule nr_abl [where n = n, OF inv, rotated 2]) (rule ab abl, assumption+)+
  next
    fix alpha beta ply dep s r s'
    assume "quiesce E (Suc n) alpha beta ply dep s = Some (r, s')" "rd s' = rd s"
    then show "quiesceUnaided E (Suc n) alpha beta ply dep s"
      by (rule nr_q [where n = n, OF inv, rotated 1]) (rule ql, assumption+)+
  next
    fix dep beta ply i moves locals s r s'
    assume "quiesceLoop E (Suc n) dep beta ply i moves locals s = Some (r, s')" "rd s' = rd s"
    then show "quiesceLoopUnaided E (Suc n) dep beta ply i moves locals s"
      by (rule nr_ql [where n = n, OF inv, rotated 2]) (rule q ql, assumption+)+
  qed
qed

text \<open>
  In the tree game the exhaustive quiescence value exceeds the static evaluation only on
  leaf 3, by 20: the delta test does not change a value there.
\<close>

lemma treeGame_delta:
  assumes "minimaxQ treeGame k b = Some w"
  shows "w \<le> evaluate treeGame b + mg_value treeGame (QUEEN treeGame - 1)"
proof (cases "cur b = 3")
  case False
  then have "w = evaluate treeGame b"
    using assms by (cases k) (simp_all add: treeGame_def toyGame_def legalMoves_def)
  then show ?thesis by (simp add: treeGame_def toyGame_def toyValues_def)
next
  case True
  obtain k1 where k: "k = Suc k1" using assms by (cases k) auto
  have c7: "cur (7 # b) \<noteq> 3" by (simp add: cur_def)
  have "minimaxQ treeGame k1 (7 # b) = None \<or> minimaxQ treeGame k1 (7 # b) = Some (- 30)"
    by (cases k1) (simp_all add: treeGame_def toyGame_def legalMoves_def cur_def)
  then have "w = 30"
    using assms True unfolding k
    by (auto simp: treeGame_def toyGame_def legalMoves_def cur_def)
  then show ?thesis using True by (simp add: treeGame_def toyGame_def toyValues_def)
qed

text \<open>
  Claim C1, as the code has it.  Let the stop flag stay clear, let \<open>unMakeMove\<close> undo
  \<open>makeMove\<close>, let the static evaluation be bounded by \<open>K\<close> with \<open>K + depth\<close> below
  \<open>MATE_SCORE\<close>, and let the queen value of the delta test bound what the exhaustive
  quiescence value can exceed the static evaluation by.  If a search of depth at least 1
  with the full window returns and the table has not helped it (no probe has found an
  entry for its position of at least the requested depth; entries that are absent, kept
  for another key or too shallow may be met and read), and the exhaustive minimax value
  of the same tree is defined, then the returned score is that value: pruning and move
  ordering do not change it.  If moreover the position has a legal move, the slot of the
  position held no EXACT entry deeper than the search, and the recursion is at most
  \<open>2^31\<close> calls deep (the depth counter of \<open>quiesce\<close> has not wrapped), then the table
  holds afterwards an EXACT entry for the position whose best move is a legal move of
  that value: a best move of exhaustive minimax, the first one in the order of the
  search.  A search that returns with the read counter unchanged is one that the table
  has not helped.  Both searches are defined on a finite tree: when some measure \<open>rank\<close>
  of the board decreases with every tactical move, the search returns with enough fuel
  and so does exhaustive minimax.  Nothing is said about searches that use an entry of
  the table.
\<close>

theorem alphaBeta_equals_minimax:
  assumes "\<forall>n. \<not> stopFlag E n"
    and "\<forall>b m. unMakeMove E (makeMove E b m) = b"
    and "\<forall>b. \<bar>evaluate E b\<bar> \<le> K"
    and "0 < dep" and "K + dep < MATE_SCORE"
    and "0 \<le> mg_value E (QUEEN E - 1)" and "mg_value E (QUEEN E - 1) \<le> 1073741824"
    and "\<forall>k b w. minimaxQ E k b = Some w \<longrightarrow> w \<le> evaluate E b + mg_value E (QUEEN E - 1)"
  shows "(alphaBeta E n dep (INT32_MIN + 1) INT32_MAX 0 s = Some (r, s')
            \<longrightarrow> alphaBetaUnaided E n dep (INT32_MIN + 1) INT32_MAX 0 s
            \<longrightarrow> minimax E k (nat dep) 0 (board s) = Some (v, mv)
            \<longrightarrow> r = v
              \<and> (legalMoves E (board s) (pseudoLegalMoves E (board s)) \<noteq> []
                    \<longrightarrow> slotFree E dep (board s) (tt s) \<longrightarrow> int n \<le> 2147483648
                    \<longrightarrow> (let e = entries (tt s') (slot (TT_SIZE E) (hashCode E (board s)))
                         in key e = hashCode E (board s) \<and> nodeType e = EXACT
                            \<and> bestMove e \<in> set (legalMoves E (board s) (pseudoLegalMoves E (board s)))
                            \<and> mval E k (nat (dep - 1)) 0 (board s) (bestMove e) = Some v)))
       \<and> (alphaBeta E n dep (INT32_MIN + 1) INT32_MAX 0 s = Some (r, s')
            \<longrightarrow> reads (tt s') = reads (tt s)
            \<longrightarrow> alphaBetaUnaided E n dep (INT32_MIN + 1) INT32_MAX 0 s)
       \<and> ((\<forall>b m. m \<in> set (tacticalMoves E b) \<longrightarrow> (rank :: 'b \<Rightarrow> nat) (makeMove E b m) < rank b)
            \<longrightarrow> (\<exists>n r s'. alphaBeta E n dep (INT32_MIN + 1) INT32_MAX 0 s = Some (r, s'))
              \<and> (\<exists>k v mv. minimax E k (nat dep) 0 (board s) = Some (v, mv)))"
proof -
  have f: "fair E K"
    unfolding fair_def using assms(1,2,3,5,6,7,8) assms(4) by auto
  have inv: "unMakeMove E (makeMove E b m) = b" for b m
    using assms(2) by simp
  have score: "r = v"
    if run: "alphaBeta E n dep (INT32_MIN + 1) INT32_MAX 0 s = Some (r, s')"
      and ua: "alphaBetaUnaided E n dep (INT32_MIN + 1) INT32_MAX 0 s"
      and ref: "minimax E k (nat dep) 0 (board s) = Some (v, mv)"
  proof -
    have AB: "ABprop E K n" using search_props [OF f] by simp
    have win: "okWin (INT32_MIN + 1) INT32_MAX"
      by (simp add: okWin_def INT32_MIN_def INT32_MAX_def)
    have w: "within v (INT32_MIN + 1) INT32_MAX r"
      using ABpropD [OF AB run ua win _ _ _ ref] assms(4,5) by simp
    have "- (MATE_SCORE - 0) \<le> v \<and> v < MATE_SCORE - 0"
      using minimax_range [of E K k "nat dep" 0 "board s" v mv] assms(3,4,5) ref by simp
    then show ?thesis
      using w by (simp add: within_def INT32_MIN_def INT32_MAX_def MATE_SCORE_def)
  qed
  have move: "let e = entries (tt s') (slot (TT_SIZE E) (hashCode E (board s)))
              in key e = hashCode E (board s) \<and> nodeType e = EXACT
                 \<and> bestMove e \<in> set (legalMoves E (board s) (pseudoLegalMoves E (board s)))
                 \<and> mval E k (nat (dep - 1)) 0 (board s) (bestMove e) = Some v"
    if run: "alphaBeta E n dep (INT32_MIN + 1) INT32_MAX 0 s = Some (r, s')"
      and ua: "alphaBetaUnaided E n dep (INT32_MIN + 1) INT32_MAX 0 s"
      and ref: "minimax E k (nat dep) 0 (board s) = Some (v, mv)"
      and ne: "legalMoves E (board s) (pseudoLegalMoves E (board s)) \<noteq> []"
      and sf: "slotFree E dep (board s) (tt s)" and nb: "int n \<le> 2147483648"
  proof -
    have "recorded E k dep 0 (board s) (set (pseudoLegalMoves E (board s))) r (tt s')"
      by (rule root_move [OF f run ua assms(4,5) nb ref ne sf])
    then show ?thesis
      using score [OF run ua ref] by (simp add: recorded_def Let_def set_legalMoves)
  qed
  have noread: "alphaBetaUnaided E n dep (INT32_MIN + 1) INT32_MAX 0 s"
    if run: "alphaBeta E n dep (INT32_MIN + 1) INT32_MAX 0 s = Some (r, s')"
      and rds: "reads (tt s') = reads (tt s)"
  proof -
    have "rd s' = rd s" using rds by (simp add: rd_def)
    with run show ?thesis
      by (rule no_reads_unaided [OF inv, THEN conjunct1, rule_format])
  qed
  have total: "(\<exists>n r s'. alphaBeta E n dep (INT32_MIN + 1) INT32_MAX 0 s = Some (r, s'))
              \<and> (\<exists>k v mv. minimax E k (nat dep) 0 (board s) = Some (v, mv))"
    if rk: "\<forall>b m. m \<in> set (tacticalMoves E b) \<longrightarrow> rank (makeMove E b m) < rank b"
  proof
    have dec: "rank (makeMove E b m) < rank b" if "m \<in> set (tacticalMoves E b)" for b m
      using rk that by simp
    have K0: "0 \<le> K" using assms(3) by (metis abs_ge_zero order_trans)
    have "dep < 2147483648" using assms(5) K0 by (simp add: MATE_SCORE_def)
    then show "\<exists>n r s'. alphaBeta E n dep (INT32_MIN + 1) INT32_MAX 0 s = Some (r, s')"
      using alphaBeta_returns [OF inv dec, of dep "INT32_MIN + 1" INT32_MAX 0 s] assms(4) by fastforce
    show "\<exists>k v mv. minimax E k (nat dep) 0 (board s) = Some (v, mv)"
      using minimax_returns [OF dec, of "nat dep" 0 "board s"] by fastforce
  qed
  show ?thesis
    using score move noread total by blast
qed

text \<open>
  A search of depth 2 of the tree game on the table that a search of depth 1 has left.
  It finds the entries of the first search for the root and for position 1 and reads
  them, but both are too shallow to be used.  The capture below leaf 3 is counted, the
  stand-pat score cuts off at leaf 4, the delta test returns early at leaf 5, and the
  answer to the second root move is a beta cutoff that leaves leaf 6 unvisited: position
  2 ends with a LOWERBOUND entry and the leaves 4, 5 and 6 without an entry.  The score
  is the minimax value 30 and the move in the entry of the root has that value.  A
  search from the empty table reads nothing and is therefore not helped either.  The
  measure is 1 where the capture can be made and 0 elsewhere.
\<close>

theorem alphaBeta_equals_minimax_witness:
  "map_option (\<lambda>(v, s). (v, reads (tt s) - reads (tt deepened)))
       (alphaBeta treeGame 50 2 (INT32_MIN + 1) INT32_MAX 0 deepened) = Some (30, 2)
   \<and> map_option (\<lambda>(v, s). mval treeGame 50 1 0 [0] (bestMove (entries (tt s) 0)))
       (alphaBeta treeGame 50 2 (INT32_MIN + 1) INT32_MAX 0 deepened) = Some (Some 30)
   \<and> map_option (\<lambda>(v, s). map (\<lambda>i. nodeType (entries (tt s) i)) [2, 4, 5, 6])
       (alphaBeta treeGame 50 2 (INT32_MIN + 1) INT32_MAX 0 deepened)
     = Some [LOWERBOUND, EMPTY, EMPTY, EMPTY]
   \<and> alphaBetaUnaided treeGame 50 2 (INT32_MIN + 1) INT32_MAX 0 (freshSearch [0])
   \<and> (\<exists>k v mv. minimax treeGame k 2 0 [0] = Some (v, mv))"
proof (intro conjI)
  show "map_option (\<lambda>(v, s). map (\<lambda>i. nodeType (entries (tt s) i)) [2, 4, 5, 6])
       (alphaBeta treeGame 50 2 (INT32_MIN + 1) INT32_MAX 0 deepened)
     = Some [LOWERBOUND, EMPTY, EMPTY, EMPTY]"
    by code_simp
  have 1: "\<forall>n. \<not> stopFlag treeGame n"
    and 2: "\<forall>b m. unMakeMove treeGame (makeMove treeGame b m) = b"
    and 3: "\<forall>b. \<bar>evaluate treeGame b\<bar> \<le> 1100"
    and 6: "0 \<le> mg_value treeGame (QUEEN treeGame - 1)"
    and 7: "mg_value treeGame (QUEEN treeGame - 1) \<le> 1073741824"
    by (simp_all add: treeGame_def toyGame_def toyValues_def)
  have 8: "\<forall>k b w. minimaxQ treeGame k b = Some w
             \<longrightarrow> w \<le> evaluate treeGame b + mg_value treeGame (QUEEN treeGame - 1)"
    by (intro allI impI) (rule treeGame_delta)
  note inst = alphaBeta_equals_minimax [OF 1 2 3 _ _ 6 7 8, where dep = 2 and n = 50
      and rank = "\<lambda>b. if cur b = 3 then 1 else 0"]
  have bd: "board deepened = [0]"
    by code_simp
  have "map_option (\<lambda>(v, s). reads (tt s) - reads (tt deepened))
          (alphaBeta treeGame 50 2 (INT32_MIN + 1) INT32_MAX 0 deepened) = Some 2"
    by code_simp
  then obtain r s' where run: "alphaBeta treeGame 50 2 (INT32_MIN + 1) INT32_MAX 0 deepened = Some (r, s')"
    and rd2: "reads (tt s') - reads (tt deepened) = 2"
    by auto
  have ua: "alphaBetaUnaided treeGame 50 2 (INT32_MIN + 1) INT32_MAX 0 deepened"
    by code_simp
  have ref: "minimax treeGame 50 (nat 2) 0 (board deepened)
               = Some (30, Some \<lparr>start = 0, end_sq = 1, flag = 0, promotionType = 0\<rparr>)"
    unfolding bd by code_simp
  note res = inst [where s = deepened, THEN conjunct1, rule_format, OF _ _ run ua ref]
  have r: "r = 30"
    using res by (simp add: MATE_SCORE_def)
  then show "map_option (\<lambda>(v, s). (v, reads (tt s) - reads (tt deepened)))
       (alphaBeta treeGame 50 2 (INT32_MIN + 1) INT32_MAX 0 deepened) = Some (30, 2)"
    using run rd2 by simp
  have ne: "legalMoves treeGame (board deepened) (pseudoLegalMoves treeGame (board deepened)) \<noteq> []"
    unfolding bd by (simp add: treeGame_def toyGame_def legalMoves_def cur_def)
  have sf: "slotFree treeGame 2 (board deepened) (tt deepened)"
    unfolding bd by code_simp
  have sl: "slot (TT_SIZE treeGame) (hashCode treeGame [0]) = 0"
    by (simp add: treeGame_def toyGame_def cur_def slot_def wrap64_def crem_def)
  have "mval treeGame 50 (nat (2 - 1)) 0 (board deepened)
          (bestMove (entries (tt s') (slot (TT_SIZE treeGame) (hashCode treeGame (board deepened)))))
        = Some 30"
    using ne sf res by (simp add: MATE_SCORE_def Let_def)
  then show "map_option (\<lambda>(v, s). mval treeGame 50 1 0 [0] (bestMove (entries (tt s) 0)))
       (alphaBeta treeGame 50 2 (INT32_MIN + 1) INT32_MAX 0 deepened) = Some (Some 30)"
    using run by (simp add: sl bd)
  have "map_option (\<lambda>(v, s). reads (tt s))
          (alphaBeta treeGame 50 2 (INT32_MIN + 1) INT32_MAX 0 (freshSearch [0])) = Some 0"
    by code_simp
  then obtain r0 s0 where run0: "alphaBeta treeGame 50 2 (INT32_MIN + 1) INT32_MAX 0 (freshSearch [0]) = Some (r0, s0)"
    and rd0: "reads (tt s0) = 0"
    by auto
  have "reads (tt s0) = reads (tt (freshSearch [0::nat]))"
    using rd0 by (simp add: freshSearch_def emptyTable_def)
  then show "alphaBetaUnaided treeGame 50 2 (INT32_MIN + 1) INT32_MAX 0 (freshSearch [0])"
    using inst [where s = "freshSearch [0]", THEN conjunct2, THEN conjunct1, rule_format, OF _ _ run0]
    by (simp add: MATE_SCORE_def)
  have rk: "\<forall>b m. m \<in> set (tacticalMoves treeGame b)
              \<longrightarrow> (\<lambda>b. if cur b = 3 then 1 else 0 :: nat) (makeMove treeGame b m)
                    < (\<lambda>b. if cur b = 3 then 1 else 0) b"
    by (simp add: treeGame_def toyGame_def cur_def)
  have "\<exists>k v mv. minimax treeGame k (nat 2) 0 (board deepened) = Some (v, mv)"
    using inst [where s = deepened, THEN conjunct2, THEN conjunct2, THEN mp, OF _ _ rk]
    by (simp add: MATE_SCORE_def)
  then show "\<exists>k v mv. minimax treeGame k 2 0 [0] = Some (v, mv)"
    by (simp add: bd)
qed

text \<open>
  Claim C1 as stated fails in two ways.  The first is a read of the table.  In the depth
  game a search of depth 3 meets position 1 first with two plies to go and stores its
  value 30 with depth 2; it meets position 1 again at the horizon, where exhaustive
  minimax takes the static value \<open>- 40\<close>, finds the stored entry deep enough
  (\<open>entry.depth >= depth\<close>) and takes 30 from it.  Exhaustive minimax gives the score 40
  and the move to position 4; the search returns \<open>- 30\<close> with the move to position 1 in
  the entry of the root.  The second is the delta test of \<open>quiesce\<close>, without any entry
  of the table being found.  In the delta game the first root move is worth 100.  Below
  the second one, leaf 5 has the static value \<open>- 1000\<close>, and \<open>- 1000\<close> plus the value of
  a queen, 1025, is below the \<open>alpha\<close> of 100: \<open>quiesce\<close> returns 100 without trying the
  capture, which would lead to a position worth 200.  Exhaustive minimax gives the score
  200 and the second root move; the search returns 100 and records the first.
\<close>

theorem alphaBeta_differs_from_minimax:
  "map_option (\<lambda>(v, s). (v, bestMove (entries (tt s) 0)))
     (alphaBeta depthGame 50 3 (INT32_MIN + 1) INT32_MAX 0 (freshSearch [0]))
     = Some (- 30, \<lparr>start = 0, end_sq = 1, flag = 0, promotionType = 0\<rparr>)
   \<and> minimax depthGame 50 3 0 [0]
     = Some (40, Some \<lparr>start = 0, end_sq = 4, flag = 0, promotionType = 0\<rparr>)
   \<and> map_option (\<lambda>(v, s). (v, reads (tt s), bestMove (entries (tt s) 0)))
     (alphaBeta deltaGame 50 2 (INT32_MIN + 1) INT32_MAX 0 (freshSearch [0]))
     = Some (100, 0, \<lparr>start = 0, end_sq = 1, flag = 0, promotionType = 0\<rparr>)
   \<and> alphaBetaUnaided deltaGame 50 2 (INT32_MIN + 1) INT32_MAX 0 (freshSearch [0])
   \<and> minimax deltaGame 50 2 0 [0]
     = Some (200, Some \<lparr>start = 0, end_sq = 2, flag = 0, promotionType = 0\<rparr>)"
  by code_simp

text \<open>
  Without any read of the table the recorded move is a best move, but which one depends
  on the order of the search.  In the tie game the root has a quiet move to position 1
  and a capture to position 2, both of value 0.  The search tries the capture first and
  records it; exhaustive minimax in the order of the generator names the quiet move.
\<close>

theorem move_order_decides_ties:
  "map_option (\<lambda>(v, s). (v, reads (tt s), bestMove (entries (tt s) 0)))
     (alphaBeta tieGame 50 1 (INT32_MIN + 1) INT32_MAX 0 (freshSearch [0]))
     = Some (0, 0, \<lparr>start = 0, end_sq = 2, flag = 4, promotionType = 0\<rparr>)
   \<and> minimax tieGame 50 1 0 [0]
     = Some (0, Some \<lparr>start = 0, end_sq = 1, flag = 0, promotionType = 0\<rparr>)"
  by code_simp

text \<open>
  A second way in which a read of the table changes the score.  In the transposition game
  the quiet position 3 is reached over position 1 and again over position 2, both times at
  the horizon.  The first visit stores an UPPERBOUND entry of depth 0 whose score is the
  initial \<open>bestScore\<close> of \<open>quiesce\<close>, \<open>INT32_MIN\<close>, since no tactical move was searched
  and the stand-pat score is not folded into \<open>bestScore\<close>.  The second visit reads the
  entry and returns \<open>INT32_MIN\<close>; the parent never counts the move and fails low to its
  clamped \<open>alpha\<close>.  Exhaustive minimax gives 10 and the move to position 1; the search
  returns 65535 with the move to position 2.
\<close>

theorem quiesce_stores_unsearched_bound:
  "map_option (\<lambda>(v, s). (v, bestMove (entries (tt s) 0), entries (tt s) 3))
     (alphaBeta transpositionGame 50 2 (INT32_MIN + 1) INT32_MAX 0 (freshSearch [0]))
     = Some (65535, \<lparr>start = 0, end_sq = 2, flag = 0, promotionType = 0\<rparr>,
             \<lparr>key = 3, bestMove = emptyMove, depth = 0, score = INT32_MIN, nodeType = UPPERBOUND\<rparr>)
   \<and> minimax transpositionGame 50 2 0 [0]
     = Some (10, Some \<lparr>start = 0, end_sq = 1, flag = 0, promotionType = 0\<rparr>)"
  by code_simp
end
